(* ===== verification/Prelude.thy ===== *)
theory Prelude
  imports Main "HOL-Library.Word"
begin

text \<open>
  Shared material of the development: the machine types of \<^verbatim>\<open>types.h\<close>, the outcome of a kernel
  routine (a value, a panic, or going to sleep on a channel), the sequencing of two calls, and
  generic lemmas on lists and words that the component theories use.
\<close>

unbundle bit_operations_syntax

section \<open>Machine types\<close>

type_synonym byte = "8 word"
type_synonym ushort = "16 word"
type_synonym uint = "32 word"

text \<open>The flags of \<^verbatim>\<open>open\<close> (\<^verbatim>\<open>fcntl.h\<close>), shared by the kernel and the user programs.\<close>

definition O_RDONLY :: uint where "O_RDONLY = 0x000"
definition O_WRONLY :: uint where "O_WRONLY = 0x001"
definition O_RDWR :: uint where "O_RDWR = 0x002"
definition O_CREATE :: uint where "O_CREATE = 0x200"

section \<open>Outcomes\<close>

text \<open>
  The sleep channels of the kernel. The C code passes addresses (\<open>b\<close>, \<open>ip\<close>, \<open>&log\<close>, \<open>&ticks\<close>,
  \<open>p\<close>, \<open>&p->nread\<close>, \<open>&p->nwrite\<close>, \<open>&input.r\<close>); an address is named by the object it belongs to,
  table entries by their index and pipes by the address of their page.
\<close>

datatype chan =
    ChBuf nat
  | ChInode nat
  | ChLog
  | ChTicks
  | ChProc nat
  | ChPipeRead uint
  | ChPipeWrite uint
  | ChInput

text \<open>
  A routine run from a state either returns a value and a new state, stops the machine in
  \<^verbatim>\<open>panic\<close> with its message, calls \<^verbatim>\<open>sleep\<close> (then nothing more of the routine happens until
  another process wakes the channel), or leaves the defined behaviour of C: an access outside an
  array or through a null pointer is a \<open>Fault\<close>.
\<close>

datatype ('a, 's) outcome =
    Ok 'a 's
  | Panic string
  | Sleep chan 's
  | Fault string

fun call :: "('a, 's) outcome \<Rightarrow> ('a \<Rightarrow> 's \<Rightarrow> ('b, 's) outcome) \<Rightarrow> ('b, 's) outcome" where
  "call (Ok a s) f = f a s"
| "call (Panic m) f = Panic m"
| "call (Sleep c s) f = Sleep c s"
| "call (Fault m) f = Fault m"

lemma call_Ok_iff: "call m f = Ok b t \<longleftrightarrow> (\<exists>a s. m = Ok a s \<and> f a s = Ok b t)"
  by (cases m) auto

lemma call_OkE:
  assumes "call m f = Ok b t"
  obtains a s where "m = Ok a s" and "f a s = Ok b t"
  using assms by (auto simp: call_Ok_iff)

lemma call_assoc: "call (call m f) g = call m (\<lambda>a s. call (f a s) g)"
  by (cases m) auto

lemma call_cong [fundef_cong]:
  "m = m' \<Longrightarrow> (\<And>a s. m' = Ok a s \<Longrightarrow> f a s = g a s) \<Longrightarrow> call m f = call m' g"
  by (cases m') auto

fun is_Ok :: "('a, 's) outcome \<Rightarrow> bool" where
  "is_Ok (Ok _ _) = True"
| "is_Ok _ = False"

section \<open>Lists\<close>

lemma find_Some_nthD:
  "List.find P xs = Some x \<Longrightarrow> \<exists>i < length xs. xs ! i = x \<and> P x \<and> (\<forall>j < i. \<not> P (xs ! j))"
  by (auto simp: find_Some_iff)

lemma map_upt_nth_update:
  "i < n \<Longrightarrow> (map f [0..<n])[i := v] = map (f(i := v)) [0..<n]"
  by (rule nth_equalityI) (auto simp: nth_list_update)

lemma nth_update_if: "i < length xs \<Longrightarrow> xs[k := v] ! i = (if k = i then v else xs ! i)"
  by (cases "k = i") auto

section \<open>Words\<close>

lemma unat_of_nat_uint: "n < 2 ^ 32 \<Longrightarrow> unat (of_nat n :: uint) = n"
  by (simp add: unat_of_nat take_bit_nat_eq_self)

lemma unat_uint_less: "unat (x :: uint) < 2 ^ 32"
  using unsigned_less [of x] by simp

lemma unat_uint_minus_1: "unat (- 1 :: uint) = 2 ^ 32 - 1"
  by (simp add: unsigned_minus_1_eq_mask mask_eq_exp_minus_1)

lemma unat_add_small: "unat a + unat b < 2 ^ 32 \<Longrightarrow> unat (a + b :: uint) = unat a + unat b"
  by (simp add: unat_word_ariths)

lemma of_nat_inj_small:
  assumes "(of_nat a :: uint) = of_nat b" and "a < 2 ^ 32" and "b < 2 ^ 32"
  shows "a = b"
  using assms unat_of_nat_uint by metis

section \<open>Little-endian fields of a byte buffer\<close>

text \<open>The x86 layout of \<^verbatim>\<open>short\<close> and \<^verbatim>\<open>int\<close> fields that the kernel reads and writes through casts of
  \<^verbatim>\<open>b->data\<close>.\<close>

definition get16 :: "nat \<Rightarrow> byte list \<Rightarrow> ushort" where
  "get16 k d = ucast (d ! k) OR push_bit 8 (ucast (d ! (k + 1)))"

definition put16 :: "nat \<Rightarrow> ushort \<Rightarrow> byte list \<Rightarrow> byte list" where
  "put16 k w d = d[k := ucast w, k + 1 := ucast (drop_bit 8 w)]"

definition get32 :: "nat \<Rightarrow> byte list \<Rightarrow> uint" where
  "get32 k d = ucast (d ! k) OR push_bit 8 (ucast (d ! (k + 1))) OR
     push_bit 16 (ucast (d ! (k + 2))) OR push_bit 24 (ucast (d ! (k + 3)))"

definition put32 :: "nat \<Rightarrow> uint \<Rightarrow> byte list \<Rightarrow> byte list" where
  "put32 k w d = d[k := ucast w, k + 1 := ucast (drop_bit 8 w),
     k + 2 := ucast (drop_bit 16 w), k + 3 := ucast (drop_bit 24 w)]"

lemma length_put16 [simp]: "length (put16 k w d) = length d"
  by (simp add: put16_def)

lemma length_put32 [simp]: "length (put32 k w d) = length d"
  by (simp add: put32_def)

lemma word16_of_bytes:
  "ucast (ucast w :: byte) OR push_bit 8 (ucast (ucast (drop_bit 8 w) :: byte)) = (w :: ushort)"
proof (rule bit_word_eqI)
  fix n assume "n < LENGTH(16)"
  then consider "n < 8" | "8 \<le> n" "n < 16"
    by (simp, linarith)
  then show "bit (ucast (ucast w :: byte) OR push_bit 8 (ucast (ucast (drop_bit 8 w) :: byte)) :: ushort) n
      = bit w n"
    by cases (auto simp: bit_simps)
qed

lemma word32_of_bytes:
  "ucast (ucast w :: byte) OR push_bit 8 (ucast (ucast (drop_bit 8 w) :: byte)) OR
   push_bit 16 (ucast (ucast (drop_bit 16 w) :: byte)) OR
   push_bit 24 (ucast (ucast (drop_bit 24 w) :: byte)) = (w :: uint)"
proof (rule bit_word_eqI)
  fix n assume "n < LENGTH(32)"
  then consider "n < 8" | "8 \<le> n" "n < 16" | "16 \<le> n" "n < 24" | "24 \<le> n" "n < 32"
    by (simp, linarith)
  then show "bit (ucast (ucast w :: byte) OR push_bit 8 (ucast (ucast (drop_bit 8 w) :: byte)) OR
      push_bit 16 (ucast (ucast (drop_bit 16 w) :: byte)) OR
      push_bit 24 (ucast (ucast (drop_bit 24 w) :: byte)) :: uint) n = bit w n"
    by cases (auto simp: bit_simps)
qed

lemma get16_put16 [simp]: "k + 1 < length d \<Longrightarrow> get16 k (put16 k w d) = w"
  using word16_of_bytes [of w] by (simp add: get16_def put16_def nth_list_update)

lemma get32_put32 [simp]: "k + 3 < length d \<Longrightarrow> get32 k (put32 k w d) = w"
  using word32_of_bytes [of w] by (simp add: get32_def put32_def nth_list_update)

lemma nth_put16: "j < k \<or> k + 2 \<le> j \<Longrightarrow> put16 k w d ! j = d ! j"
  by (auto simp: put16_def)

lemma nth_put32: "j < k \<or> k + 4 \<le> j \<Longrightarrow> put32 k w d ! j = d ! j"
  by (auto simp: put32_def)

lemma get32_put32_other: "j + 4 \<le> k \<or> k + 4 \<le> j \<Longrightarrow> get32 j (put32 k w d) = get32 j d"
  by (auto simp: get32_def nth_put32)

lemma get16_put32_other: "j + 2 \<le> k \<or> k + 4 \<le> j \<Longrightarrow> get16 j (put32 k w d) = get16 j d"
  by (auto simp: get16_def nth_put32)

lemma get16_put16_other: "j + 2 \<le> k \<or> k + 2 \<le> j \<Longrightarrow> get16 j (put16 k w d) = get16 j d"
  by (auto simp: get16_def nth_put16)

lemma get32_put16_other: "j + 4 \<le> k \<or> k + 2 \<le> j \<Longrightarrow> get32 j (put16 k w d) = get32 j d"
  by (auto simp: get32_def nth_put16)

lemmas get_put_other = get32_put32_other get16_put32_other get16_put16_other get32_put16_other

end
