(* ===== verification/StringC.thy ===== *)
theory StringC
  imports Prelude
begin

text \<open>
  The memory and string routines of \<^verbatim>\<open>string.c\<close> (kernel) and \<^verbatim>\<open>ulib.c\<close> (user library).

  Memory is a total map from 32-bit addresses to bytes. A routine that only reads through a
  \<^verbatim>\<open>const char*\<close> takes the bytes behind the pointer as a function of the offset from it; a
  routine that writes a buffer of its caller takes the buffer as a list of bytes and returns it
  updated.
\<close>

type_synonym mem = "uint \<Rightarrow> byte"
type_synonym cptr = "nat \<Rightarrow> byte"

section \<open>Definitions\<close>

subsection \<open>memset, memmove, memcmp\<close>

text \<open>\<^verbatim>\<open>stosb\<close> and \<^verbatim>\<open>stosl\<close> of \<^verbatim>\<open>x86.h\<close>: \<open>rep stos\<close> of a byte, and of a little-endian 32-bit word.\<close>

fun stosb :: "uint \<Rightarrow> byte \<Rightarrow> nat \<Rightarrow> mem \<Rightarrow> mem" where
  "stosb a c 0 m = m"
| "stosb a c (Suc n) m = stosb (a + 1) c n (m(a := c))"

fun stosl :: "uint \<Rightarrow> uint \<Rightarrow> nat \<Rightarrow> mem \<Rightarrow> mem" where
  "stosl a w 0 m = m"
| "stosl a w (Suc n) m =
     stosl (a + 4) w n (m(a := ucast w, a + 1 := ucast (drop_bit 8 w),
                          a + 2 := ucast (drop_bit 16 w), a + 3 := ucast (drop_bit 24 w)))"

definition memset :: "uint \<Rightarrow> uint \<Rightarrow> uint \<Rightarrow> mem \<Rightarrow> mem" where
  "memset dst c n m =
     (if dst mod 4 = 0 \<and> n mod 4 = 0 then
        let c = c AND 0xFF
        in stosl dst (push_bit 24 c OR push_bit 16 c OR push_bit 8 c OR c) (unat (n div 4)) m
      else stosb dst (ucast c) (unat n) m)"

fun copy_up :: "nat \<Rightarrow> uint \<Rightarrow> uint \<Rightarrow> mem \<Rightarrow> mem" where
  "copy_up 0 d s m = m"
| "copy_up (Suc n) d s m = copy_up n (d + 1) (s + 1) (m(d := m s))"

fun copy_down :: "nat \<Rightarrow> uint \<Rightarrow> uint \<Rightarrow> mem \<Rightarrow> mem" where
  "copy_down 0 d s m = m"
| "copy_down (Suc n) d s m = copy_down n (d - 1) (s - 1) (m(d - 1 := m (s - 1)))"

definition memmove :: "uint \<Rightarrow> uint \<Rightarrow> uint \<Rightarrow> mem \<Rightarrow> mem" where
  "memmove dst src n m =
     (if src < dst \<and> src + n > dst
      then copy_down (unat n) (dst + n) (src + n) m
      else copy_up (unat n) dst src m)"

definition ulib_memmove :: "uint \<Rightarrow> uint \<Rightarrow> int \<Rightarrow> mem \<Rightarrow> mem" where
  "ulib_memmove vdst vsrc n m = copy_up (nat n) vdst vsrc m"

fun memcmp :: "cptr \<Rightarrow> cptr \<Rightarrow> nat \<Rightarrow> int" where
  "memcmp s1 s2 0 = 0"
| "memcmp s1 s2 (Suc n) =
     (if s1 0 \<noteq> s2 0 then uint (s1 0) - uint (s2 0)
      else memcmp (\<lambda>i. s1 (Suc i)) (\<lambda>i. s2 (Suc i)) n)"

subsection \<open>Strings\<close>

fun strncmp :: "cptr \<Rightarrow> cptr \<Rightarrow> nat \<Rightarrow> int" where
  "strncmp p q 0 = 0"
| "strncmp p q (Suc n) =
     (if p 0 \<noteq> 0 \<and> p 0 = q 0 then strncmp (\<lambda>i. p (Suc i)) (\<lambda>i. q (Suc i)) n
      else uint (p 0) - uint (q 0))"

text \<open>
  \<^verbatim>\<open>strncpy\<close> and \<^verbatim>\<open>safestrcpy\<close> write from index \<open>i\<close> of the buffer \<open>s\<close>; the source is read at the
  same index. The first loop of \<^verbatim>\<open>strncpy\<close> copies up to and including the terminator, the second
  pads with zeros.
\<close>

fun strncpy_pad :: "byte list \<Rightarrow> nat \<Rightarrow> nat \<Rightarrow> byte list" where
  "strncpy_pad s i 0 = s"
| "strncpy_pad s i (Suc n) = strncpy_pad (s[i := 0]) (Suc i) n"

fun strncpy_from :: "byte list \<Rightarrow> cptr \<Rightarrow> nat \<Rightarrow> nat \<Rightarrow> byte list" where
  "strncpy_from s t i 0 = s"
| "strncpy_from s t i (Suc n) =
     (if t i \<noteq> 0 then strncpy_from (s[i := t i]) t (Suc i) n
      else strncpy_pad (s[i := t i]) (Suc i) n)"

definition strncpy :: "byte list \<Rightarrow> cptr \<Rightarrow> int \<Rightarrow> byte list" where
  "strncpy s t n = strncpy_from s t 0 (nat n)"

text \<open>The loop \<^verbatim>\<open>while(--n > 0 && (*s++ = *t++) != 0);\<close> followed by \<^verbatim>\<open>*s = 0;\<close>. The argument counts
  the characters that may still be copied.\<close>

fun safestrcpy_from :: "byte list \<Rightarrow> cptr \<Rightarrow> nat \<Rightarrow> nat \<Rightarrow> byte list" where
  "safestrcpy_from s t i 0 = s[i := 0]"
| "safestrcpy_from s t i (Suc n) =
     (if t i \<noteq> 0 then safestrcpy_from (s[i := t i]) t (Suc i) n
      else (s[i := t i])[Suc i := 0])"

definition safestrcpy :: "byte list \<Rightarrow> cptr \<Rightarrow> int \<Rightarrow> byte list" where
  "safestrcpy s t n = (if n \<le> 0 then s else safestrcpy_from s t 0 (nat (n - 1)))"

text \<open>\<^verbatim>\<open>strlen\<close> and \<^verbatim>\<open>strcmp\<close> have no bound: without a terminator they do not return.\<close>

partial_function (option) strlen_from :: "cptr \<Rightarrow> nat \<Rightarrow> nat option" where
  "strlen_from s n = (if s n = 0 then Some n else strlen_from s (Suc n))"

definition strlen :: "cptr \<Rightarrow> nat option" where
  "strlen s = strlen_from s 0"

partial_function (option) strcmp_from :: "cptr \<Rightarrow> cptr \<Rightarrow> nat \<Rightarrow> int option" where
  "strcmp_from p q i =
     (if p i \<noteq> 0 \<and> p i = q i then strcmp_from p q (Suc i)
      else Some (uint (p i) - uint (q i)))"

definition strcmp :: "cptr \<Rightarrow> cptr \<Rightarrow> int option" where
  "strcmp p q = strcmp_from p q 0"

text \<open>\<^verbatim>\<open>atoi\<close> of \<^verbatim>\<open>ulib.c\<close>: 32-bit arithmetic, which wraps.\<close>

partial_function (option) atoi_from :: "cptr \<Rightarrow> nat \<Rightarrow> uint \<Rightarrow> uint option" where
  "atoi_from s i n =
     (if 48 \<le> s i \<and> s i \<le> 57 then atoi_from s (Suc i) (n * 10 + ucast (s i) - 48) else Some n)"

definition atoi :: "cptr \<Rightarrow> uint option" where
  "atoi s = atoi_from s 0 0"

text \<open>A C string object: the bytes of \<open>xs\<close> (none zero) and then the terminator.\<close>

definition cstr :: "cptr \<Rightarrow> byte list \<Rightarrow> bool" where
  "cstr p xs \<longleftrightarrow> (\<forall>i < length xs. p i = xs ! i) \<and> p (length xs) = 0 \<and> 0 \<notin> set xs"

definition lptr :: "byte list \<Rightarrow> cptr" where
  "lptr xs i = (if i < length xs then xs ! i else 0)"

section \<open>Properties\<close>

subsection \<open>Copying and filling\<close>

lemma unat_pred: "x \<noteq> 0 \<Longrightarrow> unat (x - 1) = unat (x :: uint) - 1"
  by (simp add: unat_minus_one)

lemma copy_up_eq:
  assumes "n < 2 ^ 32" and "d = s \<or> n \<le> unat (d - s)"
  shows "copy_up n d s m = (\<lambda>a. if unat (a - d) < n then m (s + (a - d)) else m a)"
  using assms
proof (induction n arbitrary: d s m)
  case 0
  then show ?case by simp
next
  case (Suc n)
  have ih: "copy_up n (d + 1) (s + 1) (m(d := m s)) =
      (\<lambda>a. if unat (a - (d + 1)) < n then (m(d := m s)) (s + 1 + (a - (d + 1))) else (m(d := m s)) a)"
    using Suc.prems by (intro Suc.IH) (auto simp: algebra_simps)
  show ?case
  proof (rule ext)
    fix a
    show "copy_up (Suc n) d s m a = (if unat (a - d) < Suc n then m (s + (a - d)) else m a)"
    proof (cases "a = d")
      case True
      have "unat (d - (d + 1)) = 2 ^ 32 - 1"
        by (simp add: unat_uint_minus_1)
      with True Suc.prems show ?thesis
        by (simp only: copy_up.simps ih) simp
    next
      case False
      then have nz: "a - d \<noteq> 0" by simp
      have e: "unat (a - (d + 1)) = unat (a - d) - 1" and p: "unat (a - d) > 0"
        using unat_pred [OF nz] nz by (simp_all add: algebra_simps unat_gt_0)
      have idx: "s + 1 + (a - (d + 1)) = s + (a - d)" by simp
      have ne: "s + (a - d) = d \<longleftrightarrow> a - d = d - s"
        by (metis add.commute add_diff_cancel_right' diff_add_cancel)
      show ?thesis
        using Suc.prems False p
        by (simp only: copy_up.simps ih e idx) (auto simp: ne fun_upd_apply)
    qed
  qed
qed

lemma copy_down_eq:
  assumes "n < 2 ^ 32" and "d = s \<or> n \<le> unat (s - d)"
  shows "copy_down n (d + of_nat n) (s + of_nat n) m =
           (\<lambda>a. if unat (a - d) < n then m (s + (a - d)) else m a)"
  using assms
proof (induction n arbitrary: m)
  case 0
  then show ?case by simp
next
  case (Suc n)
  let ?m = "m(d + of_nat n := m (s + of_nat n))"
  have ih: "copy_down n (d + of_nat n) (s + of_nat n) ?m =
      (\<lambda>a. if unat (a - d) < n then ?m (s + (a - d)) else ?m a)"
    using Suc.prems by (intro Suc.IH) auto
  have step: "copy_down (Suc n) (d + of_nat (Suc n)) (s + of_nat (Suc n)) m
      = copy_down n (d + of_nat n) (s + of_nat n) ?m"
    by simp
  have un: "unat (of_nat n :: uint) = n"
    using Suc.prems by (intro unat_of_nat_uint) simp
  show ?case
  proof (rule ext)
    fix a
    have eqn: "a = d + of_nat n \<longleftrightarrow> unat (a - d) = n"
      by (metis un add.commute diff_add_cancel add_diff_cancel_left' word_unat_eq_iff)
    have "s + (a - d) = d + of_nat n \<Longrightarrow> unat (a - d) < n \<Longrightarrow> d = s"
    proof (rule ccontr)
      assume eq: "s + (a - d) = d + of_nat n" and lt: "unat (a - d) < n" and "d \<noteq> s"
      with Suc.prems have le: "Suc n \<le> unat (s - d)" by simp
      have "s - d = of_nat n - (a - d)" using eq by (simp add: algebra_simps)
      moreover have "unat (of_nat n - (a - d)) = n - unat (a - d)"
        using unat_sub [of "a - d" "of_nat n"] lt un by (simp add: word_le_nat_alt)
      ultimately have "unat (s - d) = n - unat (a - d)" by metis
      with le show False by simp
    qed
    then show "copy_down (Suc n) (d + of_nat (Suc n)) (s + of_nat (Suc n)) m a =
        (if unat (a - d) < Suc n then m (s + (a - d)) else m a)"
      unfolding step ih by (auto simp: eqn less_Suc_eq)
  qed
qed

text \<open>C25. Whatever the overlap of source and destination, \<^verbatim>\<open>memmove\<close> leaves in the destination the
  bytes the source held before the call, and changes no other byte. Both regions must end below
  the top of the address space.\<close>

theorem memmove_correct:
  assumes "unat src + unat n < 2 ^ 32" and "unat dst + unat n < 2 ^ 32"
  shows "memmove dst src n m = (\<lambda>a. if unat (a - dst) < unat n then m (src + (a - dst)) else m a)"
proof (cases "src < dst \<and> src + n > dst")
  case True
  have "unat (src - dst) = unat src + 2 ^ 32 - unat dst"
    using True by (simp add: unat_sub_if' word_less_nat_alt)
  with assms(2) have "dst = src \<or> unat n \<le> unat (src - dst)"
    by linarith
  from copy_down_eq [OF unat_uint_less this, of m] True show ?thesis
    by (simp add: memmove_def)
next
  case False
  have "unat (src + n) = unat src + unat n"
    using assms(1) by (rule unat_add_small)
  with False assms have "dst = src \<or> unat n \<le> unat (dst - src)"
    by (auto simp add: unat_sub_if' word_less_nat_alt word_unat_eq_iff)
  from copy_up_eq [OF unat_uint_less this, of m] False show ?thesis
    unfolding memmove_def by argo
qed

theorem memmove_correct_witness:
  "memmove 0x1002 0x1000 4 ucast 0x1005 = (0x03 :: byte) \<and> memmove 0x1002 0x1000 4 ucast 0x1006 = (0x06 :: byte)"
  by (subst memmove_correct; simp)+

lemma stosb_eq:
  "n < 2 ^ 32 \<Longrightarrow> stosb a c n m = (\<lambda>x. if unat (x - a) < n then c else m x)"
proof (induction n arbitrary: a m)
  case 0
  then show ?case by simp
next
  case (Suc n)
  have ih: "stosb (a + 1) c n (m(a := c)) = (\<lambda>x. if unat (x - (a + 1)) < n then c else (m(a := c)) x)"
    using Suc.prems by (intro Suc.IH) simp
  have "(if unat (x - (a + 1)) < n then c else (m(a := c)) x) = (if unat (x - a) < Suc n then c else m x)" for x
  proof (cases "x = a")
    case False
    then have nz: "x - a \<noteq> 0" by simp
    have "unat (x - (a + 1)) = unat (x - a) - 1" "unat (x - a) > 0"
      using unat_pred [OF nz] nz by (simp_all add: algebra_simps unat_gt_0)
    with False show ?thesis by auto
  qed simp
  then show ?case by (simp add: ih)
qed

subsection \<open>Strings\<close>

lemma lptr_cstr: "0 \<notin> set xs \<Longrightarrow> cstr (lptr xs) xs"
  by (simp add: cstr_def lptr_def)

lemma strncmp_zero_iff:
  "strncmp p q n = 0 \<longleftrightarrow>
     (\<forall>i < n. (\<forall>j < i. p j \<noteq> 0) \<longrightarrow> p i = q i)"
proof (induction n arbitrary: p q)
  case 0
  then show ?case by simp
next
  case (Suc n)
  have split: "(\<forall>i < Suc n. (\<forall>j < i. p j \<noteq> 0) \<longrightarrow> p i = q i) \<longleftrightarrow>
      p 0 = q 0 \<and> (p 0 \<noteq> 0 \<longrightarrow> (\<forall>i < n. (\<forall>j < i. p (Suc j) \<noteq> 0) \<longrightarrow> p (Suc i) = q (Suc i)))"
    by (auto simp: All_less_Suc2)
  show ?case
    using Suc.IH [of "\<lambda>i. p (Suc i)" "\<lambda>i. q (Suc i)"]
    by (simp only: split) (auto simp: word_uint_eq_iff)
qed

lemma strncpy_pad_eq:
  "i + n \<le> length s \<Longrightarrow> strncpy_pad s i n = take i s @ replicate n 0 @ drop (i + n) s"
proof (induction n arbitrary: s i)
  case (Suc n)
  then have "strncpy_pad (s[i := 0]) (Suc i) n
      = take (Suc i) (s[i := 0]) @ replicate n 0 @ drop (Suc i + n) (s[i := 0])"
    by (intro Suc.IH) simp
  with Suc.prems show ?case
    by (simp add: take_Suc_conv_app_nth take_update_cancel)
qed simp

lemma strncpy_from_nth:
  "i + n \<le> length s \<Longrightarrow> k < length s \<Longrightarrow>
   strncpy_from s t i n ! k =
     (if i \<le> k \<and> k < i + n then (if \<forall>j. i \<le> j \<and> j < k \<longrightarrow> t j \<noteq> 0 then t k else 0) else s ! k)"
proof (induction n arbitrary: s i)
  case (Suc n)
  show ?case
  proof (cases "t i = 0")
    case True
    then have "(\<forall>j. i \<le> j \<and> j < k \<longrightarrow> t j \<noteq> 0) \<longleftrightarrow> k \<le> i"
      by (auto simp: not_le)
    with True Suc.prems show ?thesis
      by (cases "k = i") (auto simp: strncpy_pad_eq nth_append nth_list_update min_def)
  next
    case False
    with Suc.prems show ?thesis
      by (auto simp: Suc.IH nth_list_update Suc_le_eq dest: le_neq_implies_less)
  qed
qed auto

lemma strncpy_from_length [simp]: "length (strncpy_from s t i n) = length s"
proof (induction n arbitrary: s i)
  case (Suc n)
  have "length (strncpy_pad s i n) = length s" for s i
    by (induction n arbitrary: s i) auto
  with Suc show ?case by simp
qed simp

lemma safestrcpy_from_length [simp]: "length (safestrcpy_from s t i n) = length s"
  by (induction n arbitrary: s i) auto

lemma safestrcpy_from_spec:
  "i + n < length s \<Longrightarrow>
   \<exists>k \<le> i + n. i \<le> k \<and> safestrcpy_from s t i n ! k = 0 \<and>
     (\<forall>j. i \<le> j \<and> j < k \<longrightarrow> t j \<noteq> 0 \<and> safestrcpy_from s t i n ! j = t j) \<and>
     (\<forall>j. j < i \<longrightarrow> safestrcpy_from s t i n ! j = s ! j) \<and>
     (k < i + n \<longrightarrow> t k = 0)"
proof (induction n arbitrary: s i)
  case 0
  then show ?case by (intro exI [of _ i]) (simp add: nth_list_update)
next
  case (Suc n)
  show ?case
  proof (cases "t i = 0")
    case True
    with Suc.prems show ?thesis
      by (intro exI [of _ i]) (auto simp: nth_list_update)
  next
    case False
    from Suc.IH [of "Suc i" "s[i := t i]"] Suc.prems obtain k where
      k: "k \<le> i + Suc n" "Suc i \<le> k" "safestrcpy_from (s[i := t i]) t (Suc i) n ! k = 0"
      "\<And>j. Suc i \<le> j \<and> j < k \<Longrightarrow> t j \<noteq> 0 \<and> safestrcpy_from (s[i := t i]) t (Suc i) n ! j = t j"
      "\<And>j. j < Suc i \<Longrightarrow> safestrcpy_from (s[i := t i]) t (Suc i) n ! j = s[i := t i] ! j"
      "k < i + Suc n \<longrightarrow> t k = 0"
      by auto
    have "t j \<noteq> 0 \<and> safestrcpy_from (s[i := t i]) t (Suc i) n ! j = t j" if "i \<le> j" "j < k" for j
      using k(4) [of j] k(5) [of j] that False Suc.prems by (cases "j = i") auto
    with k False Suc.prems show ?thesis
      by (intro exI [of _ k]) (auto simp: nth_list_update)
  qed
qed



lemma strlen_from_cstr: "cstr p xs \<Longrightarrow> i \<le> length xs \<Longrightarrow> strlen_from p i = Some (length xs)"
proof (induction "length xs - i" arbitrary: i)
  case 0
  then show ?case by (subst strlen_from.simps) (simp add: cstr_def)
next
  case (Suc d)
  then have "p i \<noteq> 0" by (auto simp: cstr_def) (metis Suc.hyps(2) nth_mem zero_less_Suc zero_less_diff)
  with Suc show ?case by (subst strlen_from.simps) simp
qed

lemma strlen_cstr: "cstr p xs \<Longrightarrow> strlen p = Some (length xs)"
  by (simp add: strlen_def strlen_from_cstr)

end
