(* ===== verification/Memory.thy ===== *)
theory Memory
  imports StringC
begin

text \<open>
  Physical memory as the kernel sees it, at the addresses the kernel uses (\<^verbatim>\<open>KERNBASE\<close> plus the
  physical address, \<^verbatim>\<open>memlayout.h\<close>): 32-bit loads and stores in terms of bytes, page arithmetic
  of \<^verbatim>\<open>mmu.h\<close>, and the lemmas that let later theories treat words and pages as units.
\<close>

section \<open>Definitions\<close>

definition KERNBASE :: uint where "KERNBASE = 0x80000000"
definition EXTMEM :: uint where "EXTMEM = 0x100000"
definition PHYSTOP :: uint where "PHYSTOP = 0xE000000"
definition DEVSPACE :: uint where "DEVSPACE = 0xFE000000"
definition PGSIZE :: uint where "PGSIZE = 4096"

definition v2p :: "uint \<Rightarrow> uint" where "v2p a = a - KERNBASE"
definition p2v :: "uint \<Rightarrow> uint" where "p2v a = a + KERNBASE"

definition PGROUNDUP :: "uint \<Rightarrow> uint" where
  "PGROUNDUP sz = (sz + PGSIZE - 1) AND NOT (PGSIZE - 1)"
definition PGROUNDDOWN :: "uint \<Rightarrow> uint" where
  "PGROUNDDOWN a = a AND NOT (PGSIZE - 1)"

definition load32 :: "mem \<Rightarrow> uint \<Rightarrow> uint" where
  "load32 m a = ucast (m a) OR push_bit 8 (ucast (m (a + 1))) OR
     push_bit 16 (ucast (m (a + 2))) OR push_bit 24 (ucast (m (a + 3)))"

definition store32 :: "mem \<Rightarrow> uint \<Rightarrow> uint \<Rightarrow> mem" where
  "store32 m a w = m(a := ucast w, a + 1 := ucast (drop_bit 8 w),
     a + 2 := ucast (drop_bit 16 w), a + 3 := ucast (drop_bit 24 w))"

section \<open>Alignment\<close>

definition aligned4 :: "uint \<Rightarrow> bool" where "aligned4 a \<longleftrightarrow> a AND 3 = 0"
definition page_aligned :: "uint \<Rightarrow> bool" where "page_aligned a \<longleftrightarrow> a AND 0xFFF = 0"

lemma p2v_v2p [simp]: "p2v (v2p a) = a" and v2p_p2v [simp]: "v2p (p2v a) = a"
  by (simp_all add: p2v_def v2p_def)

lemma page_aligned_0 [simp]: "page_aligned 0"
  by (simp add: page_aligned_def)

lemma mod_4096_and: "(a :: uint) mod 4096 = a AND 0xFFF"
  using take_bit_eq_mod [of 12 a] take_bit_eq_mask [of 12 a] by (simp add: mask_eq_exp_minus_1)

lemma aligned4_take_bit: "aligned4 a \<longleftrightarrow> take_bit 2 a = 0"
  by (simp add: aligned4_def take_bit_eq_mask mask_eq_exp_minus_1)

lemma page_aligned_take_bit: "page_aligned a \<longleftrightarrow> take_bit 12 a = 0"
  by (simp add: page_aligned_def take_bit_eq_mask mask_eq_exp_minus_1)

lemma aligned4_unat: "aligned4 a \<longleftrightarrow> 4 dvd unat a"
proof -
  have "unat (take_bit 2 a) = unat a mod 4"
    by (simp only: unsigned_take_bit_eq) (simp add: take_bit_eq_mod)
  then show ?thesis
    by (metis aligned4_take_bit dvd_eq_mod_eq_0 unat_eq_zero)
qed

lemma page_aligned_unat: "page_aligned a \<longleftrightarrow> 4096 dvd unat a"
proof -
  have "unat (take_bit 12 a) = unat a mod 4096"
    by (simp only: unsigned_take_bit_eq) (simp add: take_bit_eq_mod)
  then show ?thesis
    by (metis page_aligned_take_bit dvd_eq_mod_eq_0 unat_eq_zero)
qed

lemma page_aligned_4: "page_aligned a \<Longrightarrow> aligned4 a"
  by (auto simp: aligned4_unat page_aligned_unat elim: dvd_trans [rotated])

lemma unat_add_mod: "unat (a + b :: uint) = (unat a + unat b) mod 2 ^ 32"
  by (simp add: unat_word_ariths)

lemma aligned4_add: "aligned4 a \<Longrightarrow> aligned4 b \<Longrightarrow> aligned4 (a + b)"
  by (simp add: aligned4_unat unat_add_mod dvd_mod)

lemma page_aligned_add: "page_aligned a \<Longrightarrow> page_aligned b \<Longrightarrow> page_aligned (a + b)"
  by (simp add: page_aligned_unat unat_add_mod dvd_mod)

lemma aligned4_mult4: "aligned4 (4 * k)"
  by (simp add: aligned4_unat unat_word_ariths dvd_mod)

lemma aligned4_offsets_differ:
  assumes "aligned4 a" and "aligned4 b" and "a + i = b + j" and "i < 4" and "j < 4"
  shows "a = b"
proof -
  have off: "unat (c + k) mod 4 = unat k" if "aligned4 c" "k < 4" for c k :: uint
  proof -
    have "unat k < 4" using that(2) by (simp add: word_less_nat_alt)
    moreover have "(unat c + unat k) mod 2 ^ 32 mod 4 = (unat c + unat k) mod 4"
      by (rule mod_mod_cancel) simp
    ultimately show ?thesis
      using that(1) by (auto simp: aligned4_unat unat_add_mod elim!: dvdE)
  qed
  from off [OF assms(1,4)] off [OF assms(2,5)] assms(3) have "i = j"
    by (simp add: word_unat_eq_iff)
  with assms(3) show ?thesis by simp
qed

lemma load_store_same [simp]: "load32 (store32 m a w) a = w"
  using word32_of_bytes [of w] by (simp add: load32_def store32_def)

lemma load_store_other:
  assumes "aligned4 a" and "aligned4 b" and "a \<noteq> b"
  shows "load32 (store32 m a w) b = load32 m b"
proof -
  have ne: "b + j \<noteq> a + i" if "i < 4" "j < 4" for i j
    using aligned4_offsets_differ [OF assms(1,2) _ that] assms(3) by auto
  have "store32 m a w (b + j) = m (b + j)" if "j < 4" for j
    using ne [of 0 j] ne [of 1 j] ne [of 2 j] ne [of 3 j] that by (simp add: store32_def)
  from this [of 0] this [of 1] this [of 2] this [of 3] show ?thesis
    by (simp add: load32_def)
qed

end
