(* ===== verification/Kalloc.thy ===== *)
theory Kalloc
  imports Memory
begin

text \<open>
  The physical page allocator of \<^verbatim>\<open>kalloc.c\<close>. The free list is threaded through the free pages
  themselves, so the state is the memory, the head of the list, the linker's symbols
  \<^verbatim>\<open>end\<close> and \<^verbatim>\<open>data\<close>, and the kernel's page directory \<^verbatim>\<open>kpgdir\<close> of \<^verbatim>\<open>vm.c\<close>. The record
  \<open>kmem\<close> is the base of the kernel state. \<^verbatim>\<open>kmem.lock\<close> and \<^verbatim>\<open>kmem.use_lock\<close> make each call a
  single step and are not part of the state. The locale \<open>page_allocator\<close> is what the clients
  (page tables, kernel stacks, pipes) rely on.
\<close>

section \<open>State and operations\<close>

record kmem =
  pmem :: mem
  freelist :: uint
  kend :: uint
  kdata :: uint
  kpgdir :: uint

definition kfree :: "uint \<Rightarrow> 'a kmem_scheme \<Rightarrow> (unit, 'a kmem_scheme) outcome" where
  "kfree v s =
     (if v mod PGSIZE \<noteq> 0 \<or> v < kend s \<or> v2p v \<ge> PHYSTOP then Panic ''kfree''
      else Ok () (s\<lparr>pmem := store32 (memset v 1 PGSIZE (pmem s)) v (freelist s), freelist := v\<rparr>))"

definition kalloc :: "'a kmem_scheme \<Rightarrow> (uint, 'a kmem_scheme) outcome" where
  "kalloc s =
     (let r = freelist s in
      if r \<noteq> 0 then Ok r (s\<lparr>freelist := load32 (pmem s) r\<rparr>) else Ok r s)"

lemma kfree_range: "kfree v s = Ok u t \<Longrightarrow> unat v - unat KERNBASE < unat PHYSTOP \<and> KERNBASE \<le> v"
proof -
  assume "kfree v s = Ok u t"
  then have p: "v2p v < PHYSTOP" by (auto simp: kfree_def split: if_splits)
  have "KERNBASE \<le> v"
  proof (rule ccontr)
    assume "\<not> KERNBASE \<le> v"
    then have "unat v < 2 ^ 31" by (simp add: KERNBASE_def word_less_nat_alt not_le)
    then have "unat (v2p v) \<ge> 2 ^ 31" by (simp add: v2p_def KERNBASE_def unat_sub_if' word_le_nat_alt)
    with p show False by (simp add: PHYSTOP_def word_less_nat_alt)
  qed
  moreover have "unat (v2p v) = unat v - unat KERNBASE"
    using calculation by (simp add: v2p_def unat_sub_if' word_le_nat_alt)
  ultimately show ?thesis using p by (simp add: word_less_nat_alt)
qed

text \<open>The loop of \<^verbatim>\<open>freerange\<close>; it ends because \<^verbatim>\<open>kfree\<close> accepts only addresses below \<^verbatim>\<open>PHYSTOP\<close>.\<close>

function freerange_from :: "uint \<Rightarrow> uint \<Rightarrow> 'a kmem_scheme \<Rightarrow> (unit, 'a kmem_scheme) outcome" where
  "freerange_from p vend s =
     (if p + PGSIZE \<le> vend
      then call (kfree p s) (\<lambda>_ s. freerange_from (p + PGSIZE) vend s)
      else Ok () s)"
  by pat_completeness auto
termination
proof (relation "measure (\<lambda>(p, vend, s). 2 ^ 32 - unat p)")
  show "((p + PGSIZE, vend, t), p, vend, s) \<in> measure (\<lambda>(p, vend, s). 2 ^ 32 - unat p)"
    if "p + PGSIZE \<le> vend" "kfree p s = Ok u t" for p vend u and s t :: "'a kmem_scheme"
  proof -
    have "unat p < 2 ^ 31 + 0xE000000" using kfree_range [OF that(2)] by (auto simp: KERNBASE_def PHYSTOP_def word_le_nat_alt)
    then have "unat (p + PGSIZE) = unat p + 4096" by (subst unat_add_small) (simp_all add: PGSIZE_def)
    with \<open>unat p < 2 ^ 31 + 0xE000000\<close> show ?thesis by simp
  qed
qed simp

declare freerange_from.simps [simp del]

definition freerange :: "uint \<Rightarrow> uint \<Rightarrow> 'a kmem_scheme \<Rightarrow> (unit, 'a kmem_scheme) outcome" where
  "freerange vstart vend s = freerange_from (PGROUNDUP vstart) vend s"

definition kinit1 :: "uint \<Rightarrow> uint \<Rightarrow> 'a kmem_scheme \<Rightarrow> (unit, 'a kmem_scheme) outcome" where
  "kinit1 vstart vend s = freerange vstart vend s"

definition kinit2 :: "uint \<Rightarrow> uint \<Rightarrow> 'a kmem_scheme \<Rightarrow> (unit, 'a kmem_scheme) outcome" where
  "kinit2 vstart vend s = freerange vstart vend s"

section \<open>The free list\<close>

text \<open>The pages linked from \<open>p\<close>, and the invariant: a duplicate-free list of legal pages.\<close>

fun flist :: "mem \<Rightarrow> uint \<Rightarrow> uint list \<Rightarrow> bool" where
  "flist m p [] \<longleftrightarrow> p = 0"
| "flist m p (x # xs) \<longleftrightarrow> p = x \<and> p \<noteq> 0 \<and> flist m (load32 m p) xs"

definition page_ok :: "'a kmem_scheme \<Rightarrow> uint \<Rightarrow> bool" where
  "page_ok s v \<longleftrightarrow> v mod PGSIZE = 0 \<and> \<not> v < kend s \<and> \<not> v2p v \<ge> PHYSTOP"

definition pool :: "'a kmem_scheme \<Rightarrow> uint list \<Rightarrow> bool" where
  "pool s xs \<longleftrightarrow> flist (pmem s) (freelist s) xs \<and> distinct xs \<and> (\<forall>x \<in> set xs. page_ok s x)"

lemma page_ok_aligned: "page_ok s v \<Longrightarrow> page_aligned v"
  by (simp add: page_ok_def PGSIZE_def mod_4096_and page_aligned_def)

lemma page_ok_nonzero: "page_ok s v \<Longrightarrow> v \<noteq> 0"
  by (auto simp: page_ok_def v2p_def KERNBASE_def PHYSTOP_def)

lemma page_ok_upd [simp]:
  "page_ok (s\<lparr>pmem := m\<rparr>) = page_ok s" "page_ok (s\<lparr>freelist := p\<rparr>) = page_ok s"
  by (simp_all add: page_ok_def fun_eq_iff)

text \<open>Filling a page touches only that page.\<close>

lemma stosl_other:
  assumes "unat a + 4 * n \<le> 2 ^ 32" and "unat x < unat a \<or> unat a + 4 * n \<le> unat x"
  shows "stosl a w n m x = m x"
  using assms
proof (induction n arbitrary: a m)
  case (Suc n)
  have a4: "unat a + 4 \<le> 2 ^ 32" using Suc.prems(1) by simp
  have off: "x \<noteq> a + k" if "unat k < 4" for k
  proof -
    have "unat (a + k) = unat a + unat k" using a4 that by (intro unat_add_small) linarith
    with Suc.prems(2) that show ?thesis by auto
  qed
  have ne: "x \<noteq> a" "x \<noteq> a + 1" "x \<noteq> a + 2" "x \<noteq> a + 3"
    using off [of 0] off [of 1] off [of 2] off [of 3] by simp_all
  show ?case
  proof (cases "n = 0")
    case True
    with ne show ?thesis by simp
  next
    case False
    with Suc.prems(1) have "unat (a + 4) = unat a + 4" by (subst unat_add_small) simp_all
    then have "stosl (a + 4) w n (m(a := ucast w, a + 1 := ucast (drop_bit 8 w), a + 2 := ucast (drop_bit 16 w), a + 3 := ucast (drop_bit 24 w))) x
      = (m(a := ucast w, a + 1 := ucast (drop_bit 8 w), a + 2 := ucast (drop_bit 16 w), a + 3 := ucast (drop_bit 24 w))) x"
      using Suc.prems by (intro Suc.IH) auto
    with ne show ?thesis by simp
  qed
qed simp

lemma page_end: "page_aligned v \<Longrightarrow> unat v + 4096 \<le> 2 ^ 32"
proof -
  assume "page_aligned v"
  then obtain k where k: "unat v = 4096 * k" by (auto simp: page_aligned_unat elim: dvdE)
  moreover have "unat v < 2 ^ 32" by (rule unat_uint_less)
  ultimately have "k < 2 ^ 20" by simp
  with k show ?thesis by simp
qed

lemma memset_page_other:
  assumes "page_aligned v" and "unat x < unat v \<or> unat v + 4096 \<le> unat x"
  shows "memset v c PGSIZE m x = m x"
proof -
  have "v mod 4 = 0"
    using assms(1) page_aligned_4 [of v] by (simp add: aligned4_unat word_unat_eq_iff unat_mod dvd_eq_mod_eq_0)
  then show ?thesis
    using assms page_end [OF assms(1)] by (simp add: memset_def Let_def PGSIZE_def stosl_other)
qed

lemma other_page:
  assumes "page_aligned v" and "page_aligned x" and "x \<noteq> v" and "unat k < 4096"
  shows "unat (x + k) < unat v \<or> unat v + 4096 \<le> unat (x + k)"
proof -
  obtain a b where ab: "unat v = 4096 * a" "unat x = 4096 * b" using assms by (auto simp: page_aligned_unat elim!: dvdE)
  have "unat (x + k) = unat x + unat k" using page_end [OF assms(2)] assms(4) by (intro unat_add_small) linarith
  moreover have "a \<noteq> b" using ab assms(3) by (auto simp: word_unat_eq_iff)
  ultimately show ?thesis using ab assms(4) by (cases "a < b") auto
qed

definition in_page :: "uint \<Rightarrow> uint \<Rightarrow> bool" where
  "in_page v a \<longleftrightarrow> unat v \<le> unat a \<and> unat a < unat v + 4096"

lemma kfree_mem_other:
  assumes "page_aligned v" and "\<not> in_page v a"
  shows "store32 (memset v 1 PGSIZE m) v w a = m a"
proof -
  have "unat (v + k) = unat v + unat k" if "unat k < 4" for k
    using page_end [OF assms(1)] that by (intro unat_add_small) linarith
  then have "a \<noteq> v + k" if "unat k < 4" for k using assms(2) that by (auto simp: in_page_def)
  from this [of 0] this [of 1] this [of 2] this [of 3] show ?thesis
    using memset_page_other [OF assms(1), of a] assms(2) by (auto simp: store32_def in_page_def not_le not_less)
qed

lemma kfree_load_other:
  assumes "page_aligned v" and "page_aligned x" and "x \<noteq> v"
  shows "load32 (store32 (memset v 1 PGSIZE m) v w) x = load32 m x"
proof -
  have "\<not> in_page v (x + k)" if "unat k < 4" for k
    using other_page [OF assms, of k] that by (auto simp: in_page_def)
  then have "store32 (memset v 1 PGSIZE m) v w (x + k) = m (x + k)" if "unat k < 4" for k
    using kfree_mem_other [OF assms(1)] that by blast
  from this [of 0] this [of 1] this [of 2] this [of 3] show ?thesis by (simp add: load32_def)
qed

lemma flist_cong:
  "(\<And>x. x \<in> set xs \<Longrightarrow> load32 m x = load32 m' x) \<Longrightarrow> flist m p xs = flist m' p xs"
  by (induction xs arbitrary: p) auto

lemma kfree_pool:
  assumes "pool s xs" and "page_ok s v" and "v \<notin> set xs"
  shows "\<exists>t. kfree v s = Ok () t \<and> pool t (v # xs) \<and> kend t = kend s \<and> kmem.more t = kmem.more s \<and>
    (\<forall>a. \<not> in_page v a \<longrightarrow> pmem t a = pmem s a)"
proof -
  let ?m = "store32 (memset v 1 PGSIZE (pmem s)) v (freelist s)"
  note al = page_ok_aligned [OF assms(2)]
  have "flist ?m (freelist s) xs = flist (pmem s) (freelist s) xs"
    by (rule flist_cong) (use assms al in \<open>auto simp: pool_def intro!: kfree_load_other dest: page_ok_aligned\<close>)
  with assms have "pool (s\<lparr>pmem := ?m, freelist := v\<rparr>) (v # xs)"
    by (auto simp: pool_def dest: page_ok_nonzero)
  then show ?thesis
    using assms(2) kfree_mem_other [OF al] by (auto simp: kfree_def page_ok_def)
qed

lemma kalloc_pool:
  "pool s (x # xs) \<Longrightarrow> \<exists>t. kalloc s = Ok x t \<and> pool t xs \<and> pmem t = pmem s \<and> kend t = kend s \<and> kmem.more t = kmem.more s"
  "pool s [] \<Longrightarrow> kalloc s = Ok 0 s"
  by (auto simp: kalloc_def Let_def pool_def)

section \<open>The interface\<close>

text \<open>
  What a client of the allocator may rely on: \<open>pool s xs\<close> says that exactly the pages \<open>xs\<close> are free.
\<close>

locale page_allocator =
  fixes free :: "'s \<Rightarrow> uint list \<Rightarrow> bool" and legal :: "'s \<Rightarrow> uint \<Rightarrow> bool"
    and alloc :: "'s \<Rightarrow> (uint, 's) outcome" and release :: "uint \<Rightarrow> 's \<Rightarrow> (unit, 's) outcome"
  assumes free_distinct: "free s xs \<Longrightarrow> distinct xs"
    and free_legal: "free s xs \<Longrightarrow> x \<in> set xs \<Longrightarrow> legal s x \<and> x \<noteq> 0"
    and alloc_some: "free s (x # xs) \<Longrightarrow> \<exists>t. alloc s = Ok x t \<and> free t xs \<and> legal t = legal s"
    and alloc_none: "free s [] \<Longrightarrow> alloc s = Ok 0 s"
    and release_ok: "free s xs \<Longrightarrow> legal s x \<Longrightarrow> x \<notin> set xs \<Longrightarrow>
          \<exists>t. release x s = Ok () t \<and> free t (x # xs) \<and> legal t = legal s"
begin

lemma alloc_returns: "free s xs \<Longrightarrow> \<exists>x t. alloc s = Ok x t \<and> free t (tl xs) \<and> legal t = legal s \<and> (x = 0 \<longleftrightarrow> xs = [])"
  using alloc_none alloc_some free_legal by (cases xs) fastforce+

lemma alloc_twice:
  assumes "free s xs" and "alloc s = Ok x t" and "alloc t = Ok y u" and "y \<noteq> 0"
  shows "x \<noteq> 0 \<and> x \<noteq> y \<and> legal u y"
proof (cases xs)
  case Nil
  with assms alloc_none [of s] show ?thesis by auto
next
  case (Cons a as)
  with alloc_some [of s a as] assms(1,2) have t: "x = a" "free t as" "legal t = legal s" by auto
  show ?thesis
  proof (cases as)
    case Nil
    with t alloc_none [of t] assms(3,4) show ?thesis by auto
  next
    case (Cons b bs)
    with t alloc_some [of t b bs] assms(3) have u: "y = b" "legal u = legal t" by auto
    have "a \<noteq> 0" using free_legal [OF assms(1)] \<open>xs = a # as\<close> by simp
    moreover have "a \<noteq> b" using free_distinct [OF assms(1)] \<open>xs = a # as\<close> Cons by auto
    moreover have "legal t b" using free_legal [OF t(2)] Cons by simp
    ultimately show ?thesis using t u by simp
  qed
qed

lemma release_alloc:
  assumes "free s xs" and "legal s x" and "x \<notin> set xs"
  shows "\<exists>t u. release x s = Ok () t \<and> alloc t = Ok x u \<and> free u xs"
  using release_ok [OF assms] alloc_some by blast

end

interpretation kpages: page_allocator pool page_ok kalloc kfree
proof unfold_locales
  fix s :: "'a kmem_scheme" and x xs
  show "pool s xs \<Longrightarrow> distinct xs" by (simp add: pool_def)
  show "pool s xs \<Longrightarrow> x \<in> set xs \<Longrightarrow> page_ok s x \<and> x \<noteq> 0" using page_ok_nonzero by (auto simp: pool_def)
  show "pool s (x # xs) \<Longrightarrow> \<exists>t. kalloc s = Ok x t \<and> pool t xs \<and> page_ok t = page_ok s"
    using kalloc_pool(1) [of s x xs] by (auto simp: page_ok_def fun_eq_iff)
  show "pool s [] \<Longrightarrow> kalloc s = Ok 0 s" by (rule kalloc_pool)
  show "pool s xs \<Longrightarrow> page_ok s x \<Longrightarrow> x \<notin> set xs \<Longrightarrow> \<exists>t. kfree x s = Ok () t \<and> pool t (x # xs) \<and> page_ok t = page_ok s"
    using kfree_pool [of s xs x] by (auto simp: page_ok_def fun_eq_iff)
qed

section \<open>Initialisation\<close>

lemma PGROUNDDOWN_unat: "unat (PGROUNDDOWN a) = unat a div 4096 * 4096"
proof -
  have "(a AND NOT (mask 12)) + (a AND mask 12) = (a AND NOT (mask 12)) OR (a AND mask 12)"
    by (rule disjunctive_add_eq_or) (auto simp: bit_eq_iff bit_simps)
  also have "\<dots> = a" by (auto simp: bit_eq_iff bit_simps)
  finally have "PGROUNDDOWN a = a - take_bit 12 a"
    by (simp add: PGROUNDDOWN_def PGSIZE_def take_bit_eq_mask mask_eq_exp_minus_1 eq_diff_eq)
  moreover have "unat (take_bit 12 a) = unat a mod 4096"
    by (simp only: unsigned_take_bit_eq) (simp add: take_bit_eq_mod)
  ultimately have "unat (PGROUNDDOWN a) = unat a - unat a mod 4096"
    by (simp add: unat_sub_if' word_le_nat_alt)
  then show ?thesis by (simp add: minus_mod_eq_div_mult)
qed

lemma PGROUNDUP_unat: "unat a + 4095 < 2 ^ 32 \<Longrightarrow> unat (PGROUNDUP a) = (unat a + 4095) div 4096 * 4096"
proof -
  assume small: "unat a + 4095 < 2 ^ 32"
  have "PGROUNDUP a = PGROUNDDOWN (a + 4095)" by (simp add: PGROUNDUP_def PGROUNDDOWN_def PGSIZE_def add.commute)
  moreover have "unat (a + 4095) = unat a + 4095" using small by (subst unat_add_small) simp_all
  ultimately show ?thesis using PGROUNDDOWN_unat [of "a + 4095"] by simp
qed

lemma PGROUNDUP_aligned: "unat a + 4095 < 2 ^ 32 \<Longrightarrow> page_aligned (PGROUNDUP a)"
  by (simp add: page_aligned_unat PGROUNDUP_unat)

definition pages :: "uint \<Rightarrow> nat \<Rightarrow> uint list" where
  "pages p n = map (\<lambda>i. p + of_nat i * PGSIZE) [0..<n]"

lemma pages_Suc: "pages p (Suc n) = p # pages (p + PGSIZE) n"
proof -
  have "pages p (Suc n) = map (\<lambda>i. p + of_nat i * PGSIZE) (0 # map Suc [0..<n])"
    unfolding pages_def by (simp add: map_Suc_upt upt_conv_Cons del: upt_Suc)
  then show ?thesis by (simp add: pages_def algebra_simps)
qed

lemma unat_pages: "unat p + 4096 * n < 2 ^ 32 \<Longrightarrow> i \<le> n \<Longrightarrow> unat (p + of_nat i * PGSIZE) = unat p + 4096 * i"
proof -
  assume a: "unat p + 4096 * n < 2 ^ 32" "i \<le> n"
  have b: "unat (of_nat i * PGSIZE) = 4096 * i"
  proof -
    have "of_nat i * PGSIZE = (of_nat (4096 * i) :: uint)" by (simp add: PGSIZE_def mult.commute)
    moreover have "4096 * i < 2 ^ 32" using a by linarith
    ultimately show ?thesis by (simp only: unat_of_nat_uint)
  qed
  show ?thesis by (subst unat_add_small) (use a b in simp_all)
qed

lemma freerange_from_pool:
  fixes s :: "'a kmem_scheme"
  assumes "pool s xs" and "unat p + 4096 * n < 2 ^ 32" and "unat p + 4096 * n \<le> unat vend" and "unat vend < unat p + 4096 * Suc n"
    and "unat p + 4096 * Suc n < 2 ^ 32"
    and "\<forall>i < n. page_ok s (p + of_nat i * PGSIZE) \<and> p + of_nat i * PGSIZE \<notin> set xs"
  shows "\<exists>t. freerange_from p vend s = Ok () t \<and> pool t (rev (pages p n) @ xs) \<and> kend t = kend s \<and> kmem.more t = kmem.more s"
  using assms
proof (induction n arbitrary: p s xs)
  case 0
  have "unat (p + PGSIZE) = unat p + 4096" using 0 by (subst unat_add_small) (simp_all add: PGSIZE_def)
  then have "\<not> p + PGSIZE \<le> vend" using 0 by (simp add: word_le_nat_alt)
  then show ?case using 0 by (subst freerange_from.simps) (simp add: pages_def)
next
  case (Suc n)
  have p1: "unat (p + PGSIZE) = unat p + 4096" using Suc.prems by (subst unat_add_small) (simp_all add: PGSIZE_def)
  then have le: "p + PGSIZE \<le> vend" using Suc.prems by (simp add: word_le_nat_alt)
  have ok: "page_ok s p" "p \<notin> set xs" using Suc.prems(6) [rule_format, of 0] by simp_all
  obtain t where t: "kfree p s = Ok () t" "pool t (p # xs)" "kend t = kend s" "kmem.more t = kmem.more s"
    using kfree_pool [OF Suc.prems(1) ok] by blast
  have okt: "page_ok t = page_ok s" using t(3) by (simp add: page_ok_def fun_eq_iff)
  have "\<exists>u. freerange_from (p + PGSIZE) vend t = Ok () u \<and> pool u (rev (pages (p + PGSIZE) n) @ p # xs) \<and> kend u = kend t \<and>
      kmem.more u = kmem.more t"
  proof (rule Suc.IH [OF t(2)])
    show "\<forall>i < n. page_ok t (p + PGSIZE + of_nat i * PGSIZE) \<and> p + PGSIZE + of_nat i * PGSIZE \<notin> set (p # xs)"
    proof (intro allI impI)
      fix i assume i: "i < n"
      have e: "p + PGSIZE + of_nat i * PGSIZE = p + of_nat (Suc i) * PGSIZE" by (simp add: algebra_simps)
      have "unat (p + of_nat (Suc i) * PGSIZE) = unat p + 4096 * Suc i"
        using Suc.prems(2) i by (intro unat_pages [of _ "Suc n"]) simp_all
      then have "p + of_nat (Suc i) * PGSIZE \<noteq> p" by auto
      then show "page_ok t (p + PGSIZE + of_nat i * PGSIZE) \<and> p + PGSIZE + of_nat i * PGSIZE \<notin> set (p # xs)"
        unfolding e okt using Suc.prems(6) [rule_format, of "Suc i"] i by simp
    qed
  qed (use Suc.prems p1 in simp_all)
  then show ?case using le t by (subst freerange_from.simps) (auto simp: pages_Suc)
qed

lemma whole_pages_ok:
  assumes "4096 dvd unat p" and "KERNBASE \<le> kend s" and "unat (kend s) \<le> unat p" and "unat p + 4096 * n \<le> 2 ^ 31 + 0xE000000" and "i < n"
  shows "page_ok s (p + of_nat i * PGSIZE)"
proof -
  let ?v = "p + of_nat i * PGSIZE"
  have uv: "unat ?v = unat p + 4096 * i" using unat_pages [of p n i] assms(4,5) by simp
  have "unat ?v + 4096 \<le> unat p + 4096 * n" using uv assms(5) by simp
  then have "2 ^ 31 \<le> unat ?v" "unat ?v < 2 ^ 31 + 0xE000000"
    using assms(2-4) uv by (auto simp: KERNBASE_def word_le_nat_alt)
  then have "unat (v2p ?v) < 0xE000000" by (simp add: v2p_def KERNBASE_def unat_sub_if' word_le_nat_alt)
  then have "\<not> v2p ?v \<ge> PHYSTOP" by (simp add: PHYSTOP_def word_le_nat_alt)
  moreover have "4096 dvd unat ?v" using assms(1) uv by simp
  then have "?v mod PGSIZE = 0" by (simp add: PGSIZE_def word_unat_eq_iff unat_mod)
  moreover have "unat (kend s) \<le> unat ?v" using assms(3) uv by linarith
  then have "\<not> ?v < kend s" by (simp only: word_less_nat_alt not_less)
  ultimately show ?thesis unfolding page_ok_def by blast
qed

lemma whole_pages_set:
  assumes "4096 dvd unat p" and "unat p + 4096 * n \<le> e" and "e < unat p + 4096 * Suc n" and "b \<le> unat p" and "unat p < b + 4096"
    and "unat p + 4096 * n < 2 ^ 32"
  shows "set (pages p n) = {v. page_aligned v \<and> b \<le> unat v \<and> unat v + 4096 \<le> e}" (is "_ = ?R")
proof
  have u: "unat (p + of_nat i * PGSIZE) = unat p + 4096 * i" if "i \<le> n" for i using unat_pages [OF assms(6) that] .
  show "set (pages p n) \<subseteq> ?R"
  proof
    fix v assume "v \<in> set (pages p n)"
    then obtain i where i: "i < n" "v = p + of_nat i * PGSIZE" by (auto simp: pages_def)
    then have "unat v = unat p + 4096 * i" "4096 * Suc i \<le> 4096 * n" using u [of i] by simp_all
    then show "v \<in> ?R" using assms by (simp add: page_aligned_unat)
  qed
  show "?R \<subseteq> set (pages p n)"
  proof
    fix v assume "v \<in> ?R"
    then have v: "4096 dvd unat v" "b \<le> unat v" "unat v + 4096 \<le> e" by (simp_all add: page_aligned_unat)
    define i where "i = (unat v - unat p) div 4096"
    have pv: "unat p \<le> unat v" using v(1,2) assms(1,4,5) by (auto elim!: dvdE)
    have "4096 dvd unat v - unat p" using v(1) assms(1) by (rule dvd_diff_nat)
    then have "unat v - unat p = 4096 * i" unfolding i_def by simp
    with pv have uv: "unat v = unat p + 4096 * i" by linarith
    then have "i < n" using v(3) assms(3) by simp
    have "unat v = unat (p + of_nat i * PGSIZE)" using uv u [of i] \<open>i < n\<close> by linarith
    then have "v = p + of_nat i * PGSIZE" by (rule word_unat_eq_iff [THEN iffD2])
    with \<open>i < n\<close> show "v \<in> set (pages p n)" by (auto simp: pages_def)
  qed
qed

text \<open>C30. Boot-time initialisation puts every whole page of the range on the free list, each exactly once:
  \<^verbatim>\<open>kinit1\<close> on an empty list returns and leaves exactly the page-aligned addresses from
  \<open>vstart\<close> whose page ends at or before \<open>vend\<close>.\<close>

theorem kinit1_pool:
  fixes s :: "'a kmem_scheme"
  assumes "freelist s = 0" and "KERNBASE \<le> kend s" and "kend s \<le> vstart" and "vstart \<le> vend" and "vend \<le> KERNBASE + PHYSTOP"
  shows "\<exists>t ps. kinit1 vstart vend s = Ok () t \<and> pool t ps \<and>
    set ps = {v. page_aligned v \<and> unat vstart \<le> unat v \<and> unat v + 4096 \<le> unat vend}"
proof -
  have top: "unat vend \<le> 2 ^ 31 + 0xE000000" using assms(5) by (simp add: KERNBASE_def PHYSTOP_def word_le_nat_alt)
  have vs: "unat vstart \<le> unat vend" using assms(4) by (simp add: word_le_nat_alt)
  let ?p = "PGROUNDUP vstart"
  have p: "unat ?p = (unat vstart + 4095) div 4096 * 4096" using top vs by (intro PGROUNDUP_unat) simp
  define n where "n = (unat vend - unat ?p) div 4096"
  have "unat ?p + (unat vstart + 4095) mod 4096 = unat vstart + 4095" unfolding p by (rule div_mult_mod_eq)
  moreover have "(unat vstart + 4095) mod 4096 < 4096" by simp
  ultimately have pv: "unat vstart \<le> unat ?p" "unat ?p < unat vstart + 4096" by linarith+
  have al: "4096 dvd unat ?p" unfolding p by simp
  have empty: "pool s []" using assms(1) by (simp add: pool_def)
  show ?thesis
  proof (cases "unat ?p \<le> unat vend")
    case True
    have n1: "unat ?p + 4096 * n \<le> unat vend" "unat vend < unat ?p + 4096 * Suc n"
    proof -
      have "4096 * n + (unat vend - unat ?p) mod 4096 = unat vend - unat ?p" unfolding n_def by simp
      moreover have "(unat vend - unat ?p) mod 4096 < 4096" by simp
      ultimately show "unat ?p + 4096 * n \<le> unat vend" "unat vend < unat ?p + 4096 * Suc n" using True by simp_all
    qed
    have small: "unat ?p + 4096 * n < 2 ^ 32" "unat ?p + 4096 * Suc n < 2 ^ 32" using n1 top by simp_all
    have "unat (kend s) \<le> unat ?p" using assms(3) pv(1) unfolding word_le_nat_alt by linarith
    moreover have "unat ?p + 4096 * n \<le> 2 ^ 31 + 0xE000000" using n1(1) top by linarith
    ultimately have ok: "page_ok s (?p + of_nat i * PGSIZE)" if "i < n" for i
      using whole_pages_ok [OF al assms(2)] that by blast
    obtain t where t: "freerange_from ?p vend s = Ok () t" "pool t (rev (pages ?p n) @ [])"
      using freerange_from_pool [OF empty small(1) n1 small(2)] ok by auto
    have "set (pages ?p n) = {v. page_aligned v \<and> unat vstart \<le> unat v \<and> unat v + 4096 \<le> unat vend}"
      by (rule whole_pages_set [OF al n1 pv small(1)])
    with t have "kinit1 vstart vend s = Ok () t \<and> pool t (rev (pages ?p n)) \<and>
        set (rev (pages ?p n)) = {v. page_aligned v \<and> unat vstart \<le> unat v \<and> unat v + 4096 \<le> unat vend}"
      by (simp add: kinit1_def freerange_def)
    then show ?thesis by blast
  next
    case False
    have "unat (?p + PGSIZE) = unat ?p + 4096" using pv vs top by (subst unat_add_small) (simp_all add: PGSIZE_def)
    with False have "\<not> ?p + PGSIZE \<le> vend" by (simp add: word_le_nat_alt)
    then have "kinit1 vstart vend s = Ok () s" by (simp add: kinit1_def freerange_def freerange_from.simps)
    moreover have "{v. page_aligned v \<and> unat vstart \<le> unat v \<and> unat v + 4096 \<le> unat vend} = {}"
      using False pv al by (auto simp: page_aligned_unat elim!: dvdE)
    ultimately show ?thesis using empty by (metis (no_types, lifting) list.set(1))
  qed
qed

theorem kinit1_pool_witness:
  "\<exists>t ps. kinit1 0x80100000 0x80103000 \<lparr>pmem = (\<lambda>_. 0), freelist = 0, kend = 0x80100000, kdata = 0x80108000, kpgdir = 0\<rparr> = Ok () t \<and> pool t ps \<and> 0x80102000 \<in> set ps"
proof -
  let ?s = "\<lparr>pmem = (\<lambda>_. 0), freelist = 0, kend = 0x80100000, kdata = 0x80108000, kpgdir = 0\<rparr>"
  obtain t ps where t: "kinit1 0x80100000 0x80103000 ?s = Ok () t" "pool t ps"
    "set ps = {v. page_aligned v \<and> unat (0x80100000 :: uint) \<le> unat v \<and> unat v + 4096 \<le> unat (0x80103000 :: uint)}"
    using kinit1_pool [of ?s "0x80100000" "0x80103000"] by (auto simp: KERNBASE_def PHYSTOP_def)
  have "0x80102000 \<in> set ps" by (simp add: t(3) page_aligned_def)
  with t show ?thesis by blast
qed

section \<open>Properties\<close>

text \<open>C26. No page is handed out twice: of two successive allocations, the second of which succeeds, both return
  legal pages and they differ.\<close>

theorem kalloc_distinct:
  assumes "pool s xs" and "kalloc s = Ok x t" and "kalloc t = Ok y u" and "y \<noteq> 0"
  shows "x \<noteq> 0 \<and> x \<noteq> y \<and> page_ok u y"
  using assms by (rule kpages.alloc_twice)

definition demo_kmem :: kmem where
  "demo_kmem = \<lparr>pmem = store32 (store32 (\<lambda>_. 0) 0x80200000 0x80201000) 0x80201000 0, freelist = 0x80200000, kend = 0x80100000, kdata = 0x80108000, kpgdir = 0\<rparr>"

lemma demo_kmem_pool: "pool demo_kmem [0x80200000, 0x80201000]"
  by (simp add: demo_kmem_def pool_def page_ok_def load_store_other aligned4_def PGSIZE_def v2p_def KERNBASE_def PHYSTOP_def)

theorem kalloc_distinct_witness:
  "\<exists>t u. kalloc demo_kmem = Ok 0x80200000 t \<and> kalloc t = Ok 0x80201000 u \<and> page_ok u 0x80201000"
proof -
  obtain t u where "kalloc demo_kmem = Ok 0x80200000 t" "kalloc t = Ok 0x80201000 u"
    using demo_kmem_pool kalloc_pool(1) by (metis (no_types, lifting))
  with kalloc_distinct [OF demo_kmem_pool this] show ?thesis by auto
qed

text \<open>C31. \<^verbatim>\<open>kfree\<close> of a legal page that is not free succeeds, changes no memory outside that page, and the page
  is the next one \<^verbatim>\<open>kalloc\<close> returns; on any other address \<^verbatim>\<open>kfree\<close> panics.\<close>

theorem kfree_kalloc:
  assumes "pool s xs" and "v \<notin> set xs"
  shows "if page_ok s v
    then \<exists>t u. kfree v s = Ok () t \<and> kalloc t = Ok v u \<and> pool u xs \<and> (\<forall>a. \<not> in_page v a \<longrightarrow> pmem u a = pmem s a)
    else kfree v s = Panic ''kfree''"
proof (cases "page_ok s v")
  case True
  then obtain t where t: "kfree v s = Ok () t" "pool t (v # xs)" "\<forall>a. \<not> in_page v a \<longrightarrow> pmem t a = pmem s a"
    using kfree_pool [OF assms(1) _ assms(2)] by blast
  from kalloc_pool(1) [OF t(2)] t(1,3) True show ?thesis by auto
next
  case False
  then have "kfree v s = Panic ''kfree''" by (auto simp: kfree_def page_ok_def)
  with False show ?thesis by simp
qed

theorem kfree_kalloc_witness:
  "(\<exists>t u. kfree 0x80300000 demo_kmem = Ok () t \<and> kalloc t = Ok 0x80300000 u \<and> pmem u 0x80200001 = pmem demo_kmem 0x80200001) \<and>
   kfree 0x80300001 demo_kmem = Panic ''kfree''"
proof -
  have "page_ok demo_kmem 0x80300000" "\<not> page_ok demo_kmem 0x80300001" "\<not> in_page 0x80300000 0x80200001"
    by (simp_all add: demo_kmem_def page_ok_def PGSIZE_def v2p_def KERNBASE_def PHYSTOP_def in_page_def)
  with kfree_kalloc [OF demo_kmem_pool, of "0x80300000"] kfree_kalloc [OF demo_kmem_pool, of "0x80300001"] show ?thesis
    by auto
qed

end
