(* ===== verification/Sched.thy ===== *)
theory Sched
  imports Kalloc
begin

text \<open>
  The process table of \<^verbatim>\<open>proc.c\<close> and \<^verbatim>\<open>proc.h\<close> and the operations on it that need no other
  component: \<^verbatim>\<open>wakeup1\<close>, \<^verbatim>\<open>wakeup\<close>, \<^verbatim>\<open>kill\<close>, \<^verbatim>\<open>updatestatistics\<close>, the state changes of
  \<^verbatim>\<open>sleep\<close>, \<^verbatim>\<open>yield\<close> and \<^verbatim>\<open>scheduler\<close>. The record \<open>sched\<close> extends the memory: every
  later component extends it in turn with its own globals, so a routine of one component runs unchanged
  on the state of any component above it.

  A pointer to a table entry is the entry's index; a null pointer is \<open>None\<close>. \<open>curproc\<close> is the
  per-CPU variable \<^verbatim>\<open>proc\<close>. Operations on the table run with \<^verbatim>\<open>ptable.lock\<close> held and are single
  steps here; locks are the subject of the theory \<open>Spinlock\<close>.
\<close>

section \<open>Data\<close>

definition NPROC :: nat where "NPROC = 64"
definition NOFILE :: nat where "NOFILE = 16"

datatype procstate = UNUSED | EMBRYO | SLEEPING | RUNNABLE | RUNNING | ZOMBIE

text \<open>The fields of the trap frame that the modelled code reads or writes; the structure itself
  lives at the top of the process's kernel stack.\<close>

record trapframe =
  tf_eax :: uint
  tf_eip :: uint
  tf_esp :: uint
  tf_cs :: uint
  tf_ds :: uint
  tf_es :: uint
  tf_ss :: uint
  tf_eflags :: uint
  tf_trapno :: uint

record proc =
  sz :: uint
  pgdir :: uint
  kstack :: uint
  state :: procstate
  pid :: uint
  parent :: "nat option"
  tf :: trapframe
  pcontext :: uint
  pchan :: "chan option"
  killed :: bool
  ofile :: "nat option list"
  cwd :: "nat option"
  pname :: "byte list"
  ctime :: uint
  stime :: uint
  retime :: uint
  rutime :: uint
  priority :: uint
  fake :: "uint list"

record sched = kmem +
  ptable :: "proc list"
  nextpid :: uint
  ticks :: uint
  initproc :: "nat option"
  curproc :: "nat option"

section \<open>Operations\<close>

text \<open>\<^verbatim>\<open>wakeup1\<close>: every process sleeping on the channel becomes runnable.\<close>

definition wakeup1_proc :: "chan \<Rightarrow> proc \<Rightarrow> proc" where
  "wakeup1_proc c p =
     (if state p = SLEEPING \<and> pchan p = Some c then p\<lparr>state := RUNNABLE\<rparr> else p)"

definition wakeup1 :: "chan \<Rightarrow> proc list \<Rightarrow> proc list" where
  "wakeup1 c ps = map (wakeup1_proc c) ps"

definition wakeup :: "chan \<Rightarrow> 'a sched_scheme \<Rightarrow> 'a sched_scheme" where
  "wakeup c s = s\<lparr>ptable := wakeup1 c (ptable s)\<rparr>"

text \<open>\<^verbatim>\<open>kill\<close>: the first entry with this pid, whatever its state.\<close>

fun kill_from :: "uint \<Rightarrow> proc list \<Rightarrow> proc list option" where
  "kill_from p [] = None"
| "kill_from p (q # qs) =
     (if pid q = p then
        Some (q\<lparr>killed := True, state := (if state q = SLEEPING then RUNNABLE else state q)\<rparr> # qs)
      else map_option ((#) q) (kill_from p qs))"

definition kill :: "uint \<Rightarrow> 'a sched_scheme \<Rightarrow> (int, 'a sched_scheme) outcome" where
  "kill p s =
     (case kill_from p (ptable s) of
        Some ps \<Rightarrow> Ok 0 (s\<lparr>ptable := ps\<rparr>)
      | None \<Rightarrow> Ok (- 1) s)"

definition update_one :: "proc \<Rightarrow> proc" where
  "update_one p =
     (case state p of
        SLEEPING \<Rightarrow> p\<lparr>stime := stime p + 1\<rparr>
      | RUNNABLE \<Rightarrow> p\<lparr>retime := retime p + 1\<rparr>
      | RUNNING \<Rightarrow> p\<lparr>rutime := rutime p + 1\<rparr>
      | _ \<Rightarrow> p)"

definition updatestatistics :: "'a sched_scheme \<Rightarrow> 'a sched_scheme" where
  "updatestatistics s = s\<lparr>ptable := map update_one (ptable s)\<rparr>"

text \<open>The timer branch of \<^verbatim>\<open>trap\<close> on CPU 0.\<close>

definition timer_tick :: "'a sched_scheme \<Rightarrow> 'a sched_scheme" where
  "timer_tick s = wakeup ChTicks (updatestatistics (s\<lparr>ticks := ticks s + 1\<rparr>))"

text \<open>
  A process gives up the CPU in \<^verbatim>\<open>sched\<close>: it has already left the state \<^verbatim>\<open>RUNNING\<close>, and the CPU
  returns to \<^verbatim>\<open>scheduler\<close>, which clears \<^verbatim>\<open>proc\<close>. \<open>sleep_on\<close> is \<^verbatim>\<open>sleep\<close> up to that switch, and
  \<open>wake_tidy\<close> what it does after the switch back.
\<close>

definition sched_switch :: "'a sched_scheme \<Rightarrow> (unit, 'a sched_scheme) outcome" where
  "sched_switch s =
     (case curproc s of
        None \<Rightarrow> Panic ''sched''
      | Some i \<Rightarrow> if state (ptable s ! i) = RUNNING then Panic ''sched running''
                 else Ok () (s\<lparr>curproc := None\<rparr>))"

definition sleep_on :: "chan \<Rightarrow> 'a sched_scheme \<Rightarrow> (unit, 'a sched_scheme) outcome" where
  "sleep_on c s =
     (case curproc s of
        None \<Rightarrow> Panic ''sleep''
      | Some i \<Rightarrow>
          sched_switch (s\<lparr>ptable := (ptable s)[i := (ptable s ! i)\<lparr>pchan := Some c, state := SLEEPING\<rparr>]\<rparr>))"

definition wake_tidy :: "nat \<Rightarrow> 'a sched_scheme \<Rightarrow> 'a sched_scheme" where
  "wake_tidy i s = s\<lparr>ptable := (ptable s)[i := (ptable s ! i)\<lparr>pchan := None\<rparr>]\<rparr>"

definition yield :: "'a sched_scheme \<Rightarrow> (unit, 'a sched_scheme) outcome" where
  "yield s =
     (case curproc s of
        None \<Rightarrow> Panic ''sched''
      | Some i \<Rightarrow> sched_switch (s\<lparr>ptable := (ptable s)[i := (ptable s ! i)\<lparr>state := RUNNABLE\<rparr>]\<rparr>))"

text \<open>One iteration of the loop of \<^verbatim>\<open>scheduler\<close> over the table, at entry \<open>i\<close>: a process that is not
  runnable is skipped, a runnable one becomes the running process of this CPU.\<close>

definition schedule :: "nat \<Rightarrow> 'a sched_scheme \<Rightarrow> (bool, 'a sched_scheme) outcome" where
  "schedule i s =
     (if state (ptable s ! i) \<noteq> RUNNABLE then Ok False s
      else if pgdir (ptable s ! i) = 0 then Panic ''switchuvm: no pgdir''
      else Ok True (s\<lparr>curproc := Some i,
                     ptable := (ptable s)[i := (ptable s ! i)\<lparr>state := RUNNING\<rparr>]\<rparr>))"

text \<open>\<^verbatim>\<open>getcallerpcs\<close> of \<^verbatim>\<open>spinlock.c\<close>: the saved program counters along the frame-pointer chain, padded
  with zeros to ten entries. \<open>getcallerpcs_from\<close> is the loop with \<open>r\<close> rounds to go.\<close>

fun getcallerpcs_from :: "nat \<Rightarrow> uint \<Rightarrow> mem \<Rightarrow> uint list" where
  "getcallerpcs_from 0 ebp m = []"
| "getcallerpcs_from (Suc r) ebp m =
     (if ebp = 0 \<or> ebp < KERNBASE \<or> ebp = 0xFFFFFFFF then replicate (Suc r) 0
      else load32 m (ebp + 4) # getcallerpcs_from r (load32 m ebp) m)"

definition getcallerpcs :: "uint \<Rightarrow> mem \<Rightarrow> uint list" where
  "getcallerpcs v m = getcallerpcs_from 10 (v - 8) m"

end
