(* ===== verification/Bio.thy ===== *)
theory Bio
  imports Sched
begin

text \<open>
  The buffer cache \<^verbatim>\<open>bio.c\<close> over the memory disk \<^verbatim>\<open>memide.c\<close> (the disk driver of the
  \<^verbatim>\<open>kernelmemfs\<close> build, which shares the interface \<^verbatim>\<open>iderw\<close> with \<^verbatim>\<open>ide.c\<close>).

  A pointer to a buffer is its index in \<^verbatim>\<open>bcache.buf\<close>. The circular list through \<^verbatim>\<open>prev\<close> and
  \<^verbatim>\<open>next\<close> is the list of indices \<open>lru\<close> from \<^verbatim>\<open>head.next\<close> to \<^verbatim>\<open>head.prev\<close>; the theory \<open>Buf_List\<close>
  shows that the pointer code implements these list operations. \<open>diskops\<close> is a history variable:
  the sector writes the disk has performed, in order. No operation reads it; it is what a crash
  between two writes is defined from.
\<close>

section \<open>Data\<close>

definition BSIZE :: nat where "BSIZE = 512"
definition NBUF :: nat where "NBUF = 10"
definition ROOTDEV :: nat where "ROOTDEV = 1"
definition NODEV :: nat where "NODEV = 4294967295"

type_synonym block = "byte list"

datatype bflag = B_BUSY | B_VALID | B_DIRTY

record buf =
  flags :: "bflag set"
  bdev :: nat
  sector :: nat
  bdata :: block

record bio = sched +
  memdisk :: "nat \<Rightarrow> block"
  disksize :: nat
  diskops :: "(nat \<times> block) list"
  bufs :: "buf list"
  lru :: "nat list"

section \<open>Operations\<close>

definition getb :: "'a bio_scheme \<Rightarrow> nat \<Rightarrow> buf" where
  "getb s b = bufs s ! b"

definition setb :: "nat \<Rightarrow> buf \<Rightarrow> 'a bio_scheme \<Rightarrow> 'a bio_scheme" where
  "setb b x s = s\<lparr>bufs := (bufs s)[b := x]\<rparr>"

text \<open>\<^verbatim>\<open>iderw\<close> of \<^verbatim>\<open>memide.c\<close>.\<close>

definition iderw :: "nat \<Rightarrow> 'a bio_scheme \<Rightarrow> (unit, 'a bio_scheme) outcome" where
  "iderw b s =
     (let x = getb s b in
      if B_BUSY \<notin> flags x then Panic ''iderw: buf not busy''
      else if B_VALID \<in> flags x \<and> B_DIRTY \<notin> flags x then Panic ''iderw: nothing to do''
      else if bdev x \<noteq> 1 then Panic ''iderw: request not for disk 1''
      else if sector x \<ge> disksize s then Panic ''iderw: sector out of range''
      else if B_DIRTY \<in> flags x then
        Ok () (setb b (x\<lparr>flags := insert B_VALID (flags x - {B_DIRTY})\<rparr>)
                 (s\<lparr>memdisk := (memdisk s)(sector x := bdata x),
                    diskops := diskops s @ [(sector x, bdata x)]\<rparr>))
      else
        Ok () (setb b (x\<lparr>bdata := memdisk s (sector x), flags := insert B_VALID (flags x)\<rparr>) s))"

definition binit :: "'a bio_scheme \<Rightarrow> 'a bio_scheme" where
  "binit s =
     fold (\<lambda>b s. s\<lparr>lru := b # lru s, bufs := (bufs s)[b := (bufs s ! b)\<lparr>bdev := NODEV\<rparr>]\<rparr>)
       [0..<NBUF] (s\<lparr>lru := []\<rparr>)"

definition bget :: "nat \<Rightarrow> nat \<Rightarrow> 'a bio_scheme \<Rightarrow> (nat, 'a bio_scheme) outcome" where
  "bget dev sec s =
     (case List.find (\<lambda>b. bdev (getb s b) = dev \<and> sector (getb s b) = sec) (lru s) of
        Some b \<Rightarrow>
          if B_BUSY \<notin> flags (getb s b)
          then Ok b (setb b ((getb s b)\<lparr>flags := insert B_BUSY (flags (getb s b))\<rparr>) s)
          else Sleep (ChBuf b) s
      | None \<Rightarrow>
          (case List.find (\<lambda>b. B_BUSY \<notin> flags (getb s b) \<and> B_DIRTY \<notin> flags (getb s b)) (rev (lru s)) of
             Some b \<Rightarrow> Ok b (setb b ((getb s b)\<lparr>bdev := dev, sector := sec, flags := {B_BUSY}\<rparr>) s)
           | None \<Rightarrow> Panic ''bget: no buffers''))"

definition bread :: "nat \<Rightarrow> nat \<Rightarrow> 'a bio_scheme \<Rightarrow> (nat, 'a bio_scheme) outcome" where
  "bread dev sec s =
     call (bget dev sec s) (\<lambda>b s.
     if B_VALID \<notin> flags (getb s b) then call (iderw b s) (\<lambda>_ s. Ok b s) else Ok b s)"

definition bwrite :: "nat \<Rightarrow> 'a bio_scheme \<Rightarrow> (unit, 'a bio_scheme) outcome" where
  "bwrite b s =
     (if B_BUSY \<notin> flags (getb s b) then Panic ''bwrite''
      else iderw b (setb b ((getb s b)\<lparr>flags := insert B_DIRTY (flags (getb s b))\<rparr>) s))"

definition brelse :: "nat \<Rightarrow> 'a bio_scheme \<Rightarrow> (unit, 'a bio_scheme) outcome" where
  "brelse b s =
     (if B_BUSY \<notin> flags (getb s b) then Panic ''brelse''
      else Ok () (wakeup (ChBuf b)
             (setb b ((getb s b)\<lparr>flags := flags (getb s b) - {B_BUSY}\<rparr>)
                (s\<lparr>lru := b # remove1 b (lru s)\<rparr>))))"

text \<open>What the callers do to a buffer they hold: change its data.\<close>

definition bmodify :: "nat \<Rightarrow> (block \<Rightarrow> block) \<Rightarrow> 'a bio_scheme \<Rightarrow> 'a bio_scheme" where
  "bmodify b f s = setb b ((getb s b)\<lparr>bdata := f (bdata (getb s b))\<rparr>) s"

section \<open>Invariant and abstraction\<close>

text \<open>
  The cache is consistent: the list links every buffer once, a sector is cached at most once, every
  buffer of disk 1 holds valid data, and a buffer that is neither dirty nor in use agrees with the
  disk. This holds between the calls of the interface, also while callers hold buffers.
\<close>

definition caches :: "'a bio_scheme \<Rightarrow> nat \<Rightarrow> nat \<Rightarrow> bool" where
  "caches s b k \<longleftrightarrow> b < NBUF \<and> bdev (getb s b) = 1 \<and> sector (getb s b) = k"

definition bio_inv :: "'a bio_scheme \<Rightarrow> bool" where
  "bio_inv s \<longleftrightarrow>
     length (bufs s) = NBUF \<and> distinct (lru s) \<and> set (lru s) = {..<NBUF} \<and>
     (\<forall>k. length (memdisk s k) = BSIZE) \<and>
     (\<forall>b < NBUF. length (bdata (getb s b)) = BSIZE) \<and>
     (\<forall>b < NBUF. bdev (getb s b) = 1 \<or> bdev (getb s b) = NODEV \<and> flags (getb s b) = {}) \<and>
     (\<forall>b c k. caches s b k \<and> caches s c k \<longrightarrow> b = c) \<and>
     (\<forall>b k. caches s b k \<longrightarrow> B_VALID \<in> flags (getb s b) \<and> k < disksize s \<and>
        (B_DIRTY \<notin> flags (getb s b) \<and> B_BUSY \<notin> flags (getb s b) \<longrightarrow> bdata (getb s b) = memdisk s k))"

text \<open>The contents of a sector as the kernel sees it: the cached copy if there is one, else the disk.\<close>

definition bview :: "'a bio_scheme \<Rightarrow> nat \<Rightarrow> block" where
  "bview s k =
     (case List.find (\<lambda>x. bdev x = 1 \<and> sector x = k) (bufs s) of
        Some x \<Rightarrow> bdata x | None \<Rightarrow> memdisk s k)"

definition cached :: "'a bio_scheme \<Rightarrow> nat \<Rightarrow> bool" where
  "cached s k \<longleftrightarrow> (\<exists>b < NBUF. caches s b k)"

definition reusable :: "'a bio_scheme \<Rightarrow> nat \<Rightarrow> bool" where
  "reusable s b \<longleftrightarrow> b < NBUF \<and> B_BUSY \<notin> flags (getb s b) \<and> B_DIRTY \<notin> flags (getb s b)"

section \<open>Lemmas\<close>

lemma getb_setb: "b < length (bufs s) \<Longrightarrow> getb (setb b x s) c = (if c = b then x else getb s c)"
  by (simp add: getb_def setb_def nth_list_update)

lemma getb_frame [simp]:
  "getb (s\<lparr>memdisk := d\<rparr>) b = getb s b" "getb (s\<lparr>diskops := t\<rparr>) b = getb s b"
  "getb (s\<lparr>lru := l\<rparr>) b = getb s b" "getb (wakeup c s) b = getb s b"
  by (simp_all add: getb_def wakeup_def)

lemma setb_sel [simp]:
  "memdisk (setb b x s) = memdisk s" "disksize (setb b x s) = disksize s"
  "diskops (setb b x s) = diskops s" "lru (setb b x s) = lru s" "length (bufs (setb b x s)) = length (bufs s)"
  "ptable (setb b x s) = ptable s" "bio.more (setb b x s) = bio.more s"
  by (simp_all add: setb_def)

lemma setb_setb [simp]: "setb b x (setb b y s) = setb b x s"
  by (simp add: setb_def)

lemma buf_all_updated:
  "x\<lparr>bdev := d, sector := k, flags := f, bdata := a\<rparr> = \<lparr>flags = f, bdev = d, sector = k, bdata = a\<rparr>"
  by (cases x) simp

lemma wakeup_sel [simp]:
  "memdisk (wakeup c s) = memdisk s" "disksize (wakeup c s) = disksize s"
  "diskops (wakeup c s) = diskops s" "lru (wakeup c s) = lru s" "bufs (wakeup c s) = bufs s"
  "bio.more (wakeup c s) = bio.more s"
  by (simp_all add: wakeup_def)

lemma bio_inv_length [simp]: "bio_inv s \<Longrightarrow> length (bufs s) = NBUF"
  by (simp add: bio_inv_def)

lemma bio_inv_lru: "bio_inv s \<Longrightarrow> distinct (lru s) \<and> set (lru s) = {..<NBUF}"
  by (simp add: bio_inv_def)

lemma bio_inv_block: "bio_inv s \<Longrightarrow> length (memdisk s k) = BSIZE"
  by (simp add: bio_inv_def)

lemma bio_inv_data: "bio_inv s \<Longrightarrow> b < NBUF \<Longrightarrow> length (bdata (getb s b)) = BSIZE"
  by (simp add: bio_inv_def)

lemma bio_inv_dev:
  "bio_inv s \<Longrightarrow> b < NBUF \<Longrightarrow> bdev (getb s b) = 1 \<or> bdev (getb s b) = NODEV \<and> flags (getb s b) = {}"
  unfolding bio_inv_def by blast

lemma caches_unique: "bio_inv s \<Longrightarrow> caches s b k \<Longrightarrow> caches s c k \<Longrightarrow> b = c"
  unfolding bio_inv_def by blast

lemma caches_valid: "bio_inv s \<Longrightarrow> caches s b k \<Longrightarrow> B_VALID \<in> flags (getb s b) \<and> k < disksize s"
  unfolding bio_inv_def by blast

lemma caches_clean:
  "bio_inv s \<Longrightarrow> caches s b k \<Longrightarrow> B_DIRTY \<notin> flags (getb s b) \<Longrightarrow> B_BUSY \<notin> flags (getb s b) \<Longrightarrow>
   bdata (getb s b) = memdisk s k"
  unfolding bio_inv_def by blast

lemma bview_caches:
  assumes "bio_inv s" and "caches s b k"
  shows "bview s k = bdata (getb s b)"
proof -
  have len: "length (bufs s) = NBUF" using assms(1) by (simp add: bio_inv_def)
  obtain x where x: "List.find (\<lambda>x. bdev x = 1 \<and> sector x = k) (bufs s) = Some x"
    using assms(2) len by (cases "List.find (\<lambda>x. bdev x = 1 \<and> sector x = k) (bufs s)")
      (auto simp: find_None_iff caches_def getb_def in_set_conv_nth)
  then obtain i where "i < NBUF" "bufs s ! i = x" "bdev x = 1" "sector x = k"
    using len by (auto simp: find_Some_iff)
  then have "caches s i k" by (simp add: caches_def getb_def)
  with assms have "i = b" by (blast intro: caches_unique)
  with x \<open>bufs s ! i = x\<close> show ?thesis by (simp add: bview_def getb_def)
qed

lemma bview_not_cached:
  "bio_inv s \<Longrightarrow> \<not> cached s k \<Longrightarrow> bview s k = memdisk s k"
proof -
  assume "bio_inv s" and nc: "\<not> cached s k"
  then have "length (bufs s) = NBUF" by simp
  with nc have "List.find (\<lambda>x. bdev x = 1 \<and> sector x = k) (bufs s) = None"
    by (force simp: find_None_iff cached_def caches_def getb_def in_set_conv_nth)
  then show ?thesis by (simp add: bview_def)
qed

lemma cachedE: "cached s k \<Longrightarrow> (\<And>b. caches s b k \<Longrightarrow> P) \<Longrightarrow> P"
  by (auto simp: cached_def)

lemma caches_cached: "caches s b k \<Longrightarrow> cached s k"
  by (auto simp: cached_def caches_def)

text \<open>The view is determined by the cached copies and the disk.\<close>

lemma bview_eqI:
  assumes "bio_inv s" and "bio_inv t"
    and "\<And>b. caches s b k \<Longrightarrow> bview t k = bdata (getb s b)"
    and "\<not> cached s k \<Longrightarrow> bview t k = memdisk s k"
  shows "bview t k = bview s k"
  using assms by (cases "cached s k") (auto simp: bview_not_cached bview_caches elim: cachedE)

text \<open>Replacing a buffer: what is needed to keep the invariant, and what becomes of the view.\<close>

lemma caches_setb:
  "length (bufs s) = NBUF \<Longrightarrow> b < NBUF \<Longrightarrow>
   caches (setb b x s) c k \<longleftrightarrow> (if c = b then bdev x = 1 \<and> sector x = k else caches s c k)"
  by (auto simp: caches_def getb_setb)

lemma bio_inv_setb:
  assumes inv: "bio_inv s" and b: "b < NBUF"
    and x: "bdev x = 1" "B_VALID \<in> flags x" "sector x < disksize s" "length (bdata x) = BSIZE"
    and uniq: "\<And>c. caches s c (sector x) \<Longrightarrow> c = b"
    and clean: "B_DIRTY \<notin> flags x \<Longrightarrow> B_BUSY \<notin> flags x \<Longrightarrow> bdata x = memdisk s (sector x)"
  shows "bio_inv (setb b x s)"
  unfolding bio_inv_def
proof (intro conjI allI impI)
  note len = bio_inv_length [OF inv]
  show "length (bufs (setb b x s)) = NBUF" using len by simp
  show "distinct (lru (setb b x s))" "set (lru (setb b x s)) = {..<NBUF}"
    using bio_inv_lru [OF inv] by simp_all
  show "length (memdisk (setb b x s) k) = BSIZE" for k
    using bio_inv_block [OF inv] by simp
  show "length (bdata (getb (setb b x s) c)) = BSIZE" if "c < NBUF" for c
    using bio_inv_data [OF inv that] x(4) b len by (simp add: getb_setb)
  show "bdev (getb (setb b x s) c) = 1 \<or> bdev (getb (setb b x s) c) = NODEV \<and> flags (getb (setb b x s) c) = {}"
    if "c < NBUF" for c
    using bio_inv_dev [OF inv that] x(1) b len by (auto simp: getb_setb)
  show "c = d" if "caches (setb b x s) c k \<and> caches (setb b x s) d k" for c d k
    using that uniq caches_unique [OF inv] unfolding caches_setb [OF len b] by metis
  show "B_VALID \<in> flags (getb (setb b x s) c)" if "caches (setb b x s) c k" for c k
    using that x(2) caches_valid [OF inv, of c k] b len
    by (simp add: caches_setb getb_setb split: if_splits)
  show "k < disksize (setb b x s)" if "caches (setb b x s) c k" for c k
    using that x(3) caches_valid [OF inv, of c k] b len by (simp add: caches_setb split: if_splits) 
  show "bdata (getb (setb b x s) c) = memdisk (setb b x s) k"
    if "caches (setb b x s) c k"
      and "B_DIRTY \<notin> flags (getb (setb b x s) c) \<and> B_BUSY \<notin> flags (getb (setb b x s) c)" for c k
  proof (cases "c = b")
    case True
    with that clean b len show ?thesis by (simp add: caches_setb getb_setb)
  next
    case False
    with that caches_clean [OF inv, of c k] b len show ?thesis by (simp add: caches_setb getb_setb)
  qed
qed

lemma bview_setb:
  assumes inv: "bio_inv s" and b: "b < NBUF" and x: "bdev x = 1" and inv': "bio_inv (setb b x s)"
  shows "bview (setb b x s) k =
    (if k = sector x then bdata x else if caches s b k then memdisk s k else bview s k)"
proof -
  note len = bio_inv_length [OF inv]
  consider (new) "k = sector x" | (old) "k \<noteq> sector x" "caches s b k"
    | (other) c where "k \<noteq> sector x" "\<not> caches s b k" "caches s c k"
    | (none) "k \<noteq> sector x" "\<not> cached s k"
    unfolding cached_def by metis
  then show ?thesis
  proof cases
    case new
    then have "caches (setb b x s) b k" using x b len by (simp add: caches_setb)
    from bview_caches [OF inv' this] new b len show ?thesis by (simp add: getb_setb)
  next
    case old
    then have "\<not> cached (setb b x s) k"
      using caches_unique [OF inv] unfolding cached_def caches_setb [OF len b] by metis
    from bview_not_cached [OF inv' this] old show ?thesis by simp
  next
    case other
    then have "caches (setb b x s) c k" and "c \<noteq> b" using b len by (auto simp: caches_setb)
    with bview_caches [OF inv'] bview_caches [OF inv] other b len show ?thesis by (simp add: getb_setb)
  next
    case none
    then have "\<not> cached (setb b x s) k"
      using b len by (auto simp: cached_def caches_setb split: if_splits)
    with bview_not_cached [OF inv'] bview_not_cached [OF inv] none show ?thesis
      by (auto dest: caches_cached)
  qed
qed

subsection \<open>bread\<close>

lemma find_lru_caches:
  assumes "bio_inv s"
  shows "List.find (\<lambda>b. bdev (getb s b) = 1 \<and> sector (getb s b) = k) (lru s) = Some b \<longleftrightarrow> caches s b k"
proof
  assume "List.find (\<lambda>b. bdev (getb s b) = 1 \<and> sector (getb s b) = k) (lru s) = Some b"
  then have "b \<in> set (lru s)" "bdev (getb s b) = 1 \<and> sector (getb s b) = k"
    by (auto simp: find_Some_iff)
  with bio_inv_lru [OF assms] show "caches s b k" by (simp add: caches_def)
next
  assume c: "caches s b k"
  with bio_inv_lru [OF assms] have "b \<in> set (lru s)" by (simp add: caches_def)
  with c obtain d where d: "List.find (\<lambda>b. bdev (getb s b) = 1 \<and> sector (getb s b) = k) (lru s) = Some d"
    by (cases "List.find (\<lambda>b. bdev (getb s b) = 1 \<and> sector (getb s b) = k) (lru s)")
      (auto simp: find_None_iff caches_def)
  then have "d \<in> set (lru s)" "bdev (getb s d) = 1 \<and> sector (getb s d) = k"
    by (auto simp: find_Some_iff)
  with bio_inv_lru [OF assms] have "caches s d k" by (simp add: caches_def)
  with c assms have "d = b" by (blast intro: caches_unique)
  with d show "List.find (\<lambda>b. bdev (getb s b) = 1 \<and> sector (getb s b) = k) (lru s) = Some b" by simp
qed

lemma find_lru_None:
  assumes "bio_inv s"
  shows "List.find (\<lambda>b. bdev (getb s b) = 1 \<and> sector (getb s b) = k) (lru s) = None \<longleftrightarrow> \<not> cached s k"
proof -
  have "cached s k \<longleftrightarrow> (\<exists>b. List.find (\<lambda>b. bdev (getb s b) = 1 \<and> sector (getb s b) = k) (lru s) = Some b)"
    using find_lru_caches [OF assms] by (auto simp: cached_def caches_def)
  then show ?thesis by (metis not_None_eq)
qed

lemma find_victim:
  assumes "bio_inv s"
    and "List.find (\<lambda>b. B_BUSY \<notin> flags (getb s b) \<and> B_DIRTY \<notin> flags (getb s b)) (rev (lru s)) = Some b"
  shows "reusable s b"
proof -
  have "b \<in> set (rev (lru s))" "B_BUSY \<notin> flags (getb s b) \<and> B_DIRTY \<notin> flags (getb s b)"
    using assms(2) by (auto simp: find_Some_iff in_set_conv_nth simp del: set_rev) 
  with bio_inv_lru [OF assms(1)] show ?thesis by (simp add: reusable_def)
qed

lemma find_victim_None:
  assumes "bio_inv s"
  shows "List.find (\<lambda>b. B_BUSY \<notin> flags (getb s b) \<and> B_DIRTY \<notin> flags (getb s b)) (rev (lru s)) = None \<longleftrightarrow>
    (\<nexists>b. reusable s b)"
  using bio_inv_lru [OF assms] by (auto simp: find_None_iff reusable_def)

definition busy_copy :: "'a bio_scheme \<Rightarrow> nat \<Rightarrow> buf" where
  "busy_copy s b = (getb s b)\<lparr>flags := insert B_BUSY (flags (getb s b))\<rparr>"

definition fresh_copy :: "'a bio_scheme \<Rightarrow> nat \<Rightarrow> buf" where
  "fresh_copy s k = \<lparr>flags = {B_BUSY, B_VALID}, bdev = 1, sector = k, bdata = memdisk s k\<rparr>"

text \<open>\<^verbatim>\<open>bread\<close> on disk 1, case by case: a hit, a hit on a buffer in use, a miss, and a miss with no
  buffer to recycle.\<close>

lemma bread_hit:
  assumes "bio_inv s" and "caches s b k" and "B_BUSY \<notin> flags (getb s b)"
  shows "bread 1 k s = Ok b (setb b (busy_copy s b) s)"
proof -
  have "b < length (bufs s)" using assms by (simp add: caches_def)
  then show ?thesis
    using assms find_lru_caches [OF assms(1), of k b] caches_valid [OF assms(1,2)]
    by (simp add: bread_def bget_def busy_copy_def getb_setb)
qed

lemma bread_busy:
  assumes "bio_inv s" and "caches s b k" and "B_BUSY \<in> flags (getb s b)"
  shows "bread 1 k s = Sleep (ChBuf b) s"
  using assms find_lru_caches [OF assms(1), of k b] by (simp add: bread_def bget_def)

lemma bread_miss:
  assumes "bio_inv s" and "\<not> cached s k" and "\<exists>b. reusable s b"
  shows "\<exists>b. reusable s b \<and>
    bread 1 k s = (if k < disksize s then Ok b (setb b (fresh_copy s k) s)
                   else Panic ''iderw: sector out of range'')"
proof -
  obtain b where b: "List.find (\<lambda>b. B_BUSY \<notin> flags (getb s b) \<and> B_DIRTY \<notin> flags (getb s b)) (rev (lru s)) = Some b"
    using assms(3) find_victim_None [OF assms(1)] by auto
  have r: "reusable s b" using find_victim [OF assms(1) b] .
  then have "b < length (bufs s)" using assms(1) by (simp add: reusable_def)
  moreover have "List.find (\<lambda>b. bdev (getb s b) = 1 \<and> sector (getb s b) = k) (lru s) = None"
    using find_lru_None [OF assms(1), of k] assms(2) by simp
  ultimately have "bread 1 k s = (if k < disksize s then Ok b (setb b (fresh_copy s k) s)
                   else Panic ''iderw: sector out of range'')"
    using b by (simp add: bread_def bget_def iderw_def Let_def getb_setb fresh_copy_def insert_commute
        buf_all_updated)
  with r show ?thesis by blast
qed

lemma bread_no_buffers:
  assumes "bio_inv s" and "\<not> cached s k" and "\<nexists>b. reusable s b"
  shows "bread 1 k s = Panic ''bget: no buffers''"
proof -
  have "List.find (\<lambda>b. bdev (getb s b) = 1 \<and> sector (getb s b) = k) (lru s) = None"
    using find_lru_None [OF assms(1), of k] assms(2) by simp
  then show ?thesis
    using find_victim_None [OF assms(1)] assms(3) by (simp add: bread_def bget_def)
qed

lemma bread_cases:
  assumes inv: "bio_inv s" and ok: "bread 1 k s = Ok b t"
  obtains (hit) "caches s b k" "B_BUSY \<notin> flags (getb s b)" "t = setb b (busy_copy s b) s"
    | (miss) "\<not> cached s k" "reusable s b" "k < disksize s" "t = setb b (fresh_copy s k) s"
proof (cases "cached s k")
  case True
  then obtain c where c: "caches s c k" by (auto elim: cachedE)
  show thesis
  proof (cases "B_BUSY \<in> flags (getb s c)")
    case True
    with bread_busy [OF inv c] ok show ?thesis by simp
  next
    case False
    with bread_hit [OF inv c] ok have "b = c" "t = setb b (busy_copy s b) s" by auto
    with c False hit show ?thesis by simp
  qed
next
  case False
  then have ex: "\<exists>b. reusable s b"
    using bread_no_buffers [OF inv, of k] ok by fastforce
  from bread_miss [OF inv False ex] ok miss [OF False] show ?thesis
    by (auto split: if_splits)
qed

lemma bread_spec:
  assumes inv: "bio_inv s" and ok: "bread 1 k s = Ok b t"
  shows "bio_inv t" and "bview t = bview s" and "caches t b k" and "B_BUSY \<in> flags (getb t b)"
    and "bdata (getb t b) = bview s k"
proof -
  have "bio_inv t \<and> bview t = bview s \<and> caches t b k \<and> B_BUSY \<in> flags (getb t b) \<and> bdata (getb t b) = bview s k"
    using inv ok
  proof (cases rule: bread_cases)
    case hit
    then have b: "b < NBUF" and d1: "bdev (busy_copy s b) = 1" and sec: "sector (busy_copy s b) = k"
      by (simp_all add: caches_def busy_copy_def)
    have inv': "bio_inv (setb b (busy_copy s b) s)"
      using hit b d1 sec caches_valid [OF inv hit(1)] bio_inv_data [OF inv b] caches_unique [OF inv]
      by (intro bio_inv_setb [OF inv]) (auto simp: busy_copy_def)
    moreover have "bview (setb b (busy_copy s b) s) = bview s"
      using bview_setb [OF inv b d1 inv'] sec bview_caches [OF inv hit(1)] hit(1)
      by (auto simp: fun_eq_iff busy_copy_def caches_def)
    ultimately show ?thesis
      using hit b d1 sec inv bview_caches [OF inv hit(1)]
      by (simp add: caches_setb getb_setb) (simp add: busy_copy_def)
  next
    case miss
    then have b: "b < NBUF" by (simp add: reusable_def)
    have d1: "bdev (fresh_copy s k) = 1" and sec: "sector (fresh_copy s k) = k" by (simp_all add: fresh_copy_def)
    have inv': "bio_inv (setb b (fresh_copy s k) s)"
      using miss b caches_cached bio_inv_block [OF inv]
      by (intro bio_inv_setb [OF inv]) (auto simp: fresh_copy_def)
    moreover have "bview (setb b (fresh_copy s k) s) = bview s"
    proof
      fix j
      show "bview (setb b (fresh_copy s k) s) j = bview s j"
        using bview_setb [OF inv b d1 inv', of j] sec bview_not_cached [OF inv miss(1)] miss(2)
          bview_caches [OF inv, of b j] caches_clean [OF inv, of b j]
        by (auto simp: fresh_copy_def reusable_def)
    qed
    ultimately show ?thesis
      using miss b d1 sec inv bview_not_cached [OF inv miss(1)]
      by (simp add: caches_setb getb_setb) (simp add: fresh_copy_def)
  qed
  then show "bio_inv t" and "bview t = bview s" and "caches t b k" and "B_BUSY \<in> flags (getb t b)"
    and "bdata (getb t b) = bview s k" by auto
qed

lemma bread_total:
  assumes "bio_inv s"
    and "(\<exists>b. caches s b k \<and> B_BUSY \<notin> flags (getb s b)) \<or>
         (\<not> cached s k \<and> k < disksize s \<and> (\<exists>b. reusable s b))"
  shows "\<exists>b t. bread 1 k s = Ok b t"
  using assms bread_hit bread_miss by fastforce

lemma bread_other:
  assumes "bio_inv s" and "bread 1 k s = Ok b t" and "c \<noteq> b"
  shows "getb t c = getb s c"
  using assms(1,2)
proof (cases rule: bread_cases)
  case hit
  with assms show ?thesis by (simp add: getb_setb caches_def)
next
  case miss
  with assms show ?thesis by (simp add: getb_setb reusable_def)
qed

text \<open>What \<^verbatim>\<open>bread\<close> leaves alone: everything but one buffer.\<close>

lemma bread_frame:
  assumes "bio_inv s" and "bread 1 k s = Ok b t"
  shows "\<exists>x. t = setb b x s"
  using assms by (cases rule: bread_cases) auto

subsection \<open>bwrite, brelse and changes to held buffers\<close>

lemma bwrite_eq:
  assumes "bio_inv s" and "caches s b k" and "B_BUSY \<in> flags (getb s b)"
  shows "bwrite b s =
    Ok () (setb b ((getb s b)\<lparr>flags := flags (getb s b) - {B_DIRTY}\<rparr>)
      (s\<lparr>memdisk := (memdisk s)(k := bdata (getb s b)), diskops := diskops s @ [(k, bdata (getb s b))]\<rparr>))"
proof -
  have b: "b < length (bufs s)" using assms by (simp add: caches_def)
  have k: "bdev (getb s b) = 1" "sector (getb s b) = k" using assms(2) by (simp_all add: caches_def)
  have v: "B_VALID \<in> flags (getb s b)" "k < disksize s" using caches_valid [OF assms(1,2)] by auto
  have f: "insert B_VALID (insert B_DIRTY (flags (getb s b)) - {B_DIRTY}) = flags (getb s b) - {B_DIRTY}"
    using v(1) by auto
  show ?thesis
    using assms(3) b k v f
    by (simp add: bwrite_def iderw_def Let_def getb_setb) (simp add: setb_def)
qed

lemma bio_inv_memdisk:
  assumes inv: "bio_inv s" and len: "length d = BSIZE"
    and c: "\<And>b. caches s b k \<Longrightarrow> B_BUSY \<in> flags (getb s b) \<or> B_DIRTY \<in> flags (getb s b) \<or> bdata (getb s b) = d"
  shows "bio_inv (s\<lparr>memdisk := (memdisk s)(k := d), diskops := t\<rparr>)"
proof -
  have eq: "caches (s\<lparr>memdisk := (memdisk s)(k := d), diskops := t\<rparr>) = caches s"
    by (simp add: caches_def fun_eq_iff)
  show ?thesis
    using inv len c unfolding bio_inv_def eq by (simp add: getb_def) metis
qed

lemma bwrite_spec:
  assumes inv: "bio_inv s" and c: "caches s b k" and busy: "B_BUSY \<in> flags (getb s b)" and ok: "bwrite b s = Ok u t"
  shows "bio_inv t" and "bview t = bview s" and "memdisk t = (memdisk s)(k := bdata (getb s b))"
    and "diskops t = diskops s @ [(k, bdata (getb s b))]" and "caches t = caches s"
    and "getb t b = (getb s b)\<lparr>flags := flags (getb s b) - {B_DIRTY}\<rparr>"
    and "\<And>c. c \<noteq> b \<Longrightarrow> getb t c = getb s c"
proof -
  let ?x = "(getb s b)\<lparr>flags := flags (getb s b) - {B_DIRTY}\<rparr>"
  let ?u = "s\<lparr>memdisk := (memdisk s)(k := bdata (getb s b)), diskops := diskops s @ [(k, bdata (getb s b))]\<rparr>"
  have b: "b < NBUF" "bdev (getb s b) = 1" "sector (getb s b) = k" using c by (simp_all add: caches_def)
  have t: "t = setb b ?x ?u" using ok bwrite_eq [OF inv c busy] by simp
  have cu: "caches ?u = caches s" by (simp add: caches_def fun_eq_iff)
  have invu: "bio_inv ?u"
    using busy caches_unique [OF inv c] bio_inv_data [OF inv b(1)] by (intro bio_inv_memdisk [OF inv]) auto
  show inv': "bio_inv t"
    unfolding t using b caches_valid [OF inv c] bio_inv_data [OF inv b(1)] caches_unique [OF inv c] busy
    by (intro bio_inv_setb [OF invu]) (auto simp: cu)
  show ct: "caches t = caches s"
    using b inv cu by (auto simp: t fun_eq_iff caches_setb bio_inv_length [OF invu]) (simp_all add: caches_def)
  show "bview t = bview s"
  proof
    fix j
    have b1: "bdev ?x = 1" using b(2) by simp
    have "bview ?u j = bview s j" if "j \<noteq> k"
      using that by (simp add: bview_def split: option.splits)
    moreover have "caches s b j \<Longrightarrow> j = k" using b(3) by (simp add: caches_def)
    ultimately show "bview t j = bview s j"
      using bview_setb [OF invu b(1) b1 inv' [unfolded t], of j] bview_caches [OF inv c] b(3)
      by (auto simp: t cu)
  qed
  show "memdisk t = (memdisk s)(k := bdata (getb s b))"
    and "diskops t = diskops s @ [(k, bdata (getb s b))]" by (simp_all add: t)
  show "getb t b = ?x" and "\<And>c. c \<noteq> b \<Longrightarrow> getb t c = getb s c"
    using b(1) inv by (simp_all add: t getb_setb)
qed

lemma caches_frame [simp]:
  "caches (s\<lparr>lru := l\<rparr>) = caches s" "caches (wakeup c s) = caches s"
  by (simp_all add: caches_def fun_eq_iff)

lemma bview_frame [simp]:
  "bview (s\<lparr>lru := l\<rparr>) = bview s" "bview (wakeup c s) = bview s"
  by (simp_all add: bview_def fun_eq_iff split: option.split)

lemma bio_inv_wakeup [simp]: "bio_inv (wakeup c s) = bio_inv s"
  by (simp add: bio_inv_def)

lemma bio_inv_lru_upd: "bio_inv s \<Longrightarrow> distinct l \<Longrightarrow> set l = {..<NBUF} \<Longrightarrow> bio_inv (s\<lparr>lru := l\<rparr>)"
  by (simp add: bio_inv_def)

lemma brelse_eq:
  "B_BUSY \<in> flags (getb s b) \<Longrightarrow>
   brelse b s = Ok () (wakeup (ChBuf b) (setb b ((getb s b)\<lparr>flags := flags (getb s b) - {B_BUSY}\<rparr>)
                  (s\<lparr>lru := b # remove1 b (lru s)\<rparr>)))"
  by (simp add: brelse_def)

lemma brelse_spec:
  assumes inv: "bio_inv s" and c: "caches s b k" and busy: "B_BUSY \<in> flags (getb s b)"
    and clean: "B_DIRTY \<in> flags (getb s b) \<or> bdata (getb s b) = memdisk s k"
    and ok: "brelse b s = Ok u t"
  shows "bio_inv t" and "bview t = bview s" and "memdisk t = memdisk s" and "diskops t = diskops s"
    and "caches t = caches s"
    and "getb t b = (getb s b)\<lparr>flags := flags (getb s b) - {B_BUSY}\<rparr>"
    and "\<And>c. c \<noteq> b \<Longrightarrow> getb t c = getb s c"
proof -
  let ?x = "(getb s b)\<lparr>flags := flags (getb s b) - {B_BUSY}\<rparr>" and ?u = "s\<lparr>lru := b # remove1 b (lru s)\<rparr>"
  have b: "b < NBUF" "bdev (getb s b) = 1" "sector (getb s b) = k" using c by (simp_all add: caches_def)
  have t: "t = wakeup (ChBuf b) (setb b ?x ?u)" using ok brelse_eq [OF busy] by simp
  have invu: "bio_inv ?u"
    using bio_inv_lru [OF inv] b(1) by (intro bio_inv_lru_upd [OF inv]) auto
  have invx: "bio_inv (setb b ?x ?u)"
    using b caches_valid [OF inv c] bio_inv_data [OF inv b(1)] caches_unique [OF inv c] clean
    by (intro bio_inv_setb [OF invu]) auto
  then show "bio_inv t" by (simp add: t)
  show "caches t = caches s"
    using b inv by (auto simp: t fun_eq_iff caches_setb) (simp_all add: caches_def)
  have b1: "bdev ?x = 1" using b(2) by simp
  show "bview t = bview s"
  proof
    fix j
    have "caches s b j \<Longrightarrow> j = k" using b(3) by (simp add: caches_def)
    then show "bview t j = bview s j"
      using bview_setb [OF invu b(1) b1 invx, of j] bview_caches [OF inv c] b(3) by (auto simp: t)
  qed
  show "memdisk t = memdisk s" and "diskops t = diskops s" by (simp_all add: t)
  show "getb t b = ?x" and "\<And>c. c \<noteq> b \<Longrightarrow> getb t c = getb s c"
    using b(1) inv by (simp_all add: t getb_setb)
qed

lemma brelse_Ok: "B_BUSY \<in> flags (getb s b) \<Longrightarrow> \<exists>t. brelse b s = Ok () t"
  by (simp add: brelse_eq)

lemma bmodify_spec:
  assumes inv: "bio_inv s" and c: "caches s b k" and busy: "B_BUSY \<in> flags (getb s b)"
    and len: "length (f (bdata (getb s b))) = BSIZE"
  shows "bio_inv (bmodify b f s)" and "bview (bmodify b f s) = (bview s)(k := f (bview s k))"
    and "caches (bmodify b f s) = caches s"
    and "getb (bmodify b f s) b = (getb s b)\<lparr>bdata := f (bdata (getb s b))\<rparr>"
    and "\<And>c. c \<noteq> b \<Longrightarrow> getb (bmodify b f s) c = getb s c"
proof -
  let ?x = "(getb s b)\<lparr>bdata := f (bdata (getb s b))\<rparr>"
  have b: "b < NBUF" "bdev (getb s b) = 1" "sector (getb s b) = k" using c by (simp_all add: caches_def)
  show inv': "bio_inv (bmodify b f s)"
    unfolding bmodify_def using b caches_valid [OF inv c] caches_unique [OF inv c] busy len
    by (intro bio_inv_setb [OF inv]) auto
  have b1: "bdev ?x = 1" using b(2) by simp
  show "bview (bmodify b f s) = (bview s)(k := f (bview s k))"
  proof
    fix j
    have "caches s b j \<Longrightarrow> j = k" using b(3) by (simp add: caches_def)
    then show "bview (bmodify b f s) j = ((bview s)(k := f (bview s k))) j"
      using bview_setb [OF inv b(1) b1 inv' [unfolded bmodify_def], of j] bview_caches [OF inv c] b(3)
      by (auto simp: bmodify_def)
  qed
  show "caches (bmodify b f s) = caches s"
    using b inv by (auto simp: bmodify_def fun_eq_iff caches_setb) (simp_all add: caches_def)
  show "getb (bmodify b f s) b = ?x" and "\<And>c. c \<noteq> b \<Longrightarrow> getb (bmodify b f s) c = getb s c"
    using b(1) inv by (simp_all add: bmodify_def getb_setb)
qed

subsection \<open>The interface in terms of sectors\<close>

text \<open>
  Callers hold a buffer between \<^verbatim>\<open>bread\<close> and \<^verbatim>\<open>brelse\<close>. Which sectors are held and which are dirty is
  all they need to know of the flags; at most \<open>NBUF\<close> sectors can be held or dirty at a time.
\<close>

definition holds :: "'a bio_scheme \<Rightarrow> nat \<Rightarrow> nat \<Rightarrow> bool" where
  "holds s b k \<longleftrightarrow> caches s b k \<and> B_BUSY \<in> flags (getb s b)"

definition held :: "'a bio_scheme \<Rightarrow> nat set" where
  "held s = {k. \<exists>b. holds s b k}"

definition dirty :: "'a bio_scheme \<Rightarrow> nat set" where
  "dirty s = {k. \<exists>b. caches s b k \<and> B_DIRTY \<in> flags (getb s b)}"

lemma holds_frame [simp]: "holds (wakeup c s) = holds s" "held (wakeup c s) = held s" "dirty (wakeup c s) = dirty s"
  by (simp_all add: holds_def held_def dirty_def fun_eq_iff)

lemma holds_caches: "holds s b k \<Longrightarrow> caches s b k"
  by (simp add: holds_def)

lemma holds_data: "bio_inv s \<Longrightarrow> holds s b k \<Longrightarrow> bdata (getb s b) = bview s k"
  unfolding holds_def by (metis bview_caches)

lemma holds_sector: "holds s b k \<Longrightarrow> sector (getb s b) = k \<and> bdev (getb s b) = 1"
  by (simp add: holds_def caches_def)

lemma holds_length: "bio_inv s \<Longrightarrow> holds s b k \<Longrightarrow> length (bview s k) = BSIZE"
  using bview_caches bio_inv_data by (metis holds_def caches_def)

lemma holds_disk: "bio_inv s \<Longrightarrow> holds s b k \<Longrightarrow> k < disksize s"
  by (auto simp: holds_def dest: caches_valid)

lemma holds_unique: "holds s b j \<Longrightarrow> holds s b k \<Longrightarrow> j = k"
  by (simp add: holds_def caches_def)

lemma bview_length: "bio_inv s \<Longrightarrow> length (bview s k) = BSIZE"
  using bio_inv_block bio_inv_data bview_caches bview_not_cached by (metis cachedE caches_def)

lemma bview_clean:
  assumes "bio_inv s" and "k \<notin> dirty s" and "k \<notin> held s"
  shows "bview s k = memdisk s k"
proof (cases "cached s k")
  case True
  then obtain b where b: "caches s b k" by (auto elim: cachedE)
  with assms(2,3) have "B_DIRTY \<notin> flags (getb s b)" "B_BUSY \<notin> flags (getb s b)"
    by (auto simp: dirty_def held_def holds_def)
  with b assms(1) show ?thesis by (simp add: bview_caches caches_clean)
qed (use assms(1) bview_not_cached in blast)

lemma room_reusable:
  assumes inv: "bio_inv s" and room: "card (held s \<union> dirty s) < NBUF"
  shows "\<exists>b. reusable s b"
proof (rule ccontr)
  assume none: "\<nexists>b. reusable s b"
  have in_use: "caches s b (sector (getb s b)) \<and> sector (getb s b) \<in> held s \<union> dirty s" if "b < NBUF" for b
  proof -
    from none that have fl: "B_BUSY \<in> flags (getb s b) \<or> B_DIRTY \<in> flags (getb s b)"
      by (auto simp: reusable_def)
    with bio_inv_dev [OF inv that] have "bdev (getb s b) = 1" by auto
    with that have "caches s b (sector (getb s b))" by (simp add: caches_def)
    with fl show ?thesis by (auto simp: held_def holds_def dirty_def)
  qed
  have "inj_on (\<lambda>b. sector (getb s b)) {..<NBUF}"
    by (rule inj_onI) (metis in_use caches_unique [OF inv] lessThan_iff)
  moreover have "(\<lambda>b. sector (getb s b)) ` {..<NBUF} \<subseteq> held s \<union> dirty s" using in_use by auto
  moreover have "finite (held s \<union> dirty s)"
  proof (rule finite_subset)
    show "held s \<union> dirty s \<subseteq> (\<lambda>b. sector (getb s b)) ` {..<NBUF}"
      by (auto simp: held_def dirty_def holds_def caches_def)
  qed simp
  ultimately have "NBUF \<le> card (held s \<union> dirty s)"
    by (metis card_image card_lessThan card_mono)
  with room show False by simp
qed

lemma finite_in_use: "finite (held s)" "finite (dirty s)"
proof -
  have "held s \<subseteq> (\<lambda>b. sector (getb s b)) ` {..<NBUF}" "dirty s \<subseteq> (\<lambda>b. sector (getb s b)) ` {..<NBUF}"
    by (auto simp: held_def dirty_def holds_def caches_def)
  then show "finite (held s)" "finite (dirty s)" by (auto intro: finite_subset)
qed

lemma bread_ok:
  assumes inv: "bio_inv s" and "k < disksize s" and "k \<notin> held s"
    and "k \<in> dirty s \<or> card (held s \<union> dirty s) < NBUF"
  shows "\<exists>b t. bread 1 k s = Ok b t"
proof (cases "cached s k")
  case True
  then obtain b where b: "caches s b k" by (auto elim: cachedE)
  with assms(3) have "B_BUSY \<notin> flags (getb s b)" by (auto simp: held_def holds_def)
  with bread_hit [OF inv b] show ?thesis by blast
next
  case False
  then have "k \<notin> dirty s" by (auto simp: dirty_def dest: caches_cached)
  with assms False show ?thesis using room_reusable by (blast intro: bread_total)
qed

lemma bread_sectors:
  assumes inv: "bio_inv s" and ok: "bread 1 k s = Ok b t"
  shows "holds t b k" and "\<And>c j. holds s c j \<Longrightarrow> c \<noteq> b \<and> holds t c j"
    and "held t = insert k (held s)" and "dirty t = dirty s" and "k \<notin> held s" and "k < disksize s"
proof -
  note spec = bread_spec [OF inv ok]
  show hb: "holds t b k" using spec by (simp add: holds_def)
  have free: "B_BUSY \<notin> flags (getb s b)"
    using inv ok by (cases rule: bread_cases) (auto simp: reusable_def)
  have other: "c \<noteq> b \<Longrightarrow> getb t c = getb s c" for c using bread_other [OF inv ok] .
  then have oc: "c \<noteq> b \<Longrightarrow> caches t c j = caches s c j" for c j by (simp add: caches_def)
  show keep: "c \<noteq> b \<and> holds t c j" if "holds s c j" for c j
    using that free other oc by (metis holds_def)
  show "held t = insert k (held s)"
  proof
    show "held t \<subseteq> insert k (held s)"
    proof
      fix j assume "j \<in> held t"
      then obtain c where c: "holds t c j" by (auto simp: held_def)
      show "j \<in> insert k (held s)"
      proof (cases "c = b")
        case True
        with c hb holds_unique show ?thesis by blast
      next
        case False
        with c other oc show ?thesis by (auto simp: held_def holds_def)
      qed
    qed
    show "insert k (held s) \<subseteq> held t" using hb keep by (auto simp: held_def)
  qed
  show "k \<notin> held s"
  proof
    assume "k \<in> held s"
    then obtain c where "holds s c k" by (auto simp: held_def)
    with keep have "c \<noteq> b" "holds t c k" by auto
    with hb spec(1) show False by (metis holds_def caches_unique)
  qed
  show "k < disksize s" using inv ok caches_valid [OF inv] by (cases rule: bread_cases) auto
  show "dirty t = dirty s"
    using inv ok
  proof (cases rule: bread_cases)
    case hit
    then have "getb t b = busy_copy s b" using inv by (simp add: getb_setb caches_def)
    moreover have "caches t b j = caches s b j" for j using calculation by (simp add: caches_def busy_copy_def)
    ultimately have "caches t c j \<and> B_DIRTY \<in> flags (getb t c) \<longleftrightarrow> caches s c j \<and> B_DIRTY \<in> flags (getb s c)" for c j
      using other oc by (cases "c = b") (auto simp: busy_copy_def)
    then show ?thesis by (simp add: dirty_def)
  next
    case miss
    then have "getb t b = fresh_copy s k" using inv by (simp add: getb_setb reusable_def)
    then have "caches t c j \<and> B_DIRTY \<in> flags (getb t c) \<longleftrightarrow> caches s c j \<and> B_DIRTY \<in> flags (getb s c)" for c j
      using other oc miss(2) by (cases "c = b") (auto simp: fresh_copy_def reusable_def)
    then show ?thesis by (simp add: dirty_def)
  qed
qed

text \<open>The part of the state outside the cache and the disk, which the buffer cache leaves alone.\<close>

definition same_rest :: "'a bio_scheme \<Rightarrow> 'a bio_scheme \<Rightarrow> bool" where
  "same_rest s t \<longleftrightarrow> disksize t = disksize s \<and> bio.more t = bio.more s"

lemma same_rest_refl [simp]: "same_rest s s"
  by (simp add: same_rest_def)

lemma same_rest_trans [trans]: "same_rest s t \<Longrightarrow> same_rest t u \<Longrightarrow> same_rest s u"
  by (simp add: same_rest_def)

lemma bread_rest:
  assumes "bio_inv s" and "bread 1 k s = Ok b t"
  shows "memdisk t = memdisk s" and "diskops t = diskops s" and "same_rest s t"
  using bread_frame [OF assms] by (auto simp: same_rest_def)

lemma bwrite_sectors:
  assumes inv: "bio_inv s" and h: "holds s b k"
  obtains t where "bwrite b s = Ok () t" "bio_inv t" "bview t = bview s" "memdisk t = (memdisk s)(k := bview s k)"
    "diskops t = diskops s @ [(k, bview s k)]" "holds t = holds s" "held t = held s" "dirty t = dirty s - {k}" "same_rest s t"
proof -
  have c: "caches s b k" and busy: "B_BUSY \<in> flags (getb s b)" using h by (simp_all add: holds_def)
  obtain t where t: "bwrite b s = Ok () t" using bwrite_eq [OF inv c busy] by simp
  note spec = bwrite_spec [OF inv c busy t] and data = holds_data [OF inv h]
  have fl: "flags (getb t c) = flags (getb s c) - (if c = b then {B_DIRTY} else {})" for c
    using spec(6,7) by simp
  have hold: "holds t = holds s" using fl by (auto simp: holds_def fun_eq_iff spec(5))
  have dirt: "dirty t = dirty s - {k}"
  proof -
    have "B_DIRTY \<in> flags (getb t d) \<longleftrightarrow> d \<noteq> b \<and> B_DIRTY \<in> flags (getb s d)" for d by (simp add: fl)
    moreover have "caches s d k \<longleftrightarrow> d = b" for d using caches_unique [OF inv c] c by blast
    moreover have "caches s b j \<longleftrightarrow> j = k" for j using c by (auto simp: caches_def)
    ultimately show ?thesis unfolding dirty_def spec(5) by blast
  qed
  have rest: "same_rest s t" using t bwrite_eq [OF inv c busy] by (auto simp: same_rest_def)
  have hld: "held t = held s" by (simp add: held_def hold)
  show thesis
    by (rule that [OF t spec(1,2) spec(3,4) [unfolded data] hold hld dirt rest])
qed

lemma brelse_sectors:
  assumes inv: "bio_inv s" and h: "holds s b k" and clean: "k \<in> dirty s \<or> bview s k = memdisk s k"
  obtains t where "brelse b s = Ok () t" "bio_inv t" "bview t = bview s" "memdisk t = memdisk s"
    "diskops t = diskops s" "\<And>c j. holds t c j \<longleftrightarrow> holds s c j \<and> c \<noteq> b" "held t = held s - {k}" "dirty t = dirty s"
    "same_rest s t"
proof -
  have c: "caches s b k" and busy: "B_BUSY \<in> flags (getb s b)" using h by (simp_all add: holds_def)
  have clean': "B_DIRTY \<in> flags (getb s b) \<or> bdata (getb s b) = memdisk s k"
    using clean
  proof
    assume "k \<in> dirty s"
    then obtain d where "caches s d k" "B_DIRTY \<in> flags (getb s d)" by (auto simp: dirty_def)
    with caches_unique [OF inv c] show ?thesis by blast
  qed (simp add: holds_data [OF inv h])
  obtain t where t: "brelse b s = Ok () t" using brelse_Ok [OF busy] by blast
  note spec = brelse_spec [OF inv c busy clean' t]
  have fl: "flags (getb t c) = flags (getb s c) - (if c = b then {B_BUSY} else {})" for c
    using spec(6,7) by simp
  have hold: "holds t c j \<longleftrightarrow> holds s c j \<and> c \<noteq> b" for c j using fl by (auto simp: holds_def spec(5))
  have hld: "held t = held s - {k}"
  proof -
    have "holds s d k \<longleftrightarrow> d = b" for d using caches_unique [OF inv c] h by (auto simp: holds_def)
    moreover have "holds s b j \<longleftrightarrow> j = k" for j using h holds_unique by blast
    ultimately show ?thesis unfolding held_def hold by blast
  qed
  have dirt: "dirty t = dirty s"
  proof -
    have "B_DIRTY \<in> flags (getb t d) \<longleftrightarrow> B_DIRTY \<in> flags (getb s d)" for d by (simp add: fl)
    then show ?thesis unfolding dirty_def spec(5) by blast
  qed
  have rest: "same_rest s t" using t brelse_eq [OF busy] by (auto simp: same_rest_def)
  show thesis
    by (rule that [OF t spec(1,2,3,4) hold hld dirt rest])
qed

lemma bmodify_sectors:
  assumes inv: "bio_inv s" and h: "holds s b k" and len: "length (f (bview s k)) = BSIZE"
  shows "bio_inv (bmodify b f s)" and "bview (bmodify b f s) = (bview s)(k := f (bview s k))"
    and "holds (bmodify b f s) = holds s" and "held (bmodify b f s) = held s" and "dirty (bmodify b f s) = dirty s"
    and "memdisk (bmodify b f s) = memdisk s" and "diskops (bmodify b f s) = diskops s" and "same_rest s (bmodify b f s)"
proof -
  have c: "caches s b k" and busy: "B_BUSY \<in> flags (getb s b)" using h by (simp_all add: holds_def)
  have len': "length (f (bdata (getb s b))) = BSIZE" using len holds_data [OF inv h] by simp
  note spec = bmodify_spec [of s b k f, OF inv c busy len']
  show "bio_inv (bmodify b f s)" "bview (bmodify b f s) = (bview s)(k := f (bview s k))" by (fact spec)+
  have fl: "flags (getb (bmodify b f s) c) = flags (getb s c)" for c using spec(4) spec(5) [of c] by (cases "c = b") simp_all
  show hold: "holds (bmodify b f s) = holds s" by (simp add: holds_def fun_eq_iff fl spec(3))
  then show "held (bmodify b f s) = held s" by (simp add: held_def)
  show "dirty (bmodify b f s) = dirty s" by (simp add: dirty_def fl spec(3))
  show "memdisk (bmodify b f s) = memdisk s" "diskops (bmodify b f s) = diskops s" "same_rest s (bmodify b f s)"
    by (simp_all add: bmodify_def same_rest_def)
qed

text \<open>Marking a held buffer dirty, as \<^verbatim>\<open>log_write\<close> does.\<close>

definition mark_dirty :: "nat \<Rightarrow> 'a bio_scheme \<Rightarrow> 'a bio_scheme" where
  "mark_dirty b s = setb b ((getb s b)\<lparr>flags := insert B_DIRTY (flags (getb s b))\<rparr>) s"

lemma mark_dirty_sectors:
  assumes inv: "bio_inv s" and h: "holds s b k"
  shows "bio_inv (mark_dirty b s)" and "bview (mark_dirty b s) = bview s"
    and "holds (mark_dirty b s) = holds s" and "held (mark_dirty b s) = held s"
    and "dirty (mark_dirty b s) = insert k (dirty s)"
    and "memdisk (mark_dirty b s) = memdisk s" and "diskops (mark_dirty b s) = diskops s" and "same_rest s (mark_dirty b s)"
proof -
  have c: "caches s b k" and busy: "B_BUSY \<in> flags (getb s b)" using h by (simp_all add: holds_def)
  let ?x = "(getb s b)\<lparr>flags := insert B_DIRTY (flags (getb s b))\<rparr>"
  have b: "b < NBUF" "bdev (getb s b) = 1" "sector (getb s b) = k" using c by (simp_all add: caches_def)
  show inv': "bio_inv (mark_dirty b s)"
    unfolding mark_dirty_def using b caches_valid [OF inv c] caches_unique [OF inv c] bio_inv_data [OF inv b(1)]
    by (intro bio_inv_setb [OF inv]) auto
  have g: "getb (mark_dirty b s) c = (if c = b then ?x else getb s c)" for c
    using b inv by (simp add: mark_dirty_def getb_setb)
  have cc: "caches (mark_dirty b s) = caches s" using g by (auto simp: caches_def fun_eq_iff)
  have "bview (mark_dirty b s) j = bview s j" for j
    using bview_setb [OF inv b(1), of ?x j] inv' b bview_caches [OF inv c]
    by (auto simp: mark_dirty_def caches_def)
  then show "bview (mark_dirty b s) = bview s" by blast
  show hold: "holds (mark_dirty b s) = holds s" using g by (auto simp: holds_def fun_eq_iff cc)
  then show "held (mark_dirty b s) = held s" by (simp add: held_def)
  show "dirty (mark_dirty b s) = insert k (dirty s)"
  proof -
    have fl: "B_DIRTY \<in> flags (getb (mark_dirty b s) d) \<longleftrightarrow> d = b \<or> B_DIRTY \<in> flags (getb s d)" for d
      by (simp add: g)
    have cb: "caches s b j \<longleftrightarrow> j = k" for j using c by (auto simp: caches_def)
    have "dirty (mark_dirty b s) = {j. \<exists>d. caches s d j \<and> (d = b \<or> B_DIRTY \<in> flags (getb s d))}"
      by (simp only: dirty_def cc fl)
    also have "\<dots> = insert k (dirty s)" using c cb by (auto simp: dirty_def)
    finally show ?thesis .
  qed
  show "memdisk (mark_dirty b s) = memdisk s" "diskops (mark_dirty b s) = diskops s" "same_rest s (mark_dirty b s)"
    by (simp_all add: mark_dirty_def same_rest_def)
qed

text \<open>The initial cache.\<close>

lemma binit_eq:
  "length (bufs s) = NBUF \<Longrightarrow>
   binit s = s\<lparr>lru := rev [0..<NBUF], bufs := map (\<lambda>x. x\<lparr>bdev := NODEV\<rparr>) (bufs s)\<rparr>"
proof -
  assume len: "length (bufs s) = NBUF"
  have "n \<le> NBUF \<Longrightarrow>
    fold (\<lambda>b s. s\<lparr>lru := b # lru s, bufs := (bufs s)[b := (bufs s ! b)\<lparr>bdev := NODEV\<rparr>]\<rparr>) [0..<n] (s\<lparr>lru := []\<rparr>)
      = s\<lparr>lru := rev [0..<n], bufs := map (\<lambda>x. x\<lparr>bdev := NODEV\<rparr>) (take n (bufs s)) @ drop n (bufs s)\<rparr>" for n
  proof (induction n)
    case (Suc n)
    then have n: "n < length (bufs s)" using len by simp
    then have "drop n (bufs s) = bufs s ! n # drop (Suc n) (bufs s)" by (rule Cons_nth_drop_Suc [symmetric])
    with Suc n len show ?case
      by (simp add: nth_append list_update_append take_Suc_conv_app_nth)
  qed simp
  from this [of NBUF] len show ?thesis by (simp add: binit_def)
qed

text \<open>\<^verbatim>\<open>binit\<close> establishes the cache invariant: from zeroed buffers and a disk of whole sectors, every
  buffer is linked exactly once and none of them caches a sector.\<close>

lemma binit_inv:
  assumes "length (bufs s) = NBUF" and "\<forall>x \<in> set (bufs s). flags x = {} \<and> length (bdata x) = BSIZE"
    and "\<forall>k. length (memdisk s k) = BSIZE"
  shows "bio_inv (binit s) \<and> bview (binit s) = memdisk s"
proof -
  have g: "b < NBUF \<Longrightarrow> getb (binit s) b = (bufs s ! b)\<lparr>bdev := NODEV\<rparr>" for b
    using assms(1) by (simp add: getb_def binit_eq)
  have nc: "\<not> caches (binit s) b k" for b k
    using g by (auto simp: caches_def NODEV_def)
  have "bio_inv (binit s)"
    unfolding bio_inv_def using assms g nc by (auto simp: binit_eq)
  moreover have "bview (binit s) k = memdisk s k" for k
    using bview_not_cached [OF calculation] nc by (simp add: cached_def assms(1) binit_eq)
  ultimately show ?thesis by auto
qed

end
