(* ===== verification/Log.thy ===== *)
theory Log
  imports Bio
begin

text \<open>
  The redo log of \<^verbatim>\<open>log.c\<close>: one transaction at a time, whose blocks are first written to the log
  area, then committed by one write of the header block, then installed at their home location.
  The main results are that recovery after a crash at any point of a commit leaves either the
  contents before or after the transaction, and that a commit always completes.
\<close>

section \<open>State and operations\<close>

definition LOGSIZE :: nat where
  "LOGSIZE = 10"

text \<open>The super block (\<^verbatim>\<open>struct superblock\<close> of \<^verbatim>\<open>fs.h\<close>).\<close>

record superblock =
  sb_size :: uint
  sb_nblocks :: uint
  sb_ninodes :: uint
  sb_nlog :: uint

definition sb_of :: "block \<Rightarrow> superblock" where
  "sb_of d = \<lparr>sb_size = get32 0 d, sb_nblocks = get32 4 d, sb_ninodes = get32 8 d, sb_nlog = get32 12 d\<rparr>"

definition readsb :: "nat \<Rightarrow> 'a bio_scheme \<Rightarrow> (superblock, 'a bio_scheme) outcome" where
  "readsb dev s =
     call (bread dev 1 s) (\<lambda>bp s.
     let sb = sb_of (bdata (getb s bp)) in
     call (brelse bp s) (\<lambda>_ s. Ok sb s))"

text \<open>\<^verbatim>\<open>struct log\<close> and the in-memory \<^verbatim>\<open>struct logheader\<close>.\<close>

record log_st = bio +
  logstart :: nat
  logsize :: nat
  logbusy :: bool
  logdev :: nat
  lh_n :: nat
  lh_sector :: "nat list"

text \<open>
  The on-disk header: the count at offset 0, the sectors behind it. A negative count read from the
  disk runs no iteration of any loop and is then reset, exactly as 0; a count above \<open>LOGSIZE\<close> makes
  \<^verbatim>\<open>read_head\<close> write beyond the array.
\<close>

definition head_n :: "block \<Rightarrow> nat" where
  "head_n d = nat (sint (get32 0 d))"

definition head_sector :: "block \<Rightarrow> nat \<Rightarrow> nat" where
  "head_sector d i = unat (get32 (4 + 4 * i) d)"

definition head_data :: "nat \<Rightarrow> nat list \<Rightarrow> block \<Rightarrow> block" where
  "head_data n secs d =
     fold (\<lambda>i d. put32 (4 + 4 * i) (of_nat (secs ! i)) d) [0..<n] (put32 0 (of_nat n) d)"

definition read_head :: "'a log_st_scheme \<Rightarrow> (unit, 'a log_st_scheme) outcome" where
  "read_head s =
     call (bread (logdev s) (logstart s) s) (\<lambda>buf s.
     let d = bdata (getb s buf); n = head_n d in
     if n > LOGSIZE then Fault ''log.lh.sector''
     else
       brelse buf (s\<lparr>lh_n := n, lh_sector := map (head_sector d) [0..<n] @ drop n (lh_sector s)\<rparr>))"

definition write_head :: "'a log_st_scheme \<Rightarrow> (unit, 'a log_st_scheme) outcome" where
  "write_head s =
     call (bread (logdev s) (logstart s) s) (\<lambda>buf s.
     call (bwrite buf (bmodify buf (head_data (lh_n s) (lh_sector s)) s)) (\<lambda>_ s.
     brelse buf s))"

text \<open>\<^verbatim>\<open>install_trans\<close>: the loop from \<open>tail\<close> on, with \<open>r\<close> blocks to go.\<close>

fun install_from :: "nat \<Rightarrow> nat \<Rightarrow> 'a log_st_scheme \<Rightarrow> (unit, 'a log_st_scheme) outcome" where
  "install_from 0 tail s = Ok () s"
| "install_from (Suc r) tail s =
     call (bread (logdev s) (logstart s + tail + 1) s) (\<lambda>lbuf s.
     call (bread (logdev s) (lh_sector s ! tail) s) (\<lambda>dbuf s.
     call (bwrite dbuf (bmodify dbuf (\<lambda>_. bdata (getb s lbuf)) s)) (\<lambda>_ s.
     call (brelse lbuf s) (\<lambda>_ s.
     call (brelse dbuf s) (\<lambda>_ s.
     install_from r (Suc tail) s)))))"

definition install_trans :: "'a log_st_scheme \<Rightarrow> (unit, 'a log_st_scheme) outcome" where
  "install_trans s = install_from (lh_n s) 0 s"

definition recover_from_log :: "'a log_st_scheme \<Rightarrow> (unit, 'a log_st_scheme) outcome" where
  "recover_from_log s =
     call (read_head s) (\<lambda>_ s.
     call (install_trans s) (\<lambda>_ s.
     write_head (s\<lparr>lh_n := 0\<rparr>)))"

definition initlog :: "'a log_st_scheme \<Rightarrow> (unit, 'a log_st_scheme) outcome" where
  "initlog s =
     (if 4 + 4 * LOGSIZE \<ge> BSIZE then Panic ''initlog: too big logheader''
      else
        call (readsb ROOTDEV s) (\<lambda>sb s.
        recover_from_log
          (s\<lparr>logstart := unat (sb_size sb - sb_nlog sb), logsize := unat (sb_nlog sb), logdev := ROOTDEV\<rparr>)))"

definition begin_trans :: "'a log_st_scheme \<Rightarrow> (unit, 'a log_st_scheme) outcome" where
  "begin_trans s = (if logbusy s then Sleep ChLog s else Ok () (s\<lparr>logbusy := True\<rparr>))"

definition commit_trans :: "'a log_st_scheme \<Rightarrow> (unit, 'a log_st_scheme) outcome" where
  "commit_trans s =
     call (if lh_n s > 0
           then call (write_head s) (\<lambda>_ s.
                call (install_trans s) (\<lambda>_ s.
                write_head (s\<lparr>lh_n := 0\<rparr>)))
           else Ok () s) (\<lambda>_ s.
     Ok () (wakeup ChLog (s\<lparr>logbusy := False\<rparr>)))"

text \<open>The search loop of \<^verbatim>\<open>log_write\<close>: the first slot that has the sector, or the count.\<close>

definition log_slot :: "nat list \<Rightarrow> nat \<Rightarrow> nat \<Rightarrow> nat" where
  "log_slot secs n k = length (takeWhile (\<lambda>x. x \<noteq> k) (take n secs))"

definition log_write :: "nat \<Rightarrow> 'a log_st_scheme \<Rightarrow> (unit, 'a log_st_scheme) outcome" where
  "log_write b s =
     (if lh_n s \<ge> LOGSIZE \<or> int (lh_n s) \<ge> int (logsize s) - 1 then Panic ''too big a transaction''
      else if \<not> logbusy s then Panic ''write outside of trans''
      else
        let i = log_slot (lh_sector s) (lh_n s) (sector (getb s b));
            s = s\<lparr>lh_sector := (lh_sector s)[i := sector (getb s b)]\<rparr> in
        call (bread (bdev (getb s b)) (logstart s + i + 1) s) (\<lambda>lbuf s.
        call (bwrite lbuf (bmodify lbuf (\<lambda>_. bdata (getb s b)) s)) (\<lambda>_ s.
        call (brelse lbuf s) (\<lambda>_ s.
        Ok () (mark_dirty b (if i = lh_n s then s\<lparr>lh_n := lh_n s + 1\<rparr> else s))))))"

section \<open>Header, frame and disk history\<close>

lemma length_head_data [simp]: "length (head_data n secs d) = length d"
proof -
  have "length (fold (\<lambda>i d. put32 (4 + 4 * i) (of_nat (secs ! i)) d) xs e) = length e" for xs e
    by (induction xs arbitrary: e) simp_all
  then show ?thesis by (simp add: head_data_def)
qed

lemma head_data_Suc:
  "head_data (Suc n) secs d =
   put32 (4 + 4 * n) (of_nat (secs ! n)) (fold (\<lambda>i d. put32 (4 + 4 * i) (of_nat (secs ! i)) d) [0..<n] (put32 0 (of_nat (Suc n)) d))"
  by (simp add: head_data_def)

lemma get32_head_fold:
  assumes "4 + 4 * n \<le> length d"
  shows "get32 0 (fold (\<lambda>i d. put32 (4 + 4 * i) (of_nat (secs ! i)) d) [0..<n] d) = get32 0 d"
    and "i < n \<Longrightarrow> get32 (4 + 4 * i) (fold (\<lambda>i d. put32 (4 + 4 * i) (of_nat (secs ! i)) d) [0..<n] d) = of_nat (secs ! i)"
proof -
  have len: "length (fold (\<lambda>i d. put32 (4 + 4 * i) (of_nat (secs ! i)) d) xs e) = length e" for xs e
    by (induction xs arbitrary: e) simp_all
  show "get32 0 (fold (\<lambda>i d. put32 (4 + 4 * i) (of_nat (secs ! i)) d) [0..<n] d) = get32 0 d"
    by (induction n) (simp_all add: get32_put32_other)
  show "i < n \<Longrightarrow> get32 (4 + 4 * i) (fold (\<lambda>i d. put32 (4 + 4 * i) (of_nat (secs ! i)) d) [0..<n] d) = of_nat (secs ! i)"
    using assms by (induction n) (auto simp: get32_put32_other less_Suc_eq len)
qed

lemma head_n_small:
  assumes "get32 0 d = of_nat n" and "n \<le> LOGSIZE"
  shows "head_n d = n"
proof -
  have "sint (of_nat n :: uint) = int n"
    using assms(2) by (simp add: LOGSIZE_def signed_of_nat signed_take_bit_int_eq_self)
  with assms(1) show ?thesis by (simp add: head_n_def)
qed

lemma head_data_n:
  assumes "n \<le> LOGSIZE" and "length d = BSIZE"
  shows "head_n (head_data n secs d) = n"
proof (rule head_n_small)
  have "4 + 4 * n \<le> length (put32 0 (of_nat n) d)" using assms by (simp add: LOGSIZE_def BSIZE_def)
  from get32_head_fold(1) [OF this] assms show "get32 0 (head_data n secs d) = of_nat n"
    by (simp add: head_data_def BSIZE_def)
qed (fact assms)

lemma head_data_sector:
  assumes "n \<le> LOGSIZE" and "length d = BSIZE" and "i < n" and "secs ! i < 2 ^ 32"
  shows "head_sector (head_data n secs d) i = secs ! i"
proof -
  have "4 + 4 * n \<le> length (put32 0 (of_nat n) d)" using assms by (simp add: LOGSIZE_def BSIZE_def)
  from get32_head_fold(2) [OF this assms(3)] assms(4) show ?thesis
    by (simp add: head_sector_def head_data_def unat_of_nat_uint)
qed

lemma same_rest_disksize: "same_rest s t \<Longrightarrow> disksize t = disksize s"
  by (simp add: same_rest_def)

lemma same_rest_log:
  "same_rest s t \<Longrightarrow> logstart t = logstart s" "same_rest s t \<Longrightarrow> logsize t = logsize s"
  "same_rest s t \<Longrightarrow> logbusy t = logbusy s" "same_rest s t \<Longrightarrow> logdev t = logdev s"
  "same_rest s t \<Longrightarrow> lh_n t = lh_n s" "same_rest s t \<Longrightarrow> lh_sector t = lh_sector s"
  "same_rest s t \<Longrightarrow> disksize t = disksize s" "same_rest s t \<Longrightarrow> log_st.more t = log_st.more s"
  by (cases s; cases t; simp add: same_rest_def)+

text \<open>Updates of the log fields are invisible to the buffer cache.\<close>

lemma log_upd_getb [simp]:
  "getb (s\<lparr>lh_n := n\<rparr>) = getb s" "getb (s\<lparr>lh_sector := l\<rparr>) = getb s" "getb (s\<lparr>logbusy := u\<rparr>) = getb s"
  "getb (s\<lparr>logstart := a\<rparr>) = getb s" "getb (s\<lparr>logsize := a\<rparr>) = getb s" "getb (s\<lparr>logdev := a\<rparr>) = getb s"
  by (simp_all add: getb_def fun_eq_iff)

lemma log_upd_bio [simp]:
  "bio_inv (s\<lparr>lh_n := n\<rparr>) = bio_inv s" "bio_inv (s\<lparr>lh_sector := l\<rparr>) = bio_inv s" "bio_inv (s\<lparr>logbusy := u\<rparr>) = bio_inv s"
  "bio_inv (s\<lparr>logstart := a\<rparr>) = bio_inv s" "bio_inv (s\<lparr>logsize := a\<rparr>) = bio_inv s" "bio_inv (s\<lparr>logdev := a\<rparr>) = bio_inv s"
  by (simp_all add: bio_inv_def caches_def)

lemma log_upd_view [simp]:
  "bview (s\<lparr>lh_n := n\<rparr>) = bview s" "bview (s\<lparr>lh_sector := l\<rparr>) = bview s" "bview (s\<lparr>logbusy := u\<rparr>) = bview s"
  "bview (s\<lparr>logstart := a\<rparr>) = bview s" "bview (s\<lparr>logsize := a\<rparr>) = bview s" "bview (s\<lparr>logdev := a\<rparr>) = bview s"
  by (simp_all add: bview_def fun_eq_iff split: option.split)

lemma log_upd_holds [simp]:
  "holds (s\<lparr>lh_n := n\<rparr>) = holds s" "holds (s\<lparr>lh_sector := l\<rparr>) = holds s" "holds (s\<lparr>logbusy := u\<rparr>) = holds s"
  "holds (s\<lparr>logstart := a\<rparr>) = holds s" "holds (s\<lparr>logsize := a\<rparr>) = holds s" "holds (s\<lparr>logdev := a\<rparr>) = holds s"
  by (simp_all add: holds_def caches_def fun_eq_iff)

lemma log_upd_held [simp]:
  "held (s\<lparr>lh_n := n\<rparr>) = held s" "held (s\<lparr>lh_sector := l\<rparr>) = held s" "held (s\<lparr>logbusy := u\<rparr>) = held s"
  "held (s\<lparr>logstart := a\<rparr>) = held s" "held (s\<lparr>logsize := a\<rparr>) = held s" "held (s\<lparr>logdev := a\<rparr>) = held s"
  by (simp_all add: held_def)

lemma log_upd_dirty [simp]:
  "dirty (s\<lparr>lh_n := n\<rparr>) = dirty s" "dirty (s\<lparr>lh_sector := l\<rparr>) = dirty s" "dirty (s\<lparr>logbusy := u\<rparr>) = dirty s"
  "dirty (s\<lparr>logstart := a\<rparr>) = dirty s" "dirty (s\<lparr>logsize := a\<rparr>) = dirty s" "dirty (s\<lparr>logdev := a\<rparr>) = dirty s"
  by (simp_all add: dirty_def caches_def)

lemma wakeup_log [simp]:
  "logstart (wakeup c s) = logstart s" "logsize (wakeup c s) = logsize s" "logdev (wakeup c s) = logdev s"
  "logbusy (wakeup c s) = logbusy s" "lh_n (wakeup c s) = lh_n s" "lh_sector (wakeup c s) = lh_sector s"
  "log_st.more (wakeup c s) = log_st.more s"
  by (simp_all add: wakeup_def)

text \<open>A sequence of sector writes applied to a disk.\<close>

definition apply_ops :: "(nat \<times> block) list \<Rightarrow> (nat \<Rightarrow> block) \<Rightarrow> nat \<Rightarrow> block" where
  "apply_ops ops d = fold (\<lambda>(k, x) d. d(k := x)) ops d"

lemma apply_ops_simps [simp]:
  "apply_ops [] d = d" "apply_ops (op # ops) d = apply_ops ops (d(fst op := snd op))"
  "apply_ops (ops @ ops') d = apply_ops ops' (apply_ops ops d)"
  by (simp_all add: apply_ops_def case_prod_beta)

lemma apply_ops_other: "k \<notin> fst ` set ops \<Longrightarrow> apply_ops ops d k = d k"
  by (induction ops arbitrary: d) auto

lemma apply_ops_distinct:
  "distinct (map fst ops) \<Longrightarrow> (k, x) \<in> set ops \<Longrightarrow> apply_ops ops d k = x"
proof (induction ops arbitrary: d)
  case (Cons op ops)
  then show ?case by (cases "op = (k, x)") (auto simp: apply_ops_other image_iff)
qed simp

section \<open>The header and the install loop\<close>

lemma bread_held:
  assumes inv: "bio_inv s" and "k < disksize s" and "k \<notin> held s"
    and "k \<in> dirty s \<or> card (held s \<union> dirty s) < NBUF"
  obtains b t where "bread 1 k s = Ok b t" "bio_inv t" "bview t = bview s" "memdisk t = memdisk s"
    "diskops t = diskops s" "holds t b k" "\<And>c j. holds s c j \<Longrightarrow> c \<noteq> b \<and> holds t c j"
    "held t = insert k (held s)" "dirty t = dirty s" "same_rest s t"
proof -
  obtain b t where r: "bread 1 k s = Ok b t" using bread_ok [OF assms] by blast
  note bread_spec(1,2) [OF inv r] bread_sectors [OF inv r] bread_rest [OF inv r]
  with r that show thesis by blast
qed

text \<open>Writing the header: one sector write.\<close>

lemma write_head_ok:
  assumes inv: "bio_inv s" and dev: "logdev s = 1" and st: "logstart s < disksize s" and h: "held s = {}"
    and clean: "logstart s \<notin> dirty s" and room: "card (dirty s) < NBUF"
  defines "hdr \<equiv> head_data (lh_n s) (lh_sector s) (memdisk s (logstart s))"
  obtains t where "write_head s = Ok () t" "bio_inv t" "bview t = (bview s)(logstart s := hdr)"
    "memdisk t = (memdisk s)(logstart s := hdr)" "diskops t = diskops s @ [(logstart s, hdr)]"
    "held t = {}" "dirty t = dirty s" "same_rest s t"
proof -
  let ?k = "logstart s" and ?f = "head_data (lh_n s) (lh_sector s)"
  obtain b t1 where t1: "bread 1 ?k s = Ok b t1" "bio_inv t1" "bview t1 = bview s" "memdisk t1 = memdisk s"
    "diskops t1 = diskops s" "holds t1 b ?k" "held t1 = insert ?k (held s)" "dirty t1 = dirty s" "same_rest s t1"
    using bread_held [OF inv st] h room by (metis Un_empty_left empty_iff)
  have vk: "bview s ?k = memdisk s ?k" using bview_clean [OF inv clean] h by simp
  note m = bmodify_sectors [OF t1(2) t1(6), of ?f]
  have len: "length (?f (bview t1 ?k)) = BSIZE" using bview_length [OF t1(2)] by simp
  define u where "u = bmodify b ?f t1"
  note m = m [OF len, folded u_def]
  have hu: "holds u b ?k" using m(3) t1(6) by simp
  obtain t2 where t2: "bwrite b u = Ok () t2" "bio_inv t2" "bview t2 = bview u" "memdisk t2 = (memdisk u)(?k := bview u ?k)"
    "diskops t2 = diskops u @ [(?k, bview u ?k)]" "holds t2 = holds u" "held t2 = held u" "dirty t2 = dirty u - {?k}" "same_rest u t2"
    using bwrite_sectors [OF m(1) hu] by metis
  have h2: "holds t2 b ?k" using t2(6) hu by simp
  have c2: "?k \<in> dirty t2 \<or> bview t2 ?k = memdisk t2 ?k" by (simp add: t2)
  obtain t3 where t3: "brelse b t2 = Ok () t3" "bio_inv t3" "bview t3 = bview t2" "memdisk t3 = memdisk t2"
    "diskops t3 = diskops t2" "held t3 = held t2 - {?k}" "dirty t3 = dirty t2" "same_rest t2 t3"
    using brelse_sectors [OF t2(2) h2 c2] by metis
  have e: "logdev t1 = 1" "lh_n t1 = lh_n s" "lh_sector t1 = lh_sector s"
    using same_rest_log [OF t1(9)] dev by simp_all
  have "write_head s = Ok () t3"
    using t1(1) t2(1) t3(1) dev e by (simp add: write_head_def u_def)
  moreover have "bview u ?k = hdr" using m(2) t1(3) vk by (simp add: hdr_def)
  moreover have "same_rest s t3"
    using t1(9) m(8) t2(9) t3(8) by (metis same_rest_trans)
  ultimately show thesis
    using that [of t3] t1 t2 t3 m h clean vk by (simp add: hdr_def insert_Diff_if)
qed

text \<open>One round of the install loop: the block moves from its log slot \<open>l\<close> to its home \<open>k\<close>.\<close>

lemma install_one:
  assumes inv: "bio_inv s" and l: "l < disksize s" "l \<notin> dirty s" and k: "k < disksize s" "k \<noteq> l"
    and h: "held s = {}" and room: "card (dirty s) < NBUF" "k \<in> dirty s \<or> Suc (card (dirty s)) < NBUF"
  obtains a t1 b t2 t3 t4 t where "bread 1 l s = Ok a t1" "same_rest s t1" "bread 1 k t1 = Ok b t2"
    "bwrite b (bmodify b (\<lambda>_. bdata (getb t2 a)) t2) = Ok () t3" "brelse a t3 = Ok () t4" "brelse b t4 = Ok () t"
    "bio_inv t" "bview t = (bview s)(k := memdisk s l)" "memdisk t = (memdisk s)(k := memdisk s l)"
    "diskops t = diskops s @ [(k, memdisk s l)]" "held t = {}" "dirty t = dirty s - {k}" "same_rest s t"
proof -
  obtain a t1 where t1: "bread 1 l s = Ok a t1" "bio_inv t1" "bview t1 = bview s" "memdisk t1 = memdisk s"
    "diskops t1 = diskops s" "holds t1 a l" "held t1 = insert l (held s)" "dirty t1 = dirty s" "same_rest s t1"
    using bread_held [OF inv l(1)] h room(1) by (metis Un_empty_left empty_iff)
  have k1: "k < disksize t1" "k \<notin> held t1" using k h same_rest_disksize [OF t1(9)] by (simp_all add: t1(7))
  have "held t1 \<union> dirty t1 = insert l (dirty s)" using t1 h by simp
  then have room1: "k \<in> dirty t1 \<or> card (held t1 \<union> dirty t1) < NBUF"
    using room l(2) finite_in_use(2) [of s] by (simp add: t1(8))
  obtain b t2 where t2: "bread 1 k t1 = Ok b t2" "bio_inv t2" "bview t2 = bview t1" "memdisk t2 = memdisk t1"
    "diskops t2 = diskops t1" "holds t2 b k" "a \<noteq> b" "holds t2 a l" "held t2 = insert k (held t1)" "dirty t2 = dirty t1"
    "same_rest t1 t2"
    using bread_held [OF t1(2) k1 room1] t1(6) by metis
  have vl: "bview s l = memdisk s l" using bview_clean [OF inv l(2)] h by simp
  have da: "bdata (getb t2 a) = memdisk s l" using holds_data [OF t2(2,8)] t2(3) t1(3) vl by simp
  let ?f = "\<lambda>_ :: block. bdata (getb t2 a)"
  have len: "length (?f (bview t2 k)) = BSIZE" using da bio_inv_block [OF inv] by simp
  define u where "u = bmodify b ?f t2"
  note m = bmodify_sectors [OF t2(2,6), of ?f, OF len, folded u_def]
  have hu: "holds u b k" using m(3) t2(6) by simp
  obtain t3 where t3: "bwrite b u = Ok () t3" "bio_inv t3" "bview t3 = bview u" "memdisk t3 = (memdisk u)(k := bview u k)"
    "diskops t3 = diskops u @ [(k, bview u k)]" "holds t3 = holds u" "held t3 = held u" "dirty t3 = dirty u - {k}" "same_rest u t3"
    using bwrite_sectors [OF m(1) hu] by metis
  have h3: "holds t3 a l" "holds t3 b k" using t3(6) m(3) t2(6,8) by simp_all
  have c3: "l \<in> dirty t3 \<or> bview t3 l = memdisk t3 l" using t3 m t2 t1 k(2) vl by simp
  obtain t4 where t4: "brelse a t3 = Ok () t4" "bio_inv t4" "bview t4 = bview t3" "memdisk t4 = memdisk t3"
    "diskops t4 = diskops t3" "\<And>c j. holds t4 c j \<longleftrightarrow> holds t3 c j \<and> c \<noteq> a" "held t4 = held t3 - {l}" "dirty t4 = dirty t3"
    "same_rest t3 t4"
    using brelse_sectors [OF t3(2) h3(1) c3] by metis
  have h4: "holds t4 b k" using t4(6) h3(2) t2(7) by simp
  have c4: "k \<in> dirty t4 \<or> bview t4 k = memdisk t4 k" using t4 t3 by simp
  obtain t where t: "brelse b t4 = Ok () t" "bio_inv t" "bview t = bview t4" "memdisk t = memdisk t4"
    "diskops t = diskops t4" "held t = held t4 - {k}" "dirty t = dirty t4" "same_rest t4 t"
    using brelse_sectors [OF t4(2) h4 c4] by metis
  have vu: "bview u = (bview s)(k := memdisk s l)" using m(2) t2(3) t1(3) da by simp
  have rest: "same_rest s t"
    using t1(9) t2(11) m(8) t3(9) t4(9) t(8) by (metis same_rest_trans)
  have "held t = {}" using t(6) t4(7) t3(7) m(4) t2(9) t1(7) h by auto
  moreover have "dirty t = dirty s - {k}" using t(7) t4(8) t3(8) m(5) t2(10) t1(8) by simp
  moreover have "bview t = (bview s)(k := memdisk s l)" using t(3) t4(3) t3(3) vu by simp
  moreover have "memdisk t = (memdisk s)(k := memdisk s l)" using t(4) t4(4) t3(4) m(6) t2(4) t1(4) vu by simp
  moreover have "diskops t = diskops s @ [(k, memdisk s l)]" using t(5) t4(5) t3(5) m(7) t2(5) t1(5) vu by simp
  ultimately show thesis using that t1(1,9) t2(1) t3(1) t4(1) t(1,2) rest by (simp add: u_def)
qed

text \<open>The writes of the install loop: each logged block at its home location.\<close>

definition install_ops :: "nat list \<Rightarrow> nat \<Rightarrow> nat \<Rightarrow> nat \<Rightarrow> (nat \<Rightarrow> block) \<Rightarrow> (nat \<times> block) list" where
  "install_ops secs st tail r d = map (\<lambda>i. (secs ! i, d (st + i + 1))) [tail..<tail + r]"

lemma install_ops_Suc:
  "install_ops secs st tail (Suc r) d = (secs ! tail, d (st + tail + 1)) # install_ops secs st (Suc tail) r d"
  by (simp add: install_ops_def upt_conv_Cons del: upt_Suc)

lemma install_ops_cong:
  assumes "\<And>i. tail \<le> i \<Longrightarrow> i < tail + r \<Longrightarrow> d (st + i + 1) = e (st + i + 1)"
  shows "install_ops secs st tail r d = install_ops secs st tail r e"
  using assms by (auto simp: install_ops_def)

lemma fst_install_ops: "map fst (install_ops secs st tail r d) = map ((!) secs) [tail..<tail + r]"
  by (simp add: install_ops_def)

lemma install_from_ok:
  assumes "bio_inv s" and "logdev s = 1" and "held s = {}"
    and "\<And>i. tail \<le> i \<Longrightarrow> i < tail + r \<Longrightarrow>
           logstart s + i + 1 < disksize s \<and> logstart s + i + 1 \<notin> dirty s \<and> lh_sector s ! i < disksize s"
    and "\<And>i j. tail \<le> i \<Longrightarrow> i < tail + r \<Longrightarrow> tail \<le> j \<Longrightarrow> j < tail + r \<Longrightarrow> lh_sector s ! i \<noteq> logstart s + j + 1"
    and "distinct (map ((!) (lh_sector s)) [tail..<tail + r])"
    and "card (dirty s) < NBUF"
    and "(\<forall>i. tail \<le> i \<and> i < tail + r \<longrightarrow> lh_sector s ! i \<in> dirty s) \<or> Suc (card (dirty s)) < NBUF"
  shows "\<exists>t. install_from r tail s = Ok () t \<and> bio_inv t \<and> held t = {} \<and>
    dirty t = dirty s - (!) (lh_sector s) ` {tail..<tail + r} \<and>
    memdisk t = apply_ops (install_ops (lh_sector s) (logstart s) tail r (memdisk s)) (memdisk s) \<and>
    bview t = apply_ops (install_ops (lh_sector s) (logstart s) tail r (memdisk s)) (bview s) \<and>
    diskops t = diskops s @ install_ops (lh_sector s) (logstart s) tail r (memdisk s) \<and> same_rest s t"
  using assms
proof (induction r arbitrary: tail s)
  case 0
  then show ?case by (simp add: install_ops_def)
next
  case (Suc r)
  let ?l = "logstart s + tail + 1" and ?k = "lh_sector s ! tail"
  have l: "?l < disksize s" "?l \<notin> dirty s" "?k < disksize s" using Suc.prems(4) [of tail] by auto
  have ne: "?k \<noteq> ?l" using Suc.prems(5) [of tail tail] by simp
  have rm: "?k \<in> dirty s \<or> Suc (card (dirty s)) < NBUF" using Suc.prems(8) by auto
  obtain a t1 b t2 t3 t4 t where st: "bread 1 ?l s = Ok a t1" "same_rest s t1" "bread 1 ?k t1 = Ok b t2"
    "bwrite b (bmodify b (\<lambda>_. bdata (getb t2 a)) t2) = Ok () t3" "brelse a t3 = Ok () t4" "brelse b t4 = Ok () t"
    and t: "bio_inv t" "bview t = (bview s)(?k := memdisk s ?l)" "memdisk t = (memdisk s)(?k := memdisk s ?l)"
    "diskops t = diskops s @ [(?k, memdisk s ?l)]" "held t = {}" "dirty t = dirty s - {?k}" "same_rest s t"
    by (rule install_one [OF Suc.prems(1) l ne Suc.prems(3,7) rm])
  note e = same_rest_log [OF t(7)]
  have e1: "logdev t1 = 1" "lh_sector t1 = lh_sector s" using same_rest_log [OF st(2)] Suc.prems(2) by simp_all
  have step: "install_from (Suc r) tail s = install_from r (Suc tail) t"
    using st e1 Suc.prems(2) by simp
  have dc: "card (dirty t) \<le> card (dirty s)" unfolding t(6) by (rule card_mono) (auto simp: finite_in_use)
  have tl: "[tail..<tail + Suc r] = tail # [Suc tail..<Suc tail + r]" by (simp add: upt_conv_Cons del: upt_Suc)
  have dist: "distinct (map ((!) (lh_sector s)) [Suc tail..<Suc tail + r])"
    and nk: "?k \<notin> (!) (lh_sector s) ` {Suc tail..<Suc tail + r}"
    using Suc.prems(6) unfolding tl by (simp_all del: upt_Suc)
  have "\<exists>u. install_from r (Suc tail) t = Ok () u \<and> bio_inv u \<and> held u = {} \<and>
    dirty u = dirty t - (!) (lh_sector t) ` {Suc tail..<Suc tail + r} \<and>
    memdisk u = apply_ops (install_ops (lh_sector t) (logstart t) (Suc tail) r (memdisk t)) (memdisk t) \<and>
    bview u = apply_ops (install_ops (lh_sector t) (logstart t) (Suc tail) r (memdisk t)) (bview t) \<and>
    diskops u = diskops t @ install_ops (lh_sector t) (logstart t) (Suc tail) r (memdisk t) \<and> same_rest t u"
  proof (rule Suc.IH [OF t(1) _ t(5)])
    show "logdev t = 1" using e Suc.prems(2) by simp
    show "logstart t + i + 1 < disksize t \<and> logstart t + i + 1 \<notin> dirty t \<and> lh_sector t ! i < disksize t"
      if "Suc tail \<le> i" "i < Suc tail + r" for i
      using Suc.prems(4) [of i] that e t(6) by simp
    show "lh_sector t ! i \<noteq> logstart t + j + 1"
      if "Suc tail \<le> i" "i < Suc tail + r" "Suc tail \<le> j" "j < Suc tail + r" for i j
      using Suc.prems(5) [of i j] that e by simp
    show "distinct (map ((!) (lh_sector t)) [Suc tail..<Suc tail + r])" using dist e by simp
    show "card (dirty t) < NBUF" using dc Suc.prems(7) by simp
    show "(\<forall>i. Suc tail \<le> i \<and> i < Suc tail + r \<longrightarrow> lh_sector t ! i \<in> dirty t) \<or> Suc (card (dirty t)) < NBUF"
      using Suc.prems(8)
    proof
      assume d: "\<forall>i. tail \<le> i \<and> i < tail + Suc r \<longrightarrow> lh_sector s ! i \<in> dirty s"
      have "lh_sector s ! i \<in> dirty s - {?k}" if i: "Suc tail \<le> i" "i < Suc tail + r" for i
      proof -
        have "lh_sector s ! i \<in> (!) (lh_sector s) ` {Suc tail..<Suc tail + r}" using i by simp
        with nk have "lh_sector s ! i \<noteq> ?k" by metis
        moreover have "lh_sector s ! i \<in> dirty s" using d i by simp
        ultimately show ?thesis by simp
      qed
      then show ?thesis using e t(6) by simp
    qed (use dc in simp)
  qed
  moreover have "install_ops (lh_sector t) (logstart t) (Suc tail) r (memdisk t) =
      install_ops (lh_sector s) (logstart s) (Suc tail) r (memdisk s)"
  proof -
    have "memdisk t (logstart s + i + 1) = memdisk s (logstart s + i + 1)" if "Suc tail \<le> i" "i < Suc tail + r" for i
      using Suc.prems(5) [of tail i] that t(3) by simp
    then show ?thesis unfolding e(1,6) by (rule install_ops_cong)
  qed
  moreover have "{tail..<tail + Suc r} = insert tail {Suc tail..<Suc tail + r}" by auto
  ultimately show ?case
    using step t e same_rest_trans [OF t(7)] by (auto simp: install_ops_Suc)
qed

section \<open>The log invariant\<close>

text \<open>
  The log area, the sectors of the running transaction, and the invariant. Its last clause says that
  a block nobody holds is settled: a logged block agrees with its copy in the log, any other block
  with the disk. \<^verbatim>\<open>logsize\<close> is at most \<^verbatim>\<open>NBUF\<close>, so that a transaction, whose blocks stay in the
  cache, never takes every buffer.
\<close>

definition log_area :: "'a log_st_scheme \<Rightarrow> nat set" where
  "log_area s = {logstart s..<logstart s + logsize s}"

definition logged :: "'a log_st_scheme \<Rightarrow> nat set" where
  "logged s = set (take (lh_n s) (lh_sector s))"

definition settled :: "'a log_st_scheme \<Rightarrow> nat \<Rightarrow> bool" where
  "settled s k \<longleftrightarrow>
     (if k \<in> logged s then \<forall>i < lh_n s. lh_sector s ! i = k \<longrightarrow> memdisk s (logstart s + i + 1) = bview s k
      else bview s k = memdisk s k)"

definition log_geometry :: "'a log_st_scheme \<Rightarrow> bool" where
  "log_geometry s \<longleftrightarrow> logdev s = 1 \<and> 0 < logsize s \<and> logsize s \<le> NBUF \<and>
     logstart s + logsize s \<le> disksize s \<and> disksize s \<le> 2 ^ 32 \<and> length (lh_sector s) = LOGSIZE"

definition log_inv :: "'a log_st_scheme \<Rightarrow> bool" where
  "log_inv s \<longleftrightarrow>
     bio_inv s \<and> log_geometry s \<and> lh_n s < logsize s \<and> lh_n s \<le> LOGSIZE \<and>
     distinct (take (lh_n s) (lh_sector s)) \<and> logged s \<inter> log_area s = {} \<and> held s \<inter> log_area s = {} \<and>
     dirty s = logged s \<and> head_n (memdisk s (logstart s)) = 0 \<and> (\<forall>k. k \<notin> held s \<longrightarrow> settled s k)"

lemma log_inv_bio: "log_inv s \<Longrightarrow> bio_inv s"
  by (simp add: log_inv_def)

lemma logged_alt: "log_inv s \<Longrightarrow> logged s = (!) (lh_sector s) ` {0..<lh_n s}"
  by (simp add: log_inv_def log_geometry_def logged_def nth_image)

lemma logged_nth: "log_inv s \<Longrightarrow> i < lh_n s \<Longrightarrow> lh_sector s ! i \<in> logged s"
  by (simp add: logged_alt)

lemma log_inv_facts:
  assumes "log_inv s"
  shows "dirty s = logged s" "card (logged s) = lh_n s" "lh_n s < NBUF" "logdev s = 1"
    "logstart s < disksize s" "i < lh_n s \<Longrightarrow> logstart s + i + 1 < disksize s" "i < lh_n s \<Longrightarrow> logstart s + i + 1 \<in> log_area s"
    "logstart s \<in> log_area s" "lh_n s \<le> LOGSIZE" "k \<in> logged s \<Longrightarrow> k < disksize s" "lh_n s \<le> length (lh_sector s)"
    "disksize s \<le> 2 ^ 32"
proof -
  show d: "dirty s = logged s" using assms by (simp add: log_inv_def)
  have n: "lh_n s \<le> length (lh_sector s)" using assms by (simp add: log_inv_def log_geometry_def)
  then show "card (logged s) = lh_n s" using assms by (simp add: log_inv_def logged_def distinct_card)
  show "k \<in> logged s \<Longrightarrow> k < disksize s"
    using d caches_valid [OF log_inv_bio [OF assms]] by (auto simp: dirty_def)
  show "lh_n s \<le> length (lh_sector s)" by (fact n)
  have g: "log_geometry s" "lh_n s < logsize s" "lh_n s \<le> LOGSIZE" using assms by (simp_all add: log_inv_def)
  then show "lh_n s < NBUF" "logdev s = 1" "logstart s < disksize s" "logstart s \<in> log_area s" "lh_n s \<le> LOGSIZE"
    "disksize s \<le> 2 ^ 32"
    by (simp_all add: log_geometry_def log_area_def)
  show "logstart s + i + 1 < disksize s" "logstart s + i + 1 \<in> log_area s" if "i < lh_n s"
    using that g by (simp_all add: log_geometry_def log_area_def)
qed

subsection \<open>Commit\<close>

text \<open>The sector writes of a commit.\<close>

definition commit_ops :: "'a log_st_scheme \<Rightarrow> (nat \<times> block) list" where
  "commit_ops s =
     (let h = head_data (lh_n s) (lh_sector s) (memdisk s (logstart s)) in
      if lh_n s = 0 then []
      else (logstart s, h) # install_ops (lh_sector s) (logstart s) 0 (lh_n s) (memdisk s) @
           [(logstart s, head_data 0 (lh_sector s) h)])"

text \<open>The state a commit leaves: nothing in the log, the view unchanged outside it and on the disk.\<close>

lemma install_view:
  assumes inv: "log_inv s" and h: "held s = {}"
  shows "apply_ops (install_ops (lh_sector s) (logstart s) 0 (lh_n s) (memdisk s)) d k = (if k \<in> logged s then bview s k else d k)"
proof (cases "k \<in> logged s")
  case True
  then obtain i where i: "i < lh_n s" "lh_sector s ! i = k" by (auto simp: logged_alt [OF inv])
  have "settled s k" using inv h by (simp add: log_inv_def)
  with True i have "memdisk s (logstart s + i + 1) = bview s k" by (simp add: settled_def)
  with i have "(k, bview s k) \<in> set (install_ops (lh_sector s) (logstart s) 0 (lh_n s) (memdisk s))"
    by (auto simp: install_ops_def)
  moreover have "map fst (install_ops (lh_sector s) (logstart s) 0 (lh_n s) (memdisk s)) = take (lh_n s) (lh_sector s)"
    unfolding fst_install_ops using log_inv_facts(11) [OF inv] by (auto intro: nth_equalityI)
  ultimately show ?thesis using True inv by (simp add: apply_ops_distinct log_inv_def)
next
  case False
  have "set (map fst (install_ops (lh_sector s) (logstart s) 0 (lh_n s) (memdisk s))) = logged s"
    unfolding fst_install_ops using logged_alt [OF inv] by simp
  with False show ?thesis by (simp add: apply_ops_other)
qed

lemma commit_trans_ok:
  assumes inv: "log_inv s" and h: "held s = {}"
  obtains t where "commit_trans s = Ok () t" "diskops t = diskops s @ commit_ops s"
    "memdisk t = apply_ops (commit_ops s) (memdisk s)" "bio_inv t" "held t = {}" "dirty t = {}"
    "bview t = apply_ops (commit_ops s) (bview s)" "disksize t = disksize s" "log_st.more t = log_st.more s"
    "logstart t = logstart s" "logsize t = logsize s" "logdev t = logdev s" "lh_n t = 0" "lh_sector t = lh_sector s"
    "\<not> logbusy t"
proof (cases "lh_n s = 0")
  case True
  have "commit_trans s = Ok () (wakeup ChLog (s\<lparr>logbusy := False\<rparr>))" using True by (simp add: commit_trans_def)
  moreover have "logged s = {}" using True by (simp add: logged_def)
  ultimately show thesis
    using that [of "wakeup ChLog (s\<lparr>logbusy := False\<rparr>)"] True inv h log_inv_facts(1) [OF inv]
    by (simp add: commit_ops_def log_inv_bio)
next
  case False
  let ?k = "logstart s"
  note f = log_inv_facts [OF inv]
  have nd: "j \<notin> dirty s" if "j \<in> log_area s" for j using that f(1) inv by (auto simp: log_inv_def)
  obtain t1 where t1: "write_head s = Ok () t1" "bio_inv t1"
    "bview t1 = (bview s)(?k := head_data (lh_n s) (lh_sector s) (memdisk s ?k))"
    "memdisk t1 = (memdisk s)(?k := head_data (lh_n s) (lh_sector s) (memdisk s ?k))"
    "diskops t1 = diskops s @ [(?k, head_data (lh_n s) (lh_sector s) (memdisk s ?k))]"
    "held t1 = {}" "dirty t1 = dirty s" "same_rest s t1"
    using write_head_ok [OF log_inv_bio [OF inv] f(4,5) h nd [OF f(8)]] f(1,2,3) by metis
  note e1 = same_rest_log [OF t1(8)]
  have dist: "distinct (map ((!) (lh_sector t1)) [0..<0 + lh_n t1])"
  proof -
    have "map ((!) (lh_sector t1)) [0..<0 + lh_n t1] = take (lh_n s) (lh_sector s)"
      using f(11) e1 by (auto intro: nth_equalityI)
    then show ?thesis using inv by (simp add: log_inv_def)
  qed
  have apart: "lh_sector t1 ! i \<noteq> logstart t1 + j + 1" if "i < lh_n t1" "j < lh_n t1" for i j
  proof -
    have "logstart s + j + 1 \<in> log_area s" "lh_sector s ! i \<in> logged s"
      using that e1 f(7) logged_nth [OF inv] by simp_all
    moreover have "logged s \<inter> log_area s = {}" using inv by (simp add: log_inv_def)
    ultimately show ?thesis unfolding e1(1,6) by (metis disjoint_iff)
  qed
  have "\<exists>t. install_from (lh_n t1) 0 t1 = Ok () t \<and> bio_inv t \<and> held t = {} \<and>
    dirty t = dirty t1 - (!) (lh_sector t1) ` {0..<0 + lh_n t1} \<and>
    memdisk t = apply_ops (install_ops (lh_sector t1) (logstart t1) 0 (lh_n t1) (memdisk t1)) (memdisk t1) \<and>
    bview t = apply_ops (install_ops (lh_sector t1) (logstart t1) 0 (lh_n t1) (memdisk t1)) (bview t1) \<and>
    diskops t = diskops t1 @ install_ops (lh_sector t1) (logstart t1) 0 (lh_n t1) (memdisk t1) \<and> same_rest t1 t"
  proof (rule install_from_ok [OF t1(2) _ t1(6)])
    show "logdev t1 = 1" using e1 f(4) by simp
    show "logstart t1 + i + 1 < disksize t1 \<and> logstart t1 + i + 1 \<notin> dirty t1 \<and> lh_sector t1 ! i < disksize t1"
      if "0 \<le> i" "i < 0 + lh_n t1" for i
      using that e1 f(6,7,10) t1(7) nd logged_nth [OF inv] by simp
    show "lh_sector t1 ! i \<noteq> logstart t1 + j + 1" if "0 \<le> i" "i < 0 + lh_n t1" "0 \<le> j" "j < 0 + lh_n t1" for i j
      using apart that by simp
    show "card (dirty t1) < NBUF" using t1(7) f(1,2,3) by simp
    show "(\<forall>i. 0 \<le> i \<and> i < 0 + lh_n t1 \<longrightarrow> lh_sector t1 ! i \<in> dirty t1) \<or> Suc (card (dirty t1)) < NBUF"
      using e1 t1(7) f(1) logged_nth [OF inv] by simp
  qed (fact dist)
  moreover have "install_ops (lh_sector t1) (logstart t1) 0 (lh_n t1) (memdisk t1) =
      install_ops (lh_sector s) ?k 0 (lh_n s) (memdisk s)"
    using e1 t1(4) by (auto intro!: install_ops_cong)
  ultimately obtain t2 where t2: "install_trans t1 = Ok () t2" "bio_inv t2" "held t2 = {}"
    "dirty t2 = {}"
    "memdisk t2 = apply_ops (install_ops (lh_sector s) ?k 0 (lh_n s) (memdisk s)) (memdisk t1)"
    "bview t2 = apply_ops (install_ops (lh_sector s) ?k 0 (lh_n s) (memdisk s)) (bview t1)"
    "diskops t2 = diskops t1 @ install_ops (lh_sector s) ?k 0 (lh_n s) (memdisk s)" "same_rest t1 t2"
    using e1 t1(7) f(1) logged_alt [OF inv] by (auto simp: install_trans_def)
  note e2 = same_rest_log [OF t2(8)]
  let ?u = "t2\<lparr>lh_n := 0\<rparr>"
  have k2: "memdisk t2 ?k = memdisk t1 ?k"
    using t2(5) install_view [OF inv h] f(8) inv by (auto simp: log_inv_def)
  obtain t3 where t3: "write_head ?u = Ok () t3" "bio_inv t3"
    "bview t3 = (bview t2)(?k := head_data 0 (lh_sector s) (memdisk t1 ?k))"
    "memdisk t3 = (memdisk t2)(?k := head_data 0 (lh_sector s) (memdisk t1 ?k))"
    "diskops t3 = diskops t2 @ [(?k, head_data 0 (lh_sector s) (memdisk t1 ?k))]"
    "held t3 = {}" "dirty t3 = {}" "same_rest ?u t3"
    using write_head_ok [of ?u] t2 e2 e1 f(4,5) k2 by (auto simp: NBUF_def)
  note e3 = same_rest_log [OF t3(8)]
  let ?t = "wakeup ChLog (t3\<lparr>logbusy := False\<rparr>)"
  have "commit_trans s = Ok () ?t" using t1(1) t2(1) t3(1) False by (simp add: commit_trans_def)
  then show thesis
    using that [of ?t] t1 t2 t3 e1 e2 e3 False
    by (simp add: commit_ops_def Let_def)
qed

subsection \<open>Operations inside a transaction\<close>

lemma bwrite_done:
  assumes "bio_inv s" and "holds s b k" and "bwrite b s = Ok u t"
  shows "bio_inv t" "bview t = bview s" "memdisk t = (memdisk s)(k := bview s k)"
    "diskops t = diskops s @ [(k, bview s k)]" "holds t = holds s" "held t = held s" "dirty t = dirty s - {k}" "same_rest s t"
  using bwrite_sectors [OF assms(1,2)] assms(3) by (metis outcome.inject(1))+

lemma brelse_done:
  assumes "bio_inv s" and "holds s b k" and "k \<in> dirty s \<or> bview s k = memdisk s k" and "brelse b s = Ok u t"
  shows "bio_inv t" "bview t = bview s" "memdisk t = memdisk s" "diskops t = diskops s"
    "\<And>c j. holds t c j \<longleftrightarrow> holds s c j \<and> c \<noteq> b" "held t = held s - {k}" "dirty t = dirty s" "same_rest s t"
  using brelse_sectors [OF assms(1,2,3)] assms(4) by (metis outcome.inject(1))+

lemma log_slot_less: "log_slot secs n k \<le> n"
  unfolding log_slot_def by (metis length_takeWhile_le length_take min.bounded_iff)

lemma log_slot_new:
  assumes "n \<le> length secs" and "k \<notin> set (take n secs)"
  shows "log_slot secs n k = n"
proof -
  have "takeWhile (\<lambda>x. x \<noteq> k) (take n secs) = take n secs"
    using assms(2) by (intro takeWhile_eq_all_conv [THEN iffD2]) auto
  then have "log_slot secs n k = length (take n secs)" unfolding log_slot_def by (rule arg_cong)
  then show ?thesis using assms(1) by simp
qed

lemma log_slot_old:
  assumes "n \<le> length secs" and "k \<in> set (take n secs)"
  shows "log_slot secs n k < n" and "secs ! log_slot secs n k = k"
proof -
  let ?P = "\<lambda>x. x \<noteq> k"
  show l: "log_slot secs n k < n"
  proof (rule ccontr)
    assume "\<not> log_slot secs n k < n"
    then have "takeWhile ?P (take n secs) = take n secs"
      using log_slot_less [of secs n k] assms(1) takeWhile_eq_take [of ?P "take n secs"] by (simp add: log_slot_def)
    then show False using assms(2) by (metis (mono_tags, lifting) set_takeWhileD)
  qed
  have "take n secs ! log_slot secs n k = k"
    unfolding log_slot_def using nth_length_takeWhile [of ?P "take n secs"] l assms(1) by (simp add: log_slot_def)
  with l show "secs ! log_slot secs n k = k" by simp
qed

text \<open>
  What a successful \<^verbatim>\<open>log_write\<close> did: with \<open>i\<close> the slot of the block, the log copy was written, the
  slot holds the sector, the count grew if the slot is new and the buffer is dirty.
\<close>

lemma log_write_effect:
  assumes inv: "log_inv s" and h: "holds s b k" and ok: "log_write b s = Ok u t"
  defines "i \<equiv> log_slot (lh_sector s) (lh_n s) k"
  shows "lh_n s < LOGSIZE" "Suc (lh_n s) < logsize s" "logbusy s"
    "bio_inv t" "bview t = (bview s)(logstart s + i + 1 := bview s k)" "holds t = holds s" "held t = held s"
    "dirty t = insert k (dirty s)" "memdisk t = (memdisk s)(logstart s + i + 1 := bview s k)"
    "diskops t = diskops s @ [(logstart s + i + 1, bview s k)]" "disksize t = disksize s"
    "logstart t = logstart s" "logsize t = logsize s" "logdev t = logdev s" "logbusy t = logbusy s"
    "lh_n t = (if i = lh_n s then Suc (lh_n s) else lh_n s)" "lh_sector t = (lh_sector s)[i := k]"
    "log_st.more t = log_st.more s"
proof -
  let ?l = "logstart s + i + 1" and ?s = "s\<lparr>lh_sector := (lh_sector s)[i := k]\<rparr>"
  note sec = holds_sector [OF h]
  show g: "lh_n s < LOGSIZE" "Suc (lh_n s) < logsize s" "logbusy s"
    using ok by (auto simp: log_write_def split: if_splits)
  have la: "?l \<in> log_area s" using g log_slot_less [of "lh_sector s" "lh_n s" k] by (auto simp: log_area_def i_def)
  have lh: "?l \<notin> held s" "?l \<notin> dirty s" "?l \<noteq> k"
    using la inv h by (auto simp: log_inv_def held_def)
  from ok g sec obtain a t1 t2 t3 where r: "bread 1 ?l ?s = Ok a t1"
    and w: "bwrite a (bmodify a (\<lambda>_. bdata (getb t1 b)) t1) = Ok () t2" and rel: "brelse a t2 = Ok () t3"
    and t: "t = mark_dirty b (if i = lh_n t3 then t3\<lparr>lh_n := lh_n t3 + 1\<rparr> else t3)"
    by (auto simp: log_write_def call_Ok_iff Let_def i_def)
  have inv': "bio_inv ?s" using log_inv_bio [OF inv] by simp
  note r1 = bread_spec(1,2) [OF inv' r] bread_sectors [OF inv' r] bread_rest [OF inv' r]
  have hb1: "holds t1 b k" using r1(4) h by simp
  have db: "bdata (getb t1 b) = bview s k" using holds_data [OF r1(1) hb1] r1(2) by simp
  have len: "length (bview s k) = BSIZE" using bview_length [OF log_inv_bio [OF inv]] .
  define u1 where "u1 = bmodify a (\<lambda>_. bview s k) t1"
  note m = bmodify_sectors [OF r1(1,3), of "\<lambda>_. bview s k", OF len, folded u1_def]
  have hu: "holds u1 a ?l" using m(3) r1(3) by simp
  have w': "bwrite a u1 = Ok () t2" using w db by (simp add: u1_def)
  note t2 = bwrite_done [OF m(1) hu w']
  have h2: "holds t2 a ?l" using t2(5) hu by simp
  have c2: "?l \<in> dirty t2 \<or> bview t2 ?l = memdisk t2 ?l" using t2 by simp
  note t3 = brelse_done [OF t2(1) h2 c2 rel]
  have rest: "same_rest ?s t3" using r1(11) m(8) t2(8) t3(8) by (metis same_rest_trans)
  note e = same_rest_log [OF rest]
  let ?v = "if i = lh_n t3 then t3\<lparr>lh_n := lh_n t3 + 1\<rparr> else t3"
  have v: "bio_inv ?v" "bview ?v = bview t3" "holds ?v = holds t3" "held ?v = held t3" "dirty ?v = dirty t3"
    "memdisk ?v = memdisk t3" "diskops ?v = diskops t3" "disksize ?v = disksize t3"
    using t3(1) by simp_all
  have "a \<noteq> b" using r1(4) h by auto
  have hv: "holds ?v b k" using v(3) t3(5) t2(5) m(3) hb1 \<open>a \<noteq> b\<close> by simp
  note md = mark_dirty_sectors [OF v(1) hv, folded t] and f = same_rest_log [OF mark_dirty_sectors(8) [OF v(1) hv], folded t]
  show "bio_inv t" by (fact md)
  show "bview t = (bview s)(?l := bview s k)" using md(2) v(2) t3(2) t2(2) m(2) r1(2) by simp
  have ha: "holds s c j \<longleftrightarrow> holds t1 c j \<and> c \<noteq> a" for c j
  proof
    show "holds s c j \<Longrightarrow> holds t1 c j \<and> c \<noteq> a" using r1(4) by auto
    assume c: "holds t1 c j \<and> c \<noteq> a"
    then have "getb t1 c = getb s c" using bread_other [OF inv' r] by simp
    with c show "holds s c j" by (simp add: holds_def caches_def)
  qed
  show "holds t = holds s" using md(3) v(3) t3(5) t2(5) m(3) ha by (simp add: fun_eq_iff)
  then show "held t = held s" by (simp add: held_def)
  show "dirty t = insert k (dirty s)" using md(5) v(5) t3(7) t2(7) m(5) r1(6) lh(2) by simp
  show "memdisk t = (memdisk s)(?l := bview s k)" using md(6) v(6) t3(3) t2(3) m(2,6) r1(2,9) by simp
  show "diskops t = diskops s @ [(?l, bview s k)]" using md(7) v(7) t3(4) t2(4) m(2,7) r1(2,10) by simp
  show "disksize t = disksize s" "logstart t = logstart s" "logsize t = logsize s" "logdev t = logdev s"
    "logbusy t = logbusy s" "lh_n t = (if i = lh_n s then Suc (lh_n s) else lh_n s)" "lh_sector t = (lh_sector s)[i := k]"
    "log_st.more t = log_st.more s"
    using f e by (simp_all split: if_splits)
qed

lemma log_write_inv:
  assumes inv: "log_inv s" and h: "holds s b k" and ok: "log_write b s = Ok u t"
  shows "log_inv t" "holds t = holds s" "held t = held s" "logged t = insert k (logged s)" "settled t k"
    "\<And>j. j \<notin> log_area s \<Longrightarrow> bview t j = bview s j" "\<And>j. j \<notin> log_area s \<Longrightarrow> memdisk t j = memdisk s j"
    "log_area t = log_area s" "logbusy t" "disksize t = disksize s" "log_st.more t = log_st.more s"
    "lh_n t \<le> Suc (lh_n s)"
proof -
  define i where "i = log_slot (lh_sector s) (lh_n s) k"
  let ?l = "logstart s + i + 1" and ?n = "lh_n s" and ?secs = "lh_sector s"
  note f = log_write_effect [OF inv h ok, folded i_def] and g = log_inv_facts [OF inv]
  have i: "i \<le> ?n" unfolding i_def by (rule log_slot_less)
  then have la: "?l \<in> log_area s" using f(2) by (simp add: log_area_def)
  have kA: "k \<notin> log_area s" "k \<in> held s" using h inv by (auto simp: held_def log_inv_def)
  have lenS: "length ?secs = LOGSIZE" using inv by (simp add: log_inv_def log_geometry_def)
  have area: "log_area t = log_area s" using f by (simp add: log_area_def)
  have tk: "distinct (take (lh_n t) (lh_sector t)) \<and> logged t = insert k (logged s)"
  proof (cases "k \<in> logged s")
    case True
    then have "i < ?n" "?secs ! i = k" using log_slot_old [OF g(11)] by (simp_all add: i_def logged_def)
    then have "lh_n t = ?n" "lh_sector t = ?secs" using f by (auto simp: list_update_same_conv lenS)
    then show ?thesis using True inv by (auto simp: logged_def log_inv_def)
  next
    case False
    then have "i = ?n" using log_slot_new [OF g(11)] by (simp add: i_def logged_def)
    then have "take (lh_n t) (lh_sector t) = take ?n ?secs @ [k]"
      using f(1,16,17) lenS by (simp add: take_Suc_conv_app_nth)
    then show ?thesis using False inv by (simp add: logged_def log_inv_def)
  qed
  show "holds t = holds s" "held t = held s" "log_area t = log_area s" "disksize t = disksize s" "log_st.more t = log_st.more s"
    by (fact f area)+
  show "logbusy t" using f by simp
  show "lh_n t \<le> Suc ?n" using f by simp
  show "logged t = insert k (logged s)" using tk by simp
  show "\<And>j. j \<notin> log_area s \<Longrightarrow> bview t j = bview s j" "\<And>j. j \<notin> log_area s \<Longrightarrow> memdisk t j = memdisk s j"
    using f la by auto
  have slot: "lh_sector t ! j = k \<longleftrightarrow> j = i" if "j < lh_n t" for j
  proof -
    have "take (lh_n t) (lh_sector t) ! i = k" "i < lh_n t" "lh_n t \<le> length (lh_sector t)"
      using f i lenS by (auto split: if_splits)
    then show ?thesis using tk that by (metis distinct_conv_nth length_take min.absorb2 nth_take)
  qed
  show sk: "settled t k" using tk slot f kA la by (auto simp: settled_def)
  have other: "settled t j" if j: "j \<noteq> k" "settled s j" for j
  proof (cases "j \<in> logged s")
    case True
    then have "j \<notin> log_area s" using inv by (auto simp: log_inv_def)
    then have bj: "bview t j = bview s j" using f la by auto
    have "memdisk t (logstart t + m + 1) = bview t j" if m: "m < lh_n t" "lh_sector t ! m = j" for m
    proof -
      have "m \<noteq> i" using slot m j by auto
      then have "m < ?n" "?secs ! m = j" using m f by (auto split: if_splits)
      then have "memdisk s (logstart s + m + 1) = bview s j" using j(2) True by (simp add: settled_def)
      then show ?thesis using \<open>m \<noteq> i\<close> f bj by simp
    qed
    then show ?thesis using True tk by (simp add: settled_def)
  next
    case False
    then show ?thesis using j tk f by (simp add: settled_def)
  qed
  have hd0: "head_n (memdisk t (logstart t)) = 0" using f inv by (simp add: log_inv_def)
  show "log_inv t"
    unfolding log_inv_def
  proof (intro conjI allI impI)
    show "log_geometry t" using inv f by (simp add: log_inv_def log_geometry_def)
    show "lh_n t < logsize t" "lh_n t \<le> LOGSIZE" using f by (simp_all add: log_inv_def)
    show "logged t \<inter> log_area t = {}" "held t \<inter> log_area t = {}" using tk kA area f inv by (auto simp: log_inv_def)
    show "dirty t = logged t" using f(8) tk g(1) by simp
    show "settled t j" if "j \<notin> held t" for j
    proof -
      have "j \<noteq> k" "settled s j" using that kA f(7) inv by (auto simp: log_inv_def)
      then show ?thesis by (rule other)
    qed
  qed (use tk f hd0 in simp_all)
qed

text \<open>\<^verbatim>\<open>bread\<close>, changes and \<^verbatim>\<open>brelse\<close> as seen by a caller of the log.\<close>

lemma log_frame:
  assumes "same_rest s t"
  shows "log_area t = log_area s" "logged t = logged s" "log_geometry t = log_geometry s"
  using same_rest_log [OF assms] by (simp_all add: log_area_def logged_def log_geometry_def)

lemma settled_frame:
  assumes "same_rest s t" and "memdisk t = memdisk s" and "bview t k = bview s k"
  shows "settled t k = settled s k"
  using same_rest_log [OF assms(1)] log_frame [OF assms(1)] assms(2,3) by (simp add: settled_def)

lemma bread_log:
  assumes inv: "log_inv s" and ok: "bread 1 k s = Ok b t" and k: "k \<notin> log_area s"
  shows "log_inv t" "settled t k"
proof -
  note b = bread_spec(1,2) [OF log_inv_bio [OF inv] ok] bread_sectors [OF log_inv_bio [OF inv] ok]
    bread_rest [OF log_inv_bio [OF inv] ok]
  note e = same_rest_log [OF b(11)] and fr = log_frame [OF b(11)]
  have st: "settled t j = settled s j" for j using settled_frame [OF b(11,9)] b(2) by simp
  show "log_inv t" using inv b e fr st k unfolding log_inv_def by auto
  show "settled t k" using st inv b(7) by (simp add: log_inv_def)
qed

lemma bmodify_log:
  assumes inv: "log_inv s" and h: "holds s b k" and len: "length (f (bview s k)) = BSIZE"
  shows "log_inv (bmodify b f s)"
proof -
  note m = bmodify_sectors [OF log_inv_bio [OF inv] h, of f, OF len]
  note e = same_rest_log [OF m(8)] and fr = log_frame [OF m(8)]
  have kh: "k \<in> held s" using h by (auto simp: held_def)
  have "settled (bmodify b f s) j = settled s j" if "j \<noteq> k" for j
    using settled_frame [OF m(8,6)] m(2) that by simp
  with kh have st: "\<forall>j. j \<notin> held (bmodify b f s) \<longrightarrow> settled (bmodify b f s) j"
    using inv m(4) by (metis log_inv_def)
  then show ?thesis using inv m e fr unfolding log_inv_def by simp
qed

lemma brelse_log:
  assumes inv: "log_inv s" and h: "holds s b k" and st: "settled s k" and ok: "brelse b s = Ok u t"
  shows "log_inv t" "bview t = bview s" "memdisk t = memdisk s" "diskops t = diskops s"
    "\<And>c j. holds t c j \<longleftrightarrow> holds s c j \<and> c \<noteq> b" "held t = held s - {k}" "dirty t = dirty s" "same_rest s t"
proof -
  have c: "k \<in> dirty s \<or> bview s k = memdisk s k" using st log_inv_facts(1) [OF inv] by (auto simp: settled_def)
  note r = brelse_done [OF log_inv_bio [OF inv] h c ok]
  note e = same_rest_log [OF r(8)] and fr = log_frame [OF r(8)]
  have s: "settled t j = settled s j" for j using settled_frame [OF r(8,3)] r(2) by simp
  show "log_inv t" using inv r e fr s st unfolding log_inv_def by auto
qed (use brelse_done [OF log_inv_bio [OF inv] h _ ok] st log_inv_facts(1) [OF inv] in \<open>auto simp: settled_def split: if_splits\<close>)

section \<open>Recovery\<close>

text \<open>
  A disk with a well-formed log header, what recovery writes to it and what it becomes. A freshly
  booted kernel has an empty cache.
\<close>

definition header_ok :: "nat \<Rightarrow> nat \<Rightarrow> (nat \<Rightarrow> block) \<Rightarrow> bool" where
  "header_ok st nsec d \<longleftrightarrow>
     (let n = head_n (d st); secs = map (head_sector (d st)) [0..<n] in
      n \<le> LOGSIZE \<and> st + n < nsec \<and> distinct secs \<and> (\<forall>k \<in> set secs. k < nsec \<and> k \<notin> {st..st + n}))"

definition recover_ops :: "nat \<Rightarrow> (nat \<Rightarrow> block) \<Rightarrow> (nat \<times> block) list" where
  "recover_ops st d =
     install_ops (map (head_sector (d st)) [0..<head_n (d st)]) st 0 (head_n (d st)) d @ [(st, head_data 0 [] (d st))]"

definition booted :: "'a log_st_scheme \<Rightarrow> bool" where
  "booted s \<longleftrightarrow> bio_inv s \<and> held s = {} \<and> dirty s = {} \<and> length (lh_sector s) = LOGSIZE"

lemma head_data_0: "head_data 0 secs d = head_data 0 [] d"
  by (simp add: head_data_def)

lemma install_ops_prefix:
  "(\<And>i. i < r \<Longrightarrow> secs ! i = secs' ! i) \<Longrightarrow> install_ops secs st 0 r d = install_ops secs' st 0 r d"
  by (simp add: install_ops_def)

lemma read_head_ok:
  assumes inv: "bio_inv s" and dev: "logdev s = 1" and st: "logstart s < disksize s" and h: "held s = {}" and d: "dirty s = {}"
    and n: "head_n (memdisk s (logstart s)) \<le> LOGSIZE"
  defines "hdr \<equiv> memdisk s (logstart s)"
  obtains t where "read_head s = Ok () t" "bio_inv t" "bview t = bview s" "memdisk t = memdisk s" "diskops t = diskops s"
    "held t = {}" "dirty t = {}" "disksize t = disksize s" "logdev t = 1" "logstart t = logstart s" "logsize t = logsize s"
    "logbusy t = logbusy s" "lh_n t = head_n hdr"
    "lh_sector t = map (head_sector hdr) [0..<head_n hdr] @ drop (head_n hdr) (lh_sector s)" "log_st.more t = log_st.more s"
proof -
  let ?k = "logstart s"
  have room: "?k \<in> dirty s \<or> card (held s \<union> dirty s) < NBUF" and nh: "?k \<notin> held s" using h d by (simp_all add: NBUF_def)
  obtain b t1 where t1: "bread 1 ?k s = Ok b t1" "bio_inv t1" "bview t1 = bview s" "memdisk t1 = memdisk s"
    "diskops t1 = diskops s" "holds t1 b ?k" "held t1 = insert ?k (held s)" "dirty t1 = dirty s" "same_rest s t1"
    using bread_held [OF inv st nh room] by metis
  note e = same_rest_log [OF t1(9)]
  have vk: "bview s ?k = hdr" using bview_clean [OF inv] h d by (simp add: hdr_def)
  have db: "bdata (getb t1 b) = hdr" using holds_data [OF t1(2,6)] t1(3) vk by simp
  let ?u = "t1\<lparr>lh_n := head_n hdr, lh_sector := map (head_sector hdr) [0..<head_n hdr] @ drop (head_n hdr) (lh_sector t1)\<rparr>"
  have u: "bio_inv ?u" "holds ?u b ?k" using t1(2,6) by simp_all
  have c: "?k \<in> dirty ?u \<or> bview ?u ?k = memdisk ?u ?k" using t1 vk by (simp add: hdr_def)
  obtain t where t: "brelse b ?u = Ok () t" "bio_inv t" "bview t = bview ?u" "memdisk t = memdisk ?u" "diskops t = diskops ?u"
    "held t = held ?u - {?k}" "dirty t = dirty ?u" "same_rest ?u t"
    using brelse_sectors [OF u c] by metis
  note e' = same_rest_log [OF t(8)]
  have "read_head s = Ok () t" using t1(1) t(1) dev n db e by (simp add: read_head_def Let_def hdr_def)
  then show thesis using that [of t] t t1 e e' h d dev by simp
qed

lemma recover_from_log_ok:
  assumes inv: "bio_inv s" "held s = {}" "dirty s = {}" and dev: "logdev s = 1" and hdr: "header_ok (logstart s) (disksize s) (memdisk s)"
  obtains t where "recover_from_log s = Ok () t" "memdisk t = apply_ops (recover_ops (logstart s) (memdisk s)) (memdisk s)"
    "diskops t = diskops s @ recover_ops (logstart s) (memdisk s)" "bio_inv t" "held t = {}" "dirty t = {}"
    "lh_n t = 0" "disksize t = disksize s" "logdev t = 1" "logstart t = logstart s" "logsize t = logsize s" "logbusy t = logbusy s"
    "log_st.more t = log_st.more s" "length (lh_sector s) = LOGSIZE \<longrightarrow> length (lh_sector t) = LOGSIZE"
proof -
  let ?k = "logstart s" let ?h = "memdisk s ?k" let ?n = "head_n ?h"
  let ?secs = "map (head_sector ?h) [0..<?n]"
  have hk: "?n \<le> LOGSIZE" "?k + ?n < disksize s" "distinct ?secs" "\<And>i. i < ?n \<Longrightarrow> head_sector ?h i < disksize s"
    "\<And>i. i < ?n \<Longrightarrow> head_sector ?h i \<notin> {?k..?k + ?n}"
    using hdr by (auto simp: header_ok_def Let_def)
  have kl: "?k < disksize s" using hk(2) by simp
  obtain t1 where t1: "read_head s = Ok () t1" "bio_inv t1" "bview t1 = bview s" "memdisk t1 = memdisk s" "diskops t1 = diskops s"
    "held t1 = {}" "dirty t1 = {}" "disksize t1 = disksize s" "logdev t1 = 1" "logstart t1 = ?k" "logsize t1 = logsize s"
    "logbusy t1 = logbusy s" "lh_n t1 = ?n" "lh_sector t1 = ?secs @ drop ?n (lh_sector s)" "log_st.more t1 = log_st.more s"
    by (rule read_head_ok [OF inv(1) dev kl inv(2,3) hk(1)])
  have nth: "lh_sector t1 ! i = head_sector ?h i" if "i < ?n" for i using t1(14) that by (simp add: nth_append)
  have mp: "map ((!) (lh_sector t1)) [0..<0 + ?n] = ?secs" using nth by simp
  have "\<exists>t. install_from ?n 0 t1 = Ok () t \<and> bio_inv t \<and> held t = {} \<and>
    dirty t = dirty t1 - (!) (lh_sector t1) ` {0..<0 + ?n} \<and>
    memdisk t = apply_ops (install_ops (lh_sector t1) (logstart t1) 0 ?n (memdisk t1)) (memdisk t1) \<and>
    bview t = apply_ops (install_ops (lh_sector t1) (logstart t1) 0 ?n (memdisk t1)) (bview t1) \<and>
    diskops t = diskops t1 @ install_ops (lh_sector t1) (logstart t1) 0 ?n (memdisk t1) \<and> same_rest t1 t"
  proof (rule install_from_ok [OF t1(2,9,6)])
    show "logstart t1 + i + 1 < disksize t1 \<and> logstart t1 + i + 1 \<notin> dirty t1 \<and> lh_sector t1 ! i < disksize t1"
      if "0 \<le> i" "i < 0 + ?n" for i using that t1 hk(2,4) nth by simp
    show "lh_sector t1 ! i \<noteq> logstart t1 + j + 1" if "0 \<le> i" "i < 0 + ?n" "0 \<le> j" "j < 0 + ?n" for i j
      using hk(5) [of i] that nth t1(10) by auto
    show "distinct (map ((!) (lh_sector t1)) [0..<0 + ?n])" unfolding mp by (fact hk)
  qed (simp_all add: t1 NBUF_def)
  moreover have io: "install_ops (lh_sector t1) (logstart t1) 0 ?n (memdisk t1) = install_ops ?secs ?k 0 ?n (memdisk s)"
    unfolding t1(4,10) using nth by (intro install_ops_prefix) simp
  ultimately obtain t2 where t2: "install_trans t1 = Ok () t2" "bio_inv t2" "held t2 = {}" "dirty t2 = {}"
    "memdisk t2 = apply_ops (install_ops ?secs ?k 0 ?n (memdisk s)) (memdisk s)"
    "diskops t2 = diskops s @ install_ops ?secs ?k 0 ?n (memdisk s)" "same_rest t1 t2"
    using t1 by (auto simp: install_trans_def)
  note e2 = same_rest_log [OF t2(7)]
  have k2: "memdisk t2 ?k = ?h"
  proof -
    have im: "fst ` set (install_ops ?secs ?k 0 ?n (memdisk s)) = head_sector ?h ` {0..<?n}"
      unfolding set_map [symmetric] fst_install_ops by (auto simp: image_iff)
    have "head_sector ?h i \<noteq> ?k" if "i < ?n" for i
      using hk(5) [OF that] by (metis atLeastAtMost_iff le_add1 order_refl)
    then have "?k \<notin> fst ` set (install_ops ?secs ?k 0 ?n (memdisk s))" unfolding im by (metis atLeastLessThan_iff imageE)
    then show ?thesis unfolding t2(5) by (rule apply_ops_other)
  qed
  let ?u = "t2\<lparr>lh_n := 0\<rparr>"
  have u: "bio_inv ?u" "logdev ?u = 1" "logstart ?u < disksize ?u" "held ?u = {}" "logstart ?u \<notin> dirty ?u" "card (dirty ?u) < NBUF"
    using t2 e2 t1 kl by (simp_all add: NBUF_def)
  have ue: "logstart ?u = ?k" "memdisk ?u ?k = ?h" "lh_n ?u = 0" "lh_sector ?u = lh_sector t1" "diskops ?u = diskops t2" "memdisk ?u = memdisk t2"
    using e2 t1 k2 by simp_all
  obtain t3 where t3: "write_head ?u = Ok () t3" "bio_inv t3" "memdisk t3 = (memdisk t2)(?k := head_data 0 [] ?h)"
    "diskops t3 = diskops t2 @ [(?k, head_data 0 [] ?h)]" "held t3 = {}" "dirty t3 = {}" "same_rest ?u t3"
    using write_head_ok [OF u, unfolded ue k2 log_upd_dirty(1) t2(4) head_data_0 [of "lh_sector t1"]] by metis
  note e3 = same_rest_log [OF t3(7)]
  have "recover_from_log s = Ok () t3" using t1(1) t2(1) t3(1) by (simp add: recover_from_log_def)
  moreover have "length (lh_sector s) = LOGSIZE \<longrightarrow> length (lh_sector t3) = LOGSIZE" using e3 e2 t1(14) hk(1) by simp
  ultimately show thesis
    using that [of t3] t1 t2 t3 e2 e3 by (simp add: recover_ops_def)
qed

lemma readsb_ok:
  assumes inv: "bio_inv s" "held s = {}" "dirty s = {}" and d: "1 < disksize s"
  obtains t where "readsb 1 s = Ok (sb_of (memdisk s 1)) t" "bio_inv t" "bview t = bview s" "memdisk t = memdisk s"
    "diskops t = diskops s" "held t = {}" "dirty t = {}" "same_rest s t"
proof -
  have room: "1 \<in> dirty s \<or> card (held s \<union> dirty s) < NBUF" and nh: "1 \<notin> held s" using inv by (simp_all add: NBUF_def)
  obtain b t1 where t1: "bread 1 1 s = Ok b t1" "bio_inv t1" "bview t1 = bview s" "memdisk t1 = memdisk s"
    "diskops t1 = diskops s" "holds t1 b 1" "held t1 = insert 1 (held s)" "dirty t1 = dirty s" "same_rest s t1"
    using bread_held [OF inv(1) d nh room] by metis
  have vk: "bview s 1 = memdisk s 1" using bview_clean [OF inv(1)] inv by simp
  have db: "bdata (getb t1 b) = memdisk s 1" using holds_data [OF t1(2,6)] t1(3) vk by simp
  have c: "1 \<in> dirty t1 \<or> bview t1 1 = memdisk t1 1" using t1 vk by simp
  obtain t where t: "brelse b t1 = Ok () t" "bio_inv t" "bview t = bview t1" "memdisk t = memdisk t1" "diskops t = diskops t1"
    "held t = held t1 - {1}" "dirty t = dirty t1" "same_rest t1 t"
    using brelse_sectors [OF t1(2,6) c] by metis
  have "readsb 1 s = Ok (sb_of (memdisk s 1)) t" using t1(1) t(1) db by (simp add: readsb_def Let_def)
  then show thesis using that [of t] t t1 inv same_rest_trans [OF t1(9) t(8)] by simp
qed

text \<open>Boot: the log is located through the super block and recovered.\<close>

definition sb_log :: "block \<Rightarrow> nat \<times> nat" where
  "sb_log d = (unat (sb_size (sb_of d) - sb_nlog (sb_of d)), unat (sb_nlog (sb_of d)))"

lemma initlog_ok:
  assumes b: "booted s" and sb: "sb_log (memdisk s 1) = (st, n)" and hdr: "header_ok st (disksize s) (memdisk s)"
    and d: "1 < disksize s"
  obtains t where "initlog s = Ok () t" "memdisk t = apply_ops (recover_ops st (memdisk s)) (memdisk s)"
    "diskops t = diskops s @ recover_ops st (memdisk s)" "bio_inv t" "held t = {}" "dirty t = {}"
    "lh_n t = 0" "disksize t = disksize s" "logdev t = 1" "logstart t = st" "logsize t = n" "logbusy t = logbusy s"
    "log_st.more t = log_st.more s" "length (lh_sector t) = LOGSIZE"
proof -
  have inv: "bio_inv s" "held s = {}" "dirty s = {}" using b by (simp_all add: booted_def)
  obtain t1 where t1: "readsb 1 s = Ok (sb_of (memdisk s 1)) t1" "bio_inv t1" "bview t1 = bview s" "memdisk t1 = memdisk s"
    "diskops t1 = diskops s" "held t1 = {}" "dirty t1 = {}" "same_rest s t1"
    by (rule readsb_ok [OF inv d])
  note e = same_rest_log [OF t1(8)]
  let ?u = "t1\<lparr>logstart := st, logsize := n, logdev := ROOTDEV\<rparr>"
  have u: "bio_inv ?u" "held ?u = {}" "dirty ?u = {}" "logdev ?u = 1" "header_ok (logstart ?u) (disksize ?u) (memdisk ?u)"
    using t1 hdr e by (simp_all add: ROOTDEV_def)
  obtain t where t: "recover_from_log ?u = Ok () t" "memdisk t = apply_ops (recover_ops (logstart ?u) (memdisk ?u)) (memdisk ?u)"
    "diskops t = diskops ?u @ recover_ops (logstart ?u) (memdisk ?u)" "bio_inv t" "held t = {}" "dirty t = {}"
    "lh_n t = 0" "disksize t = disksize ?u" "logdev t = 1" "logstart t = logstart ?u" "logsize t = logsize ?u" "logbusy t = logbusy ?u"
    "log_st.more t = log_st.more ?u" "length (lh_sector ?u) = LOGSIZE \<longrightarrow> length (lh_sector t) = LOGSIZE"
    by (rule recover_from_log_ok [OF u])
  have "initlog s = Ok () t"
    using t1(1) t(1) sb by (simp add: initlog_def LOGSIZE_def BSIZE_def ROOTDEV_def sb_log_def)
  then show thesis using that [of t] t t1 e b by (simp add: booted_def)
qed

text \<open>After recovery the log is empty and the invariant holds.\<close>

lemma head_n_0: "length d = BSIZE \<Longrightarrow> head_n (head_data 0 secs d) = 0"
  by (simp add: head_data_n LOGSIZE_def)

lemma log_inv_empty:
  assumes "bio_inv t" and "held t = {}" and "dirty t = {}" and "lh_n t = 0" and "log_geometry t"
    and "head_n (memdisk t (logstart t)) = 0"
  shows "log_inv t"
  using assms bview_clean [OF assms(1)]
  by (simp add: log_inv_def logged_def settled_def log_geometry_def)

subsection \<open>Crashes\<close>

text \<open>What recovery makes of a sector: the copy in the log if the header names it, else what it was.\<close>

lemma header_okD:
  assumes "header_ok st nsec d"
  shows "head_n (d st) \<le> LOGSIZE" "st + head_n (d st) < nsec" "distinct (map (head_sector (d st)) [0..<head_n (d st)])"
    "i < head_n (d st) \<Longrightarrow> head_sector (d st) i < nsec" "i < head_n (d st) \<Longrightarrow> head_sector (d st) i \<notin> {st..st + head_n (d st)}"
  using assms by (auto simp: header_ok_def Let_def)

lemma fst_recover_install:
  "map fst (install_ops (map (head_sector (d st)) [0..<head_n (d st)]) st 0 (head_n (d st)) d) = map (head_sector (d st)) [0..<head_n (d st)]"
  unfolding fst_install_ops by simp

lemma recover_logged:
  assumes "header_ok st nsec d" and "i < head_n (d st)" and "k = head_sector (d st) i"
  shows "apply_ops (recover_ops st d) d k = d (st + i + 1)"
proof -
  have ne: "k \<noteq> st" using header_okD(5) [OF assms(1,2)] assms(3) by auto
  have "apply_ops (install_ops (map (head_sector (d st)) [0..<head_n (d st)]) st 0 (head_n (d st)) d) d k = d (st + i + 1)"
  proof (rule apply_ops_distinct)
    show "distinct (map fst (install_ops (map (head_sector (d st)) [0..<head_n (d st)]) st 0 (head_n (d st)) d))"
      unfolding fst_recover_install by (rule header_okD(3) [OF assms(1)])
    show "(k, d (st + i + 1)) \<in> set (install_ops (map (head_sector (d st)) [0..<head_n (d st)]) st 0 (head_n (d st)) d)"
      using assms(2,3) by (auto simp: install_ops_def)
  qed
  with ne show ?thesis by (simp add: recover_ops_def)
qed

lemma recover_other:
  assumes "k \<noteq> st" and "\<And>i. i < head_n (d st) \<Longrightarrow> k \<noteq> head_sector (d st) i"
  shows "apply_ops (recover_ops st d) d k = d k"
proof -
  have "k \<notin> set (map fst (install_ops (map (head_sector (d st)) [0..<head_n (d st)]) st 0 (head_n (d st)) d))"
    unfolding fst_recover_install using assms(2) by (metis atLeastLessThan_iff imageE set_map set_upt)
  then show ?thesis using assms(1) by (simp add: recover_ops_def apply_ops_other)
qed

text \<open>Recovery depends only on the header, the log copies and the sectors the header does not name.\<close>

lemma recover_cong:
  assumes ok: "header_ok st nsec d" and n: "head_n (e st) = head_n (d st)"
    and secs: "\<And>i. i < head_n (d st) \<Longrightarrow> head_sector (e st) i = head_sector (d st) i"
    and logs: "\<And>i. i < head_n (d st) \<Longrightarrow> e (st + i + 1) = d (st + i + 1)"
    and rest: "(\<And>i. i < head_n (d st) \<Longrightarrow> k \<noteq> head_sector (d st) i) \<Longrightarrow> e k = d k" and k: "k \<noteq> st"
  shows "header_ok st nsec e" "apply_ops (recover_ops st e) e k = apply_ops (recover_ops st d) d k"
proof -
  have "map (head_sector (e st)) [0..<head_n (e st)] = map (head_sector (d st)) [0..<head_n (d st)]" using n secs by simp
  then show ok': "header_ok st nsec e" using ok unfolding header_ok_def Let_def n by metis
  show "apply_ops (recover_ops st e) e k = apply_ops (recover_ops st d) d k"
  proof (cases "\<exists>i < head_n (d st). k = head_sector (d st) i")
    case True
    then obtain i where i: "i < head_n (d st)" "k = head_sector (d st) i" by blast
    then show ?thesis
      using recover_logged [OF ok i] recover_logged [OF ok', of i k] n secs logs by simp
  next
    case False
    then show ?thesis using recover_other [of k st d] recover_other [of k st e] n secs rest k by metis
  qed
qed

lemma recover_empty:
  assumes "head_n (d st) = 0" and "st < nsec"
  shows "header_ok st nsec d" and "k \<noteq> st \<Longrightarrow> apply_ops (recover_ops st d) d k = d k"
  using assms recover_other [of k st d] by (simp_all add: header_ok_def)

text \<open>A crash during recovery is harmless: recovering again gives the same disk.\<close>

lemma recover_prefix:
  assumes ok: "header_ok st nsec d" and blk: "length (d st) = BSIZE" and k: "k \<noteq> st"
  defines "e j \<equiv> apply_ops (take j (recover_ops st d)) d"
  shows "header_ok st nsec (e j)" "apply_ops (recover_ops st (e j)) (e j) k = apply_ops (recover_ops st d) d k"
proof -
  let ?n = "head_n (d st)"
  let ?io = "install_ops (map (head_sector (d st)) [0..<?n]) st 0 ?n d"
  have len: "length ?io = ?n" by (simp add: install_ops_def)
  have "header_ok st nsec (e j) \<and> apply_ops (recover_ops st (e j)) (e j) k = apply_ops (recover_ops st d) d k"
  proof (cases "j \<le> ?n")
    case True
    then have ej: "e j = apply_ops (take j ?io) d" by (simp add: e_def recover_ops_def len)
    have keep: "e j x = d x" if "\<And>i. i < ?n \<Longrightarrow> x \<noteq> head_sector (d st) i" for x
    proof -
      have "x \<notin> set (map fst ?io)" unfolding fst_recover_install using that by (metis atLeastLessThan_iff imageE set_map set_upt)
      then have "x \<notin> fst ` set (take j ?io)" using set_take_subset [of j ?io] by auto
      then show ?thesis unfolding ej by (rule apply_ops_other)
    qed
    have area: "e j x = d x" if "x \<in> {st..st + ?n}" for x
      using keep [of x] header_okD(5) [OF ok] that by blast
    show ?thesis
    proof (intro conjI)
      note c = recover_cong [OF ok, of "e j"]
      have h: "e j st = d st" using area by simp
      have l: "e j (st + i + 1) = d (st + i + 1)" if "i < ?n" for i using area [of "st + i + 1"] that by simp
      show "header_ok st nsec (e j)" by (rule c(1) [where k = k]) (use h l keep k in auto)
      show "apply_ops (recover_ops st (e j)) (e j) k = apply_ops (recover_ops st d) d k"
        by (rule c(2)) (use h l keep k in auto)
    qed
  next
    case False
    then have ej: "e j = apply_ops (recover_ops st d) d" by (simp add: e_def recover_ops_def len)
    have "e j st = head_data 0 [] (d st)" unfolding ej by (simp add: recover_ops_def)
    then have "head_n (e j st) = 0" by (simp add: head_n_0 blk)
    moreover have "st < nsec" using header_okD(2) [OF ok] by simp
    ultimately show ?thesis using recover_empty(1) [of "e j" st nsec] recover_empty(2) [of "e j" st nsec k] k ej by simp
  qed
  then show "header_ok st nsec (e j)" "apply_ops (recover_ops st (e j)) (e j) k = apply_ops (recover_ops st d) d k" by auto
qed

text \<open>A crash during a commit: recovery gives the contents before the first write, or after all.\<close>

lemma commit_prefix:
  assumes inv: "log_inv s" and h: "held s = {}" and k: "k \<notin> log_area s"
  defines "e j \<equiv> apply_ops (take j (commit_ops s)) (memdisk s)"
  shows "header_ok (logstart s) (disksize s) (e j)"
    "apply_ops (recover_ops (logstart s) (e j)) (e j) k = (if j = 0 then memdisk s k else bview s k)"
proof -
  let ?st = "logstart s" and ?n = "lh_n s"
  let ?io = "install_ops (lh_sector s) ?st 0 ?n (memdisk s)" and ?h = "head_data ?n (lh_sector s) (memdisk s ?st)"
  note f = log_inv_facts [OF inv]
  have kst: "k \<noteq> ?st" using k f(8) by auto
  have len: "length ?io = ?n" by (simp add: install_ops_def)
  have fsts: "set (map fst ?io) = logged s" unfolding fst_install_ops logged_alt [OF inv] by simp
  have blk: "length (memdisk s ?st) = BSIZE" using bio_inv_block [OF log_inv_bio [OF inv]] .
  have disj: "logged s \<inter> log_area s = {}" using inv by (simp add: log_inv_def)
  have stl: "settled s k" using inv h by (simp add: log_inv_def)
  have bk: "bview s k = memdisk s k" if "k \<notin> logged s" using stl that by (simp add: settled_def)
  have "header_ok ?st (disksize s) (e j) \<and>
    apply_ops (recover_ops ?st (e j)) (e j) k = (if j = 0 then memdisk s k else bview s k)"
  proof -
    consider (start) "j = 0 \<or> ?n = 0" | (inst) m where "?n > 0" "j = Suc m" "m \<le> ?n" | (fin) "?n > 0" "Suc ?n < j"
      by (cases j; cases "?n = 0"; cases "j \<le> Suc ?n") auto
    then show ?thesis
    proof cases
      case start
      then have ej: "e j = memdisk s" by (auto simp: e_def commit_ops_def)
      have "head_n (memdisk s ?st) = 0" using inv by (simp add: log_inv_def)
      moreover have "?n = 0 \<Longrightarrow> bview s k = memdisk s k" using bk by (simp add: logged_def)
      ultimately show ?thesis using recover_empty(1) [of "memdisk s" ?st "disksize s"] recover_empty(2) [of "memdisk s" ?st "disksize s" k] f(5) kst ej start by auto
    next
      case (inst m)
      have ej: "e j = apply_ops (take m ?io) ((memdisk s)(?st := ?h))"
        using inst by (simp add: e_def commit_ops_def Let_def len)
      have keep: "e j x = ((memdisk s)(?st := ?h)) x" if "x \<notin> logged s" for x
      proof -
        have "x \<notin> fst ` set (take m ?io)" using that fsts set_take_subset [of m ?io] by auto
        then show ?thesis unfolding ej by (rule apply_ops_other)
      qed
      have hd: "e j ?st = ?h" using keep [of ?st] f(8) disj by auto
      have hn: "head_n ?h = ?n" using head_data_n [OF f(9) blk] .
      have sec: "head_sector ?h i = lh_sector s ! i" if "i < ?n" for i
        using head_data_sector [OF f(9) blk that] f(10) [OF logged_nth [OF inv that]] f(12) by simp
      have lg: "e j (?st + i + 1) = memdisk s (?st + i + 1)" if "i < ?n" for i
        using keep [of "?st + i + 1"] f(7) [OF that] disj by auto
      have secs: "map (head_sector ?h) [0..<?n] = take ?n (lh_sector s)"
        using sec f(11) by (auto intro: nth_equalityI)
      have ok: "header_ok ?st (disksize s) (e j)"
      proof -
        have "x < disksize s \<and> x \<notin> {?st..?st + ?n}" if "x \<in> logged s" for x
          using that f(10) [OF that] disj inv by (auto simp: log_area_def log_inv_def)
        moreover have "?st + ?n < disksize s" "distinct (take ?n (lh_sector s))"
          using inv by (auto simp: log_inv_def log_geometry_def)
        ultimately show ?thesis unfolding header_ok_def Let_def hd hn secs using f(9) by (simp add: logged_def)
      qed
      moreover have "apply_ops (recover_ops ?st (e j)) (e j) k = bview s k"
      proof (cases "k \<in> logged s")
        case True
        then obtain i where i: "i < ?n" "k = lh_sector s ! i" by (auto simp: logged_alt [OF inv])
        then have "k = head_sector (e j ?st) i" "i < head_n (e j ?st)" using sec hd hn by simp_all
        from recover_logged [OF ok this(2,1)] have "apply_ops (recover_ops ?st (e j)) (e j) k = memdisk s (?st + i + 1)"
          using lg i by simp
        also have "\<dots> = bview s k" using stl True i by (simp add: settled_def)
        finally show ?thesis .
      next
        case False
        then have "apply_ops (recover_ops ?st (e j)) (e j) k = e j k"
          using hd hn sec logged_nth [OF inv] kst by (intro recover_other) auto
        then show ?thesis using keep [OF False] bk [OF False] kst by simp
      qed
      ultimately show ?thesis using inst by simp
    next
      case fin
      have ej: "e j = (apply_ops ?io ((memdisk s)(?st := ?h)))(?st := head_data 0 (lh_sector s) ?h)"
        using fin by (simp add: e_def commit_ops_def Let_def len)
      have "head_n (e j ?st) = 0" by (simp add: ej head_n_0 blk)
      moreover have "e j k = bview s k"
        using kst bk install_view [OF inv h] by (simp add: ej)
      ultimately show ?thesis using recover_empty(1) [of "e j" ?st "disksize s"] recover_empty(2) [of "e j" ?st "disksize s" k] f(5) kst fin by simp
    qed
  qed
  then show "header_ok ?st (disksize s) (e j)"
    "apply_ops (recover_ops ?st (e j)) (e j) k = (if j = 0 then memdisk s k else bview s k)" by auto
qed

section \<open>Transactions\<close>

lemma log_write_total:
  assumes inv: "log_inv s" and h: "holds s b k" and busy: "logbusy s"
    and n: "lh_n s < LOGSIZE" "Suc (lh_n s) < logsize s" and room: "card (held s \<union> logged s) < NBUF"
  shows "\<exists>t. log_write b s = Ok () t"
proof -
  define i where "i = log_slot (lh_sector s) (lh_n s) k"
  let ?l = "logstart s + i + 1" and ?s = "s\<lparr>lh_sector := (lh_sector s)[i := k]\<rparr>"
  note sec = holds_sector [OF h]
  have la: "?l \<in> log_area s" using n log_slot_less [of "lh_sector s" "lh_n s" k] by (auto simp: log_area_def i_def)
  then have lh: "?l \<notin> held ?s" "?l < disksize ?s" using inv by (auto simp: log_inv_def log_geometry_def log_area_def)
  have inv': "bio_inv ?s" using log_inv_bio [OF inv] by simp
  have room': "?l \<in> dirty ?s \<or> card (held ?s \<union> dirty ?s) < NBUF" using room log_inv_facts(1) [OF inv] by simp
  obtain a t1 where r: "bread 1 ?l ?s = Ok a t1" using bread_ok [OF inv' lh(2,1) room'] by blast
  note r1 = bread_spec(1,2) [OF inv' r] bread_sectors [OF inv' r]
  have hb1: "holds t1 b k" using r1(4) h by simp
  have len: "length (bdata (getb t1 b)) = BSIZE" using holds_data [OF r1(1) hb1] bview_length [OF r1(1)] by simp
  define u1 where "u1 = bmodify a (\<lambda>_. bdata (getb t1 b)) t1"
  note m = bmodify_sectors [OF r1(1,3), of "\<lambda>_. bdata (getb t1 b)", OF len, folded u1_def]
  have hu: "holds u1 a ?l" using m(3) r1(3) by simp
  obtain t2 where t2: "bwrite a u1 = Ok () t2" "bio_inv t2" "holds t2 = holds u1"
    using bwrite_sectors [OF m(1) hu] by metis
  have "B_BUSY \<in> flags (getb t2 a)" using hu t2(3) by (metis holds_def)
  then obtain t3 where t3: "brelse a t2 = Ok () t3" using brelse_Ok by blast
  show ?thesis
    using r t2(1) t3 busy n sec by (simp add: log_write_def Let_def i_def u1_def)
qed

text \<open>
  What a system call does between \<^verbatim>\<open>begin_trans\<close> and \<^verbatim>\<open>commit_trans\<close>: it reads blocks outside the log,
  changes blocks it holds, logs them and releases them once they are settled.
\<close>

inductive tx_step :: "'a log_st_scheme \<Rightarrow> 'a log_st_scheme \<Rightarrow> bool" where
  tx_read: "bread 1 k s = Ok b t \<Longrightarrow> k \<notin> log_area s \<Longrightarrow> tx_step s t"
| tx_modify: "holds s b k \<Longrightarrow> length (f (bview s k)) = BSIZE \<Longrightarrow> tx_step s (bmodify b f s)"
| tx_log: "holds s b k \<Longrightarrow> log_write b s = Ok () t \<Longrightarrow> tx_step s t"
| tx_release: "holds s b k \<Longrightarrow> settled s k \<Longrightarrow> brelse b s = Ok () t \<Longrightarrow> tx_step s t"

definition same_log :: "'a log_st_scheme \<Rightarrow> 'a log_st_scheme \<Rightarrow> bool" where
  "same_log s t \<longleftrightarrow> logstart t = logstart s \<and> logsize t = logsize s \<and> disksize t = disksize s \<and>
     (\<forall>k. k \<notin> log_area s \<longrightarrow> memdisk t k = memdisk s k)"

lemma same_log_trans: "same_log s t \<Longrightarrow> same_log t u \<Longrightarrow> same_log s u"
  by (simp add: same_log_def log_area_def)

lemma same_log_area: "same_log s t \<Longrightarrow> log_area t = log_area s"
  by (simp add: same_log_def log_area_def)

lemma same_rest_same_log: "same_rest s t \<Longrightarrow> memdisk t = memdisk s \<Longrightarrow> same_log s t"
  by (simp add: same_log_def same_rest_log)

lemma tx_step_inv:
  assumes "tx_step s t" and "log_inv s"
  shows "log_inv t" and "same_log s t"
proof -
  have "log_inv t \<and> same_log s t"
    using assms
  proof induction
    case (tx_read k s b t)
    note b = log_inv_bio [OF tx_read(3)]
    from bread_log(1) [OF tx_read(3,1,2)] same_rest_same_log [OF bread_rest(3,1) [OF b tx_read(1)]] show ?case ..
  next
    case (tx_modify s b k f)
    note m = bmodify_sectors [OF log_inv_bio [OF tx_modify(3)] tx_modify(1), of f, OF tx_modify(2)]
    from bmodify_log [OF tx_modify(3,1), of f, OF tx_modify(2)] same_rest_same_log [OF m(8,6)] show ?case ..
  next
    case (tx_log s b k t)
    note w = log_write_inv [OF tx_log(3,1,2)] and e = log_write_effect [OF tx_log(3,1,2)]
    from w(1,7,10) e(12,13) show ?case by (simp add: same_log_def)
  next
    case (tx_release s b k t)
    note r = brelse_log [OF tx_release(4,1,2,3)]
    from r(1) same_rest_same_log [OF r(8,3)] show ?case ..
  qed
  then show "log_inv t" "same_log s t" by auto
qed

lemma tx_steps_inv:
  assumes "tx_step\<^sup>*\<^sup>* s t" and "log_inv s"
  shows "log_inv t" and "same_log s t"
  using assms(1)
proof (induction rule: rtranclp_induct)
  case base
  show "log_inv s" "same_log s s" using assms(2) by (simp_all add: same_log_def)
next
  case (step y z)
  from tx_step_inv [OF step(2,3)] same_log_trans [OF step(4)] show "log_inv z" "same_log s z" by auto
qed

lemma begin_trans_inv:
  assumes "begin_trans s = Ok () t" and "log_inv s"
  shows "log_inv t" "same_log s t" "bview t = bview s" "logbusy t" "held t = held s" "lh_n t = lh_n s"
proof -
  have t: "t = s\<lparr>logbusy := True\<rparr>" using assms(1) by (simp add: begin_trans_def split: if_splits)
  have "settled t k = settled s k" for k by (simp add: t settled_def logged_def)
  then show "log_inv t" "same_log s t" "bview t = bview s" "logbusy t" "held t = held s" "lh_n t = lh_n s"
    using assms(2) t by (simp_all add: log_inv_def log_geometry_def logged_def log_area_def same_log_def)
qed

text \<open>At rest the view of the kernel is the disk.\<close>

lemma view_at_rest:
  assumes "log_inv s" and "held s = {}" and "lh_n s = 0"
  shows "bview s k = memdisk s k"
proof -
  have "settled s k" using assms(1,2) by (simp add: log_inv_def)
  then show ?thesis using assms(3) by (simp add: settled_def logged_def)
qed

lemma commit_trans_inv:
  assumes inv: "log_inv s" and h: "held s = {}"
  obtains t where "commit_trans s = Ok () t" "diskops t = diskops s @ commit_ops s" "log_inv t" "held t = {}" "lh_n t = 0"
    "\<not> logbusy t" "\<And>k. k \<notin> log_area s \<Longrightarrow> bview t k = bview s k" "disksize t = disksize s" "logstart t = logstart s"
    "logsize t = logsize s" "log_st.more t = log_st.more s"
proof -
  obtain t where t: "commit_trans s = Ok () t" "diskops t = diskops s @ commit_ops s"
    "memdisk t = apply_ops (commit_ops s) (memdisk s)" "bio_inv t" "held t = {}" "dirty t = {}"
    "bview t = apply_ops (commit_ops s) (bview s)" "disksize t = disksize s" "log_st.more t = log_st.more s"
    "logstart t = logstart s" "logsize t = logsize s" "logdev t = logdev s" "lh_n t = 0" "lh_sector t = lh_sector s"
    "\<not> logbusy t"
    by (rule commit_trans_ok [OF inv h])
  have g: "log_geometry t" using inv t by (simp add: log_inv_def log_geometry_def)
  have blk: "length (memdisk s (logstart s)) = BSIZE" using bio_inv_block [OF log_inv_bio [OF inv]] .
  have "head_n (memdisk t (logstart t)) = 0"
    using t(3,10) inv blk by (cases "lh_n s = 0") (simp_all add: commit_ops_def Let_def log_inv_def head_n_0)
  then have inv': "log_inv t" using log_inv_empty [OF t(4,5,6,13) g] by simp
  have "bview t k = bview s k" if "k \<notin> log_area s" for k
  proof -
    have "k \<noteq> logstart s" using that log_inv_facts(8) [OF inv] by auto
    then show ?thesis unfolding t(7) commit_ops_def Let_def using install_view [OF inv h] by simp
  qed
  with that [of t] t inv' show thesis by simp
qed

text \<open>The kernel just after the boot loader: static data zeroed, the disk as found.\<close>

definition log_bss :: "(nat \<Rightarrow> block) \<Rightarrow> nat \<Rightarrow> log_st" where
  "log_bss d n =
     \<lparr>pmem = (\<lambda>_. 0), freelist = 0, kend = KERNBASE, kdata = KERNBASE, kpgdir = 0, ptable = [], nextpid = 1, ticks = 0, initproc = None, curproc = None,
      memdisk = d, disksize = n, diskops = [],
      bufs = replicate NBUF \<lparr>flags = {}, bdev = 0, sector = 0, bdata = replicate BSIZE 0\<rparr>, lru = [],
      logstart = 0, logsize = 0, logbusy = False, logdev = 0, lh_n = 0, lh_sector = replicate LOGSIZE 0\<rparr>"

lemma booted_binit:
  fixes s :: "'a log_st_scheme"
  assumes "length (bufs s) = NBUF" and "\<forall>x \<in> set (bufs s). flags x = {} \<and> length (bdata x) = BSIZE"
    and "\<forall>k. length (memdisk s k) = BSIZE" and "length (lh_sector s) = LOGSIZE"
  shows "booted (binit s)"
proof -
  have "bio_inv (binit s)" using binit_inv [OF assms(1-3)] by simp
  moreover have "flags (getb (binit s) b) = {}" if "b < NBUF" for b
    using assms(1,2) that by (simp add: getb_def binit_eq)
  then have "held (binit s) = {}" "dirty (binit s) = {}" by (auto simp: held_def dirty_def holds_def caches_def)
  ultimately show ?thesis using assms by (simp add: booted_def binit_eq)
qed

lemma booted_bss:
  assumes "\<forall>k. length (d k) = BSIZE"
  shows "booted (binit (log_bss d n))" "memdisk (binit (log_bss d n)) = d" "disksize (binit (log_bss d n)) = n"
proof -
  show "booted (binit (log_bss d n))" using assms by (intro booted_binit) (auto simp: log_bss_def)
qed (simp_all add: log_bss_def binit_eq)

lemma recovered_inv:
  assumes b: "booted r" and sb: "sb_log (memdisk r 1) = (st, n)" and hdr: "header_ok st (disksize r) (memdisk r)"
    and geo: "1 < disksize r" "0 < n" "n \<le> NBUF" "st + n \<le> disksize r" "disksize r \<le> 2 ^ 32"
  obtains u where "initlog r = Ok () u" "log_inv u" "held u = {}" "lh_n u = 0" "logbusy u = logbusy r" "disksize u = disksize r"
    "logstart u = st" "logsize u = n" "diskops u = diskops r @ recover_ops st (memdisk r)" "log_st.more u = log_st.more r"
    "\<And>k. bview u k = apply_ops (recover_ops st (memdisk r)) (memdisk r) k"
proof -
  obtain u where u: "initlog r = Ok () u" "memdisk u = apply_ops (recover_ops st (memdisk r)) (memdisk r)"
    "diskops u = diskops r @ recover_ops st (memdisk r)" "bio_inv u" "held u = {}" "dirty u = {}"
    "lh_n u = 0" "disksize u = disksize r" "logdev u = 1" "logstart u = st" "logsize u = n" "logbusy u = logbusy r"
    "log_st.more u = log_st.more r" "length (lh_sector u) = LOGSIZE"
    by (rule initlog_ok [OF b sb hdr geo(1)])
  have g: "log_geometry u" using u geo by (simp add: log_geometry_def)
  have "length (memdisk r st) = BSIZE" using b bio_inv_block by (auto simp: booted_def)
  then have "head_n (memdisk u (logstart u)) = 0" unfolding u(2,10) by (simp add: recover_ops_def head_n_0)
  then have inv: "log_inv u" by (rule log_inv_empty [OF u(4,5,6,7) g])
  have "bview u k = apply_ops (recover_ops st (memdisk r)) (memdisk r) k" for k
    using view_at_rest [OF inv u(5,7)] u(2) by simp
  with that [of u] u inv show thesis by simp
qed

text \<open>A disk image whose super block describes the running log.\<close>

definition sb_ok :: "'a log_st_scheme \<Rightarrow> bool" where
  "sb_ok s \<longleftrightarrow> sb_log (memdisk s 1) = (logstart s, logsize s) \<and> 1 < disksize s \<and> 1 \<notin> log_area s"

lemma log_inv_geo:
  assumes "log_inv s"
  shows "0 < logsize s" "logsize s \<le> NBUF" "logstart s + logsize s \<le> disksize s" "disksize s \<le> 2 ^ 32"
  using assms by (simp_all add: log_inv_def log_geometry_def)

text \<open>C5. A crash before the commit: whatever a transaction has read, changed and logged so far, recovery after
  a reboot succeeds and gives the contents every block had when the transaction began.\<close>

theorem crash_before_commit:
  assumes inv: "log_inv s0" "held s0 = {}" "lh_n s0 = 0" and sb: "sb_ok s0"
    and run: "begin_trans s0 = Ok () s1" "tx_step\<^sup>*\<^sup>* s1 s"
    and boot: "booted r" "memdisk r = memdisk s" "disksize r = disksize s"
  shows "\<exists>u. initlog r = Ok () u \<and> log_inv u \<and> (\<forall>k. k \<notin> log_area s0 \<longrightarrow> bview u k = bview s0 k)"
proof -
  note b = begin_trans_inv [OF run(1) inv(1)]
  note t = tx_steps_inv [OF run(2) b(1)]
  have sl: "same_log s0 s" using same_log_trans [OF b(2) t(2)] .
  then have e: "logstart s = logstart s0" "logsize s = logsize s0" "disksize s = disksize s0"
    "\<And>k. k \<notin> log_area s0 \<Longrightarrow> memdisk s k = memdisk s0 k" by (auto simp: same_log_def)
  have h0: "head_n (memdisk s (logstart s)) = 0" using t(1) by (simp add: log_inv_def)
  have st: "logstart s0 < disksize r" using log_inv_facts(5) [OF inv(1)] e boot by simp
  have hdr: "header_ok (logstart s0) (disksize r) (memdisk r)"
    using recover_empty(1) [of "memdisk r" "logstart s0"] h0 e(1) boot(2) st by simp
  have sb': "sb_log (memdisk r 1) = (logstart s0, logsize s0)" "1 < disksize r" using sb e boot by (simp_all add: sb_ok_def)
  obtain u where u: "initlog r = Ok () u" "log_inv u"
    "\<And>k. bview u k = apply_ops (recover_ops (logstart s0) (memdisk r)) (memdisk r) k"
    using recovered_inv [OF boot(1) sb'(1) hdr sb'(2)] log_inv_geo [OF inv(1)] e(3) boot(3) by metis
  have "bview u k = bview s0 k" if k: "k \<notin> log_area s0" for k
  proof -
    have "k \<noteq> logstart s0" using k log_inv_facts(8) [OF inv(1)] by auto
    then have "bview u k = memdisk r k" unfolding u(3) using recover_empty(2) [OF _ st] h0 e(1) boot(2) by simp
    also have "\<dots> = bview s0 k" using e(4) [OF k] boot(2) view_at_rest [OF inv] by simp
    finally show ?thesis .
  qed
  with u show ?thesis by blast
qed

text \<open>C1. A commit is atomic: after a crash that lets any number of the commit's sector writes reach the disk,
  recovery gives every block its contents before the transaction if none did, and its contents after the
  transaction otherwise. The transaction must not rewrite the super block.\<close>

theorem commit_atomic:
  assumes inv: "log_inv s0" "held s0 = {}" "lh_n s0 = 0" and sb: "sb_ok s0"
    and run: "begin_trans s0 = Ok () s1" "tx_step\<^sup>*\<^sup>* s1 s" and idle: "held s = {}" and nsb: "1 \<notin> logged s"
    and com: "commit_trans s = Ok () t"
    and boot: "booted r" "memdisk r = apply_ops (take j (drop (length (diskops s)) (diskops t))) (memdisk s)"
      "disksize r = disksize s"
  shows "\<exists>u. initlog r = Ok () u \<and> log_inv u \<and>
    (\<forall>k. k \<notin> log_area s0 \<longrightarrow> bview u k = (if j = 0 then bview s0 k else bview s k))"
proof -
  note b = begin_trans_inv [OF run(1) inv(1)]
  note x = tx_steps_inv [OF run(2) b(1)]
  have sl: "same_log s0 s" using same_log_trans [OF b(2) x(2)] .
  note la = same_log_area [OF sl]
  have e: "logstart s = logstart s0" "logsize s = logsize s0" "disksize s = disksize s0"
    "\<And>k. k \<notin> log_area s0 \<Longrightarrow> memdisk s k = memdisk s0 k" using sl by (auto simp: same_log_def)
  have ops: "drop (length (diskops s)) (diskops t) = commit_ops s"
    using commit_trans_inv [OF x(1) idle] com by (metis append_eq_conv_conj outcome.inject(1))
  have r: "memdisk r = apply_ops (take j (commit_ops s)) (memdisk s)" using boot(2) ops by simp
  have sA: "1 \<notin> log_area s" using sb la by (simp add: sb_ok_def)
  have hdr: "header_ok (logstart s0) (disksize r) (memdisk r)"
    using commit_prefix(1) [OF x(1) idle sA, of j] r e boot(3) by simp
  have "1 \<notin> fst ` set (take j (commit_ops s))"
  proof -
    have "set (map fst (commit_ops s)) \<subseteq> insert (logstart s) (logged s)"
      using logged_alt [OF x(1)] by (auto simp: commit_ops_def Let_def install_ops_def)
    moreover have "1 \<noteq> logstart s" using sA log_inv_facts(8) [OF x(1)] by metis
    ultimately show ?thesis using nsb set_take_subset [of j "commit_ops s"] by auto
  qed
  then have "memdisk r 1 = memdisk s0 1" unfolding r using sb e(4) by (simp add: apply_ops_other sb_ok_def)
  then have sb': "sb_log (memdisk r 1) = (logstart s0, logsize s0)" "1 < disksize r"
    using sb e boot by (simp_all add: sb_ok_def)
  obtain u where u: "initlog r = Ok () u" "log_inv u"
    "\<And>k. bview u k = apply_ops (recover_ops (logstart s0) (memdisk r)) (memdisk r) k"
    using recovered_inv [OF boot(1) sb'(1) hdr sb'(2)] log_inv_geo [OF inv(1)] e(3) boot(3) by metis
  have "bview u k = (if j = 0 then bview s0 k else bview s k)" if k: "k \<notin> log_area s0" for k
    unfolding u(3) using commit_prefix(2) [OF x(1) idle, of k j] r e la k view_at_rest [OF inv] by simp
  with u show ?thesis by blast
qed

text \<open>C7. A transaction that has released its blocks can always commit: \<^verbatim>\<open>commit_trans\<close> returns (it finds
  free buffers and never panics or sleeps), every block keeps the contents the transaction gave it and
  these are now on the disk, and the log is empty and free for the next transaction.\<close>

theorem commit_completes:
  assumes "log_inv s0" and "begin_trans s0 = Ok () s1" and "tx_step\<^sup>*\<^sup>* s1 s" and "held s = {}"
  shows "\<exists>t. commit_trans s = Ok () t \<and> log_inv t \<and> held t = {} \<and> lh_n t = 0 \<and> \<not> logbusy t \<and>
    (\<forall>k. k \<notin> log_area s \<longrightarrow> bview t k = bview s k \<and> memdisk t k = bview s k)"
proof -
  have "log_inv s" using tx_steps_inv(1) [OF assms(3) begin_trans_inv(1) [OF assms(2,1)]] .
  then obtain t where "commit_trans s = Ok () t" "log_inv t" "held t = {}" "lh_n t = 0" "\<not> logbusy t"
    "\<And>k. k \<notin> log_area s \<Longrightarrow> bview t k = bview s k"
    using commit_trans_inv [OF _ assms(4)] by metis
  then show ?thesis using view_at_rest by metis
qed


section \<open>A concrete run\<close>

text \<open>A disk of 40 sectors with the log in the last ten, and a transaction that rewrites sector 5.\<close>

definition demo_disk :: "nat \<Rightarrow> block" where
  "demo_disk k = (if k = 1 then put32 0 40 (put32 12 10 (replicate BSIZE 0)) else replicate BSIZE 0)"

definition demo_boot :: log_st where
  "demo_boot = binit (log_bss demo_disk 40)"

lemma demo_booted:
  "booted demo_boot" "memdisk demo_boot = demo_disk" "disksize demo_boot = 40"
  "sb_log (demo_disk 1) = (30, 10)" "head_n (demo_disk 30) = 0"
proof -
  have len: "\<forall>k. length (demo_disk k) = BSIZE" by (simp add: demo_disk_def)
  from booted_bss [OF len, of 40] show "booted demo_boot" "memdisk demo_boot = demo_disk" "disksize demo_boot = 40"
    by (simp_all add: demo_boot_def)
  show "sb_log (demo_disk 1) = (30, 10)"
    by (simp add: sb_log_def sb_of_def demo_disk_def get32_put32_other BSIZE_def)
  show "head_n (demo_disk 30) = 0"
    by (simp add: head_n_def demo_disk_def get32_def BSIZE_def)
qed

lemma demo_init:
  obtains s0 where "initlog demo_boot = Ok () s0" "log_inv s0" "held s0 = {}" "lh_n s0 = 0" "\<not> logbusy s0"
    "disksize s0 = 40" "logstart s0 = 30" "logsize s0 = 10" "\<forall>k. k \<noteq> 30 \<longrightarrow> bview s0 k = demo_disk k" "sb_ok s0"
proof -
  note d = demo_booted
  have hdr: "header_ok 30 (disksize demo_boot) (memdisk demo_boot)"
    using recover_empty(1) [of demo_disk 30 40] d by simp
  have sb: "sb_log (memdisk demo_boot 1) = (30, 10)" using d by simp
  have geo: "1 < disksize demo_boot" "0 < (10::nat)" "10 \<le> NBUF" "30 + 10 \<le> disksize demo_boot" "disksize demo_boot \<le> 2 ^ 32"
    using d(3) by (simp_all add: NBUF_def)
  obtain s0 where s0: "initlog demo_boot = Ok () s0" "log_inv s0" "held s0 = {}" "lh_n s0 = 0" "logbusy s0 = logbusy demo_boot"
    "disksize s0 = disksize demo_boot" "logstart s0 = 30" "logsize s0 = 10"
    "\<And>k. bview s0 k = apply_ops (recover_ops 30 (memdisk demo_boot)) (memdisk demo_boot) k"
    using recovered_inv [OF d(1) sb hdr geo] by metis
  have v: "bview s0 k = demo_disk k" if "k \<noteq> 30" for k
    using s0(9) d(2) recover_empty(2) [of demo_disk 30 40 k] d(5) that by simp
  have "\<not> logbusy s0" using s0(5) by (simp add: demo_boot_def log_bss_def binit_eq)
  moreover have "sb_ok s0"
    using v [of 1] view_at_rest [OF s0(2,3,4), of 1] s0 d by (simp add: sb_ok_def log_area_def)
  ultimately show thesis using that [of s0] s0 v d(3) by simp
qed

lemma demo_run:
  obtains s0 s1 s where "initlog demo_boot = Ok () s0" "log_inv s0" "held s0 = {}" "lh_n s0 = 0" "sb_ok s0" "log_area s0 = {30..<40}"
    "begin_trans s0 = Ok () s1" "tx_step\<^sup>*\<^sup>* s1 s" "held s = {}" "logged s = {5}" "disksize s = 40" "log_inv s"
    "bview s0 5 = replicate BSIZE 0" "bview s 5 = replicate BSIZE 1" "\<And>k. length (memdisk s k) = BSIZE" "log_area s = {30..<40}"
    "lh_n s > 0"
proof -
  obtain s0 where s0: "initlog demo_boot = Ok () s0" "log_inv s0" "held s0 = {}" "lh_n s0 = 0" "\<not> logbusy s0"
    "disksize s0 = 40" "logstart s0 = 30" "logsize s0 = 10" "\<forall>k. k \<noteq> 30 \<longrightarrow> bview s0 k = demo_disk k" "sb_ok s0"
    by (rule demo_init)
  obtain s1 where b: "begin_trans s0 = Ok () s1" using s0(5) by (simp add: begin_trans_def)
  note s1 = begin_trans_inv [OF b s0(2)]
  have l1: "logged s1 = {}" using s1(6) s0(4) by (simp add: logged_def)
  have d1: "dirty s1 = {}" using log_inv_facts(1) [OF s1(1)] l1 by simp
  have a1: "log_area s1 = {30..<40}" using same_log_area [OF s1(2)] s0 by (simp add: log_area_def)
  have sz1: "disksize s1 = 40" "logsize s1 = 10" using s1(2) s0 by (simp_all add: same_log_def)
  have k1: "5 < disksize s1" "5 \<notin> held s1" "5 \<in> dirty s1 \<or> card (held s1 \<union> dirty s1) < NBUF"
    using sz1 s1(5) s0(3) d1 by (simp_all add: NBUF_def)
  obtain c t1 where r: "bread 1 5 s1 = Ok c t1" using bread_ok [OF log_inv_bio [OF s1(1)] k1] by blast
  note t1 = bread_spec(1,2) [OF log_inv_bio [OF s1(1)] r] bread_sectors [OF log_inv_bio [OF s1(1)] r] bread_rest [OF log_inv_bio [OF s1(1)] r]
  have k5: "5 \<notin> log_area s1" using a1 by simp
  have st1: "tx_step s1 t1" using tx_read [OF r k5] .
  let ?f = "\<lambda>_ :: block. replicate BSIZE (1 :: byte)"
  have len: "length (?f (bview t1 5)) = BSIZE" by simp
  define t2 where "t2 = bmodify c ?f t1"
  note t2 = bmodify_sectors [OF t1(1,3), of ?f, OF len, folded t2_def]
  have st2: "tx_step t1 t2" unfolding t2_def by (rule tx_modify [OF t1(3)]) (rule len)
  have i1: "log_inv t1" by (rule tx_step_inv(1) [OF st1 s1(1)])
  have i2: "log_inv t2" by (rule tx_step_inv(1) [OF st2 i1])
  have h2: "holds t2 c 5" using t2(3) t1(3) by simp
  note e1 = same_rest_log [OF t1(11)] and e2 = same_rest_log [OF t2(8)]
  have n2: "lh_n t2 = 0" "logsize t2 = 10" "logbusy t2" using e1 e2 s1 s0(4) sz1 by simp_all
  have l2: "logged t2 = {}" using n2(1) by (simp add: logged_def)
  have "card (held t2 \<union> logged t2) < NBUF" using l2 t2(4) t1(5) s1(5) s0(3) by (simp add: NBUF_def)
  then obtain t3 where w: "log_write c t2 = Ok () t3"
    using log_write_total [OF i2 h2 n2(3)] n2 by (auto simp: LOGSIZE_def)
  have st3: "tx_step t2 t3" using tx_log [OF h2 w] .
  note t3 = log_write_inv [OF i2 h2 w]
  have h3: "holds t3 c 5" using t3(2) h2 by simp
  then have "B_BUSY \<in> flags (getb t3 c)" by (simp add: holds_def)
  then obtain s where q: "brelse c t3 = Ok () s" using brelse_Ok by blast
  have st4: "tx_step t3 s" using tx_release [OF h3 t3(5) q] .
  note s = brelse_log [OF t3(1) h3 t3(5) q]
  have run: "tx_step\<^sup>*\<^sup>* s1 s" using st1 st2 st3 st4 by (meson converse_rtranclp_into_rtranclp rtranclp.rtrancl_refl)
  note x = tx_steps_inv [OF run s1(1)]
  have a: "log_area s = {30..<40}" using same_log_area [OF x(2)] a1 by simp
  have lg: "logged s = {5}" using log_frame(2) [OF s(8)] t3(4) l2 by simp
  have "lh_n s > 0" using lg by (cases "lh_n s") (simp_all add: logged_def)
  moreover have "bview s 5 = replicate BSIZE 1" using s(2) t3(6) [of 5] t2(2) log_frame(1) [OF t2(8)] log_frame(1) [OF t1(11)] k5 by simp
  moreover have "bview s0 5 = replicate BSIZE 0" using s0(9) by (simp add: demo_disk_def)
  moreover have "held s = {}" using s(6) t3(3) t2(4) t1(5) s1(5) s0(3) by simp
  moreover have "disksize s = 40" using x(2) sz1 by (simp add: same_log_def)
  moreover have "log_area s0 = {30..<40}" using s0 by (simp add: log_area_def)
  moreover have "length (memdisk s k) = BSIZE" for k using bio_inv_block [OF log_inv_bio [OF x(1)]] .
  ultimately show thesis using that s0 b run lg a x(1) by blast
qed

theorem crash_before_commit_witness:
  "\<exists>s0 (s :: log_st) u. initlog demo_boot = Ok () s0 \<and> logged s = {5} \<and> bview s 5 = replicate BSIZE 1 \<and>
     initlog (binit (log_bss (memdisk s) 40)) = Ok () u \<and> bview s0 5 = replicate BSIZE 0 \<and> bview u 5 = bview s0 5"
proof -
  obtain s0 s1 s where a: "initlog demo_boot = Ok () s0" "log_inv s0" "held s0 = {}" "lh_n s0 = 0" "sb_ok s0" "log_area s0 = {30..<40}"
    "begin_trans s0 = Ok () s1" "tx_step\<^sup>*\<^sup>* s1 s" "logged s = {5}" "disksize s = 40"
    "bview s0 5 = replicate BSIZE 0" "bview s 5 = replicate BSIZE 1" "\<And>k. length (memdisk s k) = BSIZE"
    by (rule demo_run) blast
  have "\<forall>k. length (memdisk s k) = BSIZE" using a(13) by blast
  note b = booted_bss [OF this, of 40]
  have "disksize (binit (log_bss (memdisk s) 40)) = disksize s" using b(3) a(10) by simp
  then obtain u where "initlog (binit (log_bss (memdisk s) 40)) = Ok () u" "bview u 5 = bview s0 5"
    using crash_before_commit [OF a(2-5,7,8) b(1,2)] a(6) by auto
  with a show ?thesis by metis
qed

theorem commit_atomic_witness:
  "\<exists>s0 (s :: log_st) t u (r :: log_st). initlog demo_boot = Ok () s0 \<and> commit_trans s = Ok () t \<and> booted r \<and>
     memdisk r = apply_ops (take 1 (drop (length (diskops s)) (diskops t))) (memdisk s) \<and>
     initlog r = Ok () u \<and> bview s0 5 = replicate BSIZE 0 \<and> bview u 5 = replicate BSIZE 1"
proof -
  obtain s0 s1 s where a: "initlog demo_boot = Ok () s0" "log_inv s0" "held s0 = {}" "lh_n s0 = 0" "sb_ok s0" "log_area s0 = {30..<40}"
    "begin_trans s0 = Ok () s1" "tx_step\<^sup>*\<^sup>* s1 s" "logged s = {5}" "disksize s = 40" "held s = {}" "log_inv s" "lh_n s > 0"
    "bview s0 5 = replicate BSIZE 0" "bview s 5 = replicate BSIZE 1" "\<And>k. length (memdisk s k) = BSIZE"
    by (rule demo_run) blast
  obtain t where t: "commit_trans s = Ok () t" "diskops t = diskops s @ commit_ops s"
    using commit_trans_inv [OF a(12,11)] by metis
  define d where "d = apply_ops (take 1 (drop (length (diskops s)) (diskops t))) (memdisk s)"
  have "\<forall>k. length (d k) = BSIZE" using a(13,16) by (simp add: d_def t(2) commit_ops_def Let_def)
  note b = booted_bss [OF this, of 40]
  have sz: "disksize (binit (log_bss d 40)) = disksize s" using b(3) a(10) by simp
  have n: "1 \<notin> logged s" using a(9) by simp
  have md: "memdisk (binit (log_bss d 40)) = apply_ops (take 1 (drop (length (diskops s)) (diskops t))) (memdisk s)"
    unfolding b(2) by (rule d_def)
  obtain u where "initlog (binit (log_bss d 40)) = Ok () u" "bview u 5 = bview s 5"
    using commit_atomic [OF a(2-5,7,8,11) n t(1) b(1) md sz] a(6) by auto
  with a t(1) b(1) md show ?thesis by metis
qed

theorem commit_completes_witness:
  "\<exists>s0 (s :: log_st) t. initlog demo_boot = Ok () s0 \<and> logged s = {5} \<and> commit_trans s = Ok () t \<and> memdisk t 5 = replicate BSIZE 1"
proof -
  obtain s0 s1 s where a: "initlog demo_boot = Ok () s0" "log_inv s0" "begin_trans s0 = Ok () s1" "tx_step\<^sup>*\<^sup>* s1 s"
    "held s = {}" "logged s = {5}" "bview s 5 = replicate BSIZE 1" "log_area s = {30..<40}"
    by (rule demo_run) blast
  from commit_completes [OF a(2-5)] a(7,8) obtain t where "commit_trans s = Ok () t" "memdisk t 5 = replicate BSIZE 1" by auto
  with a(1,6) show ?thesis by metis
qed


end
