(* ===== verification/Buf_List.thy ===== *)
theory Buf_List
  imports Bio
begin

text \<open>
  The pointers of \<^verbatim>\<open>bio.c\<close>: the buffers and \<^verbatim>\<open>bcache.head\<close> form a circular list, doubly linked through \<^verbatim>\<open>next\<close> and
  \<^verbatim>\<open>prev\<close>. The theory \<open>Bio\<close> keeps the list itself, \<open>lru\<close>; here the assignments of \<^verbatim>\<open>binit\<close> and \<^verbatim>\<open>brelse\<close> and the two
  loops of \<^verbatim>\<open>bget\<close> work on the two pointer fields of every buffer, and they implement the operations on \<open>lru\<close>.
  A pointer is the index of a buffer; \<open>HEAD\<close> stands for \<^verbatim>\<open>&bcache.head\<close>.
\<close>

section \<open>Links\<close>

definition HEAD :: nat where "HEAD = NBUF"

record links =
  next_of :: "nat \<Rightarrow> nat"
  prev_of :: "nat \<Rightarrow> nat"

definition set_next :: "nat \<Rightarrow> nat \<Rightarrow> links \<Rightarrow> links" where
  "set_next b p l = l\<lparr>next_of := (next_of l)(b := p)\<rparr>"

definition set_prev :: "nat \<Rightarrow> nat \<Rightarrow> links \<Rightarrow> links" where
  "set_prev b p l = l\<lparr>prev_of := (prev_of l)(b := p)\<rparr>"

definition unlink :: "nat \<Rightarrow> links \<Rightarrow> links" where
  "unlink b l =
     (let l = set_prev (next_of l b) (prev_of l b) l
      in set_next (prev_of l b) (next_of l b) l)"

definition push_front :: "nat \<Rightarrow> links \<Rightarrow> links" where
  "push_front b l =
     (let l = set_next b (next_of l HEAD) l;
          l = set_prev b HEAD l;
          l = set_prev (next_of l HEAD) b l
      in set_next HEAD b l)"

definition binit_links :: "links \<Rightarrow> links" where
  "binit_links l = fold push_front [0..<NBUF] (set_next HEAD HEAD (set_prev HEAD HEAD l))"

definition brelse_links :: "nat \<Rightarrow> links \<Rightarrow> links" where
  "brelse_links b l = push_front b (unlink b l)"

text \<open>The loops of \<^verbatim>\<open>bget\<close>, which follow \<^verbatim>\<open>next\<close> or \<^verbatim>\<open>prev\<close> to a buffer with the wanted property or to the head. On links
  that do not form a ring they may not end.\<close>

partial_function (option) scan :: "(nat \<Rightarrow> nat) \<Rightarrow> (nat \<Rightarrow> bool) \<Rightarrow> nat \<Rightarrow> nat option option" where
  "scan follow P b =
     (if b = HEAD then Some None
      else if P b then Some (Some b)
      else scan follow P (follow b))"

definition scan_next :: "(nat \<Rightarrow> bool) \<Rightarrow> links \<Rightarrow> nat option option" where
  "scan_next P l = scan (next_of l) P (next_of l HEAD)"

definition scan_prev :: "(nat \<Rightarrow> bool) \<Rightarrow> links \<Rightarrow> nat option option" where
  "scan_prev P l = scan (prev_of l) P (prev_of l HEAD)"

section \<open>Segments and rings\<close>

text \<open>\<open>xs\<close> are the buffers strictly between \<open>a\<close> and \<open>b\<close>.\<close>

fun seg :: "links \<Rightarrow> nat \<Rightarrow> nat list \<Rightarrow> nat \<Rightarrow> bool" where
  "seg l a [] b \<longleftrightarrow> next_of l a = b \<and> prev_of l b = a"
| "seg l a (x # xs) b \<longleftrightarrow> next_of l a = x \<and> prev_of l x = a \<and> seg l x xs b"

definition ring :: "links \<Rightarrow> nat list \<Rightarrow> bool" where
  "ring l xs \<longleftrightarrow> seg l HEAD xs HEAD \<and> distinct (HEAD # xs)"

lemma set_sel [simp]:
  "next_of (set_next b p l) = (next_of l)(b := p)" "prev_of (set_next b p l) = prev_of l"
  "next_of (set_prev b p l) = next_of l" "prev_of (set_prev b p l) = (prev_of l)(b := p)"
  by (simp_all add: set_next_def set_prev_def)

lemma seg_append [simp]: "seg l a (xs @ y # ys) b \<longleftrightarrow> seg l a xs y \<and> seg l y ys b"
  by (induction xs arbitrary: a) auto

lemma seg_set_next: "p \<notin> set (a # xs) \<Longrightarrow> seg (set_next p q l) a xs b = seg l a xs b"
  by (induction xs arbitrary: a) auto

lemma seg_set_prev: "p \<notin> set (b # xs) \<Longrightarrow> seg (set_prev p q l) a xs b = seg l a xs b"
  by (induction xs arbitrary: a) auto

lemma seg_first: "seg l a xs b \<Longrightarrow> next_of l a = hd (xs @ [b])"
  by (cases xs) auto

lemma seg_last: "seg l a xs b \<Longrightarrow> prev_of l b = last (a # xs)"
  by (induction xs arbitrary: a) auto

text \<open>The first and the last link of a segment can be redirected.\<close>

lemma seg_new_first:
  "seg l a xs b \<Longrightarrow> distinct (a # xs) \<Longrightarrow> c \<notin> set xs \<Longrightarrow> b \<notin> set xs \<Longrightarrow>
   seg (set_next c (hd (xs @ [b])) (set_prev (hd (xs @ [b])) c l)) c xs b"
proof (cases xs)
  case (Cons y ys)
  assume "seg l a xs b" "distinct (a # xs)" "c \<notin> set xs" "b \<notin> set xs"
  then show ?thesis using Cons by (simp add: seg_set_next seg_set_prev)
qed simp

lemma seg_rev: "seg l a xs b \<longleftrightarrow> seg \<lparr>next_of = prev_of l, prev_of = next_of l\<rparr> b (rev xs) a"
  by (induction xs arbitrary: a) auto

section \<open>The operations\<close>

lemma unlink_seg:
  assumes "seg l a xs b" and "seg l b ys c" and "distinct (xs @ b # ys)" and "a \<notin> set (xs @ b # ys)" and "c \<notin> set (xs @ b # ys)"
  shows "seg (unlink b l) a (xs @ ys) c"
proof -
  let ?n = "hd (ys @ [c])" and ?p = "last (a # xs)"
  have n: "next_of l b = ?n" and p: "prev_of l b = ?p" using seg_first [OF assms(2)] seg_last [OF assms(1)] by auto
  have nb: "?n \<noteq> b" using assms(3,5) by (cases ys) auto
  have u: "unlink b l = set_next ?p ?n (set_prev ?n ?p l)" using n p nb by (simp add: unlink_def)
  have tail: "seg (set_next ?p ?n (set_prev ?n ?p l)) ?p ys c"
    by (rule seg_new_first [OF assms(2)]) (use assms in \<open>auto dest: last_in_set split: if_splits\<close>)
  show ?thesis
  proof (cases xs rule: rev_cases)
    case Nil
    with tail u show ?thesis by simp
  next
    case (snoc us x)
    have "seg l a us x" using assms(1) snoc by simp
    moreover have "?n \<notin> set (x # us)" "x \<notin> set (a # us)"
      using assms(3-5) snoc by (cases ys; auto)+
    ultimately have "seg (set_next x ?n (set_prev ?n x l)) a us x" by (simp add: seg_set_next seg_set_prev)
    with tail u snoc show ?thesis by simp
  qed
qed

lemma push_front_seg:
  assumes "seg l HEAD xs HEAD" and "distinct (b # xs)" and "b \<noteq> HEAD" and "HEAD \<notin> set xs"
  shows "seg (push_front b l) HEAD (b # xs) HEAD"
proof -
  let ?n = "hd (xs @ [HEAD])"
  have n: "next_of l HEAD = ?n" by (rule seg_first [OF assms(1)])
  have nb: "?n \<noteq> b" using assms by (cases xs) auto
  have "seg (set_next b ?n (set_prev ?n b l)) b xs HEAD"
    by (rule seg_new_first [OF assms(1)]) (use assms in auto)
  then have "seg (set_next HEAD b (set_prev b HEAD (set_next b ?n (set_prev ?n b l)))) b xs HEAD"
    using assms by (simp add: seg_set_next seg_set_prev)
  moreover have "push_front b l = set_next HEAD b (set_prev b HEAD (set_next b ?n (set_prev ?n b l)))"
    using n nb assms(3) by (simp add: push_front_def Let_def set_next_def set_prev_def fun_upd_twist)
  ultimately show ?thesis using assms(3) by simp
qed

lemma ring_brelse:
  assumes "ring l xs" and "b \<in> set xs"
  shows "ring (brelse_links b l) (b # remove1 b xs)"
proof -
  from assms(2) obtain us vs where xs: "xs = us @ b # vs" by (meson split_list)
  have d: "distinct (HEAD # us @ b # vs)" using assms(1) xs by (simp add: ring_def)
  have "seg l HEAD us b" "seg l b vs HEAD" using assms(1) xs by (simp_all add: ring_def)
  then have "seg (unlink b l) HEAD (us @ vs) HEAD" using d by (intro unlink_seg) auto
  then have "seg (brelse_links b l) HEAD (b # us @ vs) HEAD"
    unfolding brelse_links_def using d by (intro push_front_seg) auto
  moreover have "remove1 b xs = us @ vs" using d xs by (simp add: remove1_append)
  ultimately show ?thesis using d by (auto simp: ring_def)
qed

lemma ring_binit: "ring (binit_links l) (rev [0..<NBUF])"
proof -
  have "ring (fold push_front [0..<n] (set_next HEAD HEAD (set_prev HEAD HEAD l))) (rev [0..<n])" if "n \<le> NBUF" for n
    using that
  proof (induction n)
    case 0
    show ?case by (simp add: ring_def)
  next
    case (Suc n)
    let ?l = "fold push_front [0..<n] (set_next HEAD HEAD (set_prev HEAD HEAD l))"
    have "seg (push_front n ?l) HEAD (n # rev [0..<n]) HEAD"
      using Suc by (intro push_front_seg) (auto simp: ring_def HEAD_def)
    then show ?case using Suc.prems by (simp add: ring_def HEAD_def)
  qed
  then show ?thesis by (simp add: binit_links_def)
qed

lemma scan_seg:
  assumes "seg l a xs HEAD" and "HEAD \<notin> set xs"
  shows "scan (next_of l) P (next_of l a) = Some (List.find P xs)"
  using assms
proof (induction xs arbitrary: a)
  case Nil
  then show ?case by (simp add: scan.simps)
next
  case (Cons x xs)
  then show ?case by (subst scan.simps) auto
qed

lemma ring_scan:
  assumes "ring l xs"
  shows "scan_next P l = Some (List.find P xs)" and "scan_prev P l = Some (List.find P (rev xs))"
proof -
  have s: "seg l HEAD xs HEAD" "HEAD \<notin> set xs" using assms by (simp_all add: ring_def)
  then show "scan_next P l = Some (List.find P xs)" unfolding scan_next_def by (rule scan_seg)
  have "seg \<lparr>next_of = prev_of l, prev_of = next_of l\<rparr> HEAD (rev xs) HEAD" using s(1) seg_rev by blast
  from scan_seg [OF this, of P] s(2) show "scan_prev P l = Some (List.find P (rev xs))" by (simp add: scan_prev_def)
qed

section \<open>Refinement\<close>

lemma lru_binit: "lru (binit s) = rev [0..<NBUF]"
proof -
  have "lru (fold (\<lambda>b s. s\<lparr>lru := b # lru s, bufs := (bufs s)[b := (bufs s ! b)\<lparr>bdev := NODEV\<rparr>]\<rparr>) bs t) = rev bs @ lru t"
    for bs and t :: "'a bio_scheme"
    by (induction bs arbitrary: t) simp_all
  then show ?thesis by (simp add: binit_def)
qed

lemma lru_brelse: "brelse b s = Ok () t \<Longrightarrow> lru t = b # remove1 b (lru s)"
  by (auto simp: brelse_def Let_def split: if_splits)

text \<open>C22. The pointers implement the list. \<^verbatim>\<open>binit\<close> links the head and the buffers into a ring with the list that the cache model
  starts from; on a ring, the assignments of \<^verbatim>\<open>brelse\<close> give a ring again, of the list that the model computes;
  and both loops of \<^verbatim>\<open>bget\<close> end, the one along \<^verbatim>\<open>next\<close> with the first buffer of the list that has the wanted property, the one along
  \<^verbatim>\<open>prev\<close> with the last, or at the head when there is none.\<close>

theorem bcache_links:
  fixes s :: "'a bio_scheme"
  shows "ring (binit_links l) (lru (binit s)) \<and>
    (ring l (lru s) \<longrightarrow>
      (\<forall>b t. b \<in> set (lru s) \<longrightarrow> brelse b s = Ok () t \<longrightarrow> ring (brelse_links b l) (lru t)) \<and>
      scan_next P l = Some (List.find P (lru s)) \<and> scan_prev P l = Some (List.find P (rev (lru s))))"
  using ring_binit ring_brelse ring_scan by (auto simp: lru_binit lru_brelse)

text \<open>The freshly linked buffers, and the last of them whose index is above 3.\<close>

definition bss_links :: links where
  "bss_links = \<lparr>next_of = (\<lambda>_. 0), prev_of = (\<lambda>_. 0)\<rparr>"

theorem bcache_links_witness:
  "ring (binit_links bss_links) [9, 8, 7, 6, 5, 4, 3, 2, 1, 0] \<and> scan_prev (\<lambda>b. b > 3) (binit_links bss_links) = Some (Some 4)"
proof -
  define s :: bio where "s = \<lparr>pmem = (\<lambda>_. 0), freelist = 0, kend = 0, kdata = 0, kpgdir = 0, ptable = [], nextpid = 0, ticks = 0, initproc = None,
    curproc = None, memdisk = (\<lambda>_. []), disksize = 0, diskops = [], bufs = [], lru = []\<rparr>"
  have l: "lru (binit s) = [9, 8, 7, 6, 5, 4, 3, 2, 1, 0]" by (simp add: lru_binit NBUF_def upt_rec)
  have r: "ring (binit_links bss_links) (lru (binit s))" using bcache_links [of bss_links s] by blast
  then have "scan_prev (\<lambda>b. b > 3) (binit_links bss_links) = Some (List.find (\<lambda>b. b > 3) (rev (lru (binit s))))"
    using bcache_links [of "binit_links bss_links" "binit s" "\<lambda>b. b > 3"] by blast
  with r l show ?thesis by simp
qed

end
