(* ===== verification/Inode.thy ===== *)
theory Inode
  imports Log
begin

text \<open>
  The lower layers of \<^verbatim>\<open>fs.c\<close>: the block allocator, on-disk inodes, the inode cache and the map
  from file blocks to disk blocks (\<^verbatim>\<open>bmap\<close>, \<^verbatim>\<open>itrunc\<close>). A pointer to a cache entry is its index in
  \<^verbatim>\<open>icache.inode\<close>. The in-memory inode has one block address less than the inode on disk, so the
  double-indirect address \<^verbatim>\<open>addrs[NDIRECT+1]\<close> lies outside the array; with the layout of the C
  structure that word is the \<^verbatim>\<open>dev\<close> field of the next cache entry, and the model reads and writes it
  there. Behind the last entry nothing is known to lie, and the access is a \<open>Fault\<close>.
\<close>

section \<open>Constants and the on-disk inode\<close>

definition NINODE :: nat where "NINODE = 50"
definition ROOTINO :: uint where "ROOTINO = 1"
definition NDIRECT :: nat where "NDIRECT = 11"
definition NINDIRECT :: nat where "NINDIRECT = BSIZE div 4"
definition MAXFILE :: nat where "MAXFILE = NDIRECT + NINDIRECT + NINDIRECT * NINDIRECT"
definition IPB :: nat where "IPB = BSIZE div 64"
definition BPB :: nat where "BPB = BSIZE * 8"

definition IBLOCK :: "uint \<Rightarrow> nat" where
  "IBLOCK i = unat i div IPB + 2"

definition BBLOCK :: "nat \<Rightarrow> uint \<Rightarrow> nat" where
  "BBLOCK b ninodes = b div BPB + unat ninodes div IPB + 3"

definition T_DIR :: ushort where "T_DIR = 1"
definition T_FILE :: ushort where "T_FILE = 2"
definition T_DEV :: ushort where "T_DEV = 3"

text \<open>\<^verbatim>\<open>struct dinode\<close> occupies 64 bytes: four shorts, the size and 13 addresses, of which the kernel
  copies \<open>NDIRECT + 1\<close>.\<close>

record dinode =
  d_type :: ushort
  d_major :: ushort
  d_minor :: ushort
  d_nlink :: ushort
  d_size :: uint
  d_addrs :: "uint list"

definition dinode_off :: "uint \<Rightarrow> nat" where
  "dinode_off i = 64 * (unat i mod IPB)"

definition get_dinode :: "nat \<Rightarrow> block \<Rightarrow> dinode" where
  "get_dinode off d =
     \<lparr>d_type = get16 off d, d_major = get16 (off + 2) d, d_minor = get16 (off + 4) d, d_nlink = get16 (off + 6) d,
      d_size = get32 (off + 8) d, d_addrs = map (\<lambda>k. get32 (off + 12 + 4 * k) d) [0..<NDIRECT + 1]\<rparr>"

definition put_addrs :: "nat \<Rightarrow> uint list \<Rightarrow> block \<Rightarrow> block" where
  "put_addrs off as d = fold (\<lambda>k. put32 (off + 12 + 4 * k) (as ! k)) [0..<NDIRECT + 1] d"

definition put_dinode :: "nat \<Rightarrow> dinode \<Rightarrow> block \<Rightarrow> block" where
  "put_dinode off x d =
     put_addrs off (d_addrs x)
       (put32 (off + 8) (d_size x) (put16 (off + 6) (d_nlink x) (put16 (off + 4) (d_minor x)
         (put16 (off + 2) (d_major x) (put16 off (d_type x) d)))))"

section \<open>The inode cache\<close>

datatype iflag = I_BUSY | I_VALID

record inode =
  idev :: uint
  inum :: uint
  iref :: int
  iflags :: "iflag set"
  itype :: ushort
  imajor :: ushort
  iminor :: ushort
  inlink :: ushort
  isize :: uint
  addrs :: "uint list"

record inode_st = log_st +
  icache :: "inode list"

definition geti :: "'a inode_st_scheme \<Rightarrow> nat \<Rightarrow> inode" where
  "geti s i = icache s ! i"

definition seti :: "nat \<Rightarrow> inode \<Rightarrow> 'a inode_st_scheme \<Rightarrow> 'a inode_st_scheme" where
  "seti i x s = s\<lparr>icache := (icache s)[i := x]\<rparr>"

definition dinode_of :: "inode \<Rightarrow> dinode" where
  "dinode_of x = \<lparr>d_type = itype x, d_major = imajor x, d_minor = iminor x, d_nlink = inlink x, d_size = isize x, d_addrs = addrs x\<rparr>"

definition load_dinode :: "dinode \<Rightarrow> inode \<Rightarrow> inode" where
  "load_dinode y x =
     x\<lparr>itype := d_type y, imajor := d_major y, iminor := d_minor y, inlink := d_nlink y, isize := d_size y, addrs := d_addrs y\<rparr>"

text \<open>\<^verbatim>\<open>ip->addrs[k]\<close>, with the word behind the array as described above.\<close>

definition get_addr :: "nat \<Rightarrow> nat \<Rightarrow> 'a inode_st_scheme \<Rightarrow> (uint, 'a inode_st_scheme) outcome" where
  "get_addr i k s =
     (if k \<le> NDIRECT then Ok (addrs (geti s i) ! k) s
      else if k = NDIRECT + 1 \<and> i + 1 < NINODE then Ok (idev (geti s (i + 1))) s
      else Fault ''ip->addrs'')"

definition set_addr :: "nat \<Rightarrow> nat \<Rightarrow> uint \<Rightarrow> 'a inode_st_scheme \<Rightarrow> (unit, 'a inode_st_scheme) outcome" where
  "set_addr i k a s =
     (if k \<le> NDIRECT then Ok () (seti i ((geti s i)\<lparr>addrs := (addrs (geti s i))[k := a]\<rparr>) s)
      else if k = NDIRECT + 1 \<and> i + 1 < NINODE then Ok () (seti (i + 1) ((geti s (i + 1))\<lparr>idev := a\<rparr>) s)
      else Fault ''ip->addrs'')"

section \<open>Blocks\<close>

definition bzero :: "uint \<Rightarrow> nat \<Rightarrow> 'a inode_st_scheme \<Rightarrow> (unit, 'a inode_st_scheme) outcome" where
  "bzero dev bno s =
     call (bread (unat dev) bno s) (\<lambda>bp s.
     call (log_write bp (bmodify bp (\<lambda>_. replicate BSIZE 0) s)) (\<lambda>_ s.
     brelse bp s))"

definition bit_used :: "block \<Rightarrow> nat \<Rightarrow> bool" where
  "bit_used d bi \<longleftrightarrow> d ! (bi div 8) AND push_bit (bi mod 8) 1 \<noteq> 0"

definition mark_used :: "nat \<Rightarrow> block \<Rightarrow> block" where
  "mark_used bi d = d[bi div 8 := d ! (bi div 8) OR push_bit (bi mod 8) 1]"

definition mark_free :: "nat \<Rightarrow> block \<Rightarrow> block" where
  "mark_free bi d = d[bi div 8 := d ! (bi div 8) AND NOT (push_bit (bi mod 8) 1)]"

text \<open>The inner loop of \<^verbatim>\<open>balloc\<close> looks for the first clear bit of the block of the bitmap.\<close>

definition find_clear :: "nat \<Rightarrow> block \<Rightarrow> nat option" where
  "find_clear n d = List.find (\<lambda>bi. \<not> bit_used d bi) [0..<min BPB n]"

function balloc_from :: "uint \<Rightarrow> superblock \<Rightarrow> nat \<Rightarrow> 'a inode_st_scheme \<Rightarrow> (uint, 'a inode_st_scheme) outcome" where
  "balloc_from dev sb b s =
     (if b < unat (sb_size sb) then
        call (bread (unat dev) (BBLOCK b (sb_ninodes sb)) s) (\<lambda>bp s.
        case find_clear (unat (sb_size sb) - b) (bdata (getb s bp)) of
          Some bi \<Rightarrow>
            call (log_write bp (bmodify bp (mark_used bi) s)) (\<lambda>_ s.
            call (brelse bp s) (\<lambda>_ s.
            call (bzero dev (b + bi) s) (\<lambda>_ s.
            Ok (of_nat (b + bi)) s)))
        | None \<Rightarrow> call (brelse bp s) (\<lambda>_ s. balloc_from dev sb (b + BPB) s))
      else Panic ''balloc: out of blocks'')"
  by pat_completeness auto
termination
  by (relation "measure (\<lambda>(dev, sb, b, s). unat (sb_size sb) - b)") (auto simp: BPB_def BSIZE_def)

declare balloc_from.simps [simp del]

definition balloc :: "uint \<Rightarrow> 'a inode_st_scheme \<Rightarrow> (uint, 'a inode_st_scheme) outcome" where
  "balloc dev s = call (readsb (unat dev) s) (\<lambda>sb s. balloc_from dev sb 0 s)"

definition bfree :: "uint \<Rightarrow> uint \<Rightarrow> 'a inode_st_scheme \<Rightarrow> (unit, 'a inode_st_scheme) outcome" where
  "bfree dev b s =
     call (readsb (unat dev) s) (\<lambda>sb s.
     call (bread (unat dev) (BBLOCK (unat b) (sb_ninodes sb)) s) (\<lambda>bp s.
     let bi = unat b mod BPB in
     if \<not> bit_used (bdata (getb s bp)) bi then Panic ''freeing free block''
     else
       call (log_write bp (bmodify bp (mark_free bi) s)) (\<lambda>_ s.
       brelse bp s)))"

section \<open>Inodes\<close>

definition iget :: "uint \<Rightarrow> uint \<Rightarrow> 'a inode_st_scheme \<Rightarrow> (nat, 'a inode_st_scheme) outcome" where
  "iget dev i s =
     (case List.find (\<lambda>j. iref (geti s j) > 0 \<and> idev (geti s j) = dev \<and> inum (geti s j) = i) [0..<NINODE] of
        Some j \<Rightarrow> Ok j (seti j ((geti s j)\<lparr>iref := iref (geti s j) + 1\<rparr>) s)
      | None \<Rightarrow>
          (case List.find (\<lambda>j. iref (geti s j) = 0) [0..<NINODE] of
             Some j \<Rightarrow> Ok j (seti j ((geti s j)\<lparr>idev := dev, inum := i, iref := 1, iflags := {}\<rparr>) s)
           | None \<Rightarrow> Panic ''iget: no inodes''))"

text \<open>\<^verbatim>\<open>ialloc\<close>: \<open>memset\<close> of the whole \<^verbatim>\<open>struct dinode\<close>, then the type.\<close>

definition new_dinode :: "nat \<Rightarrow> ushort \<Rightarrow> block \<Rightarrow> block" where
  "new_dinode off ty d = put16 off ty (take off d @ replicate 64 0 @ drop (off + 64) d)"

function ialloc_from :: "uint \<Rightarrow> ushort \<Rightarrow> uint \<Rightarrow> nat \<Rightarrow> 'a inode_st_scheme \<Rightarrow> (nat, 'a inode_st_scheme) outcome" where
  "ialloc_from dev ty ninodes i s =
     (if i < unat ninodes then
        call (bread (unat dev) (IBLOCK (of_nat i)) s) (\<lambda>bp s.
        if get16 (dinode_off (of_nat i)) (bdata (getb s bp)) = 0 then
          call (log_write bp (bmodify bp (new_dinode (dinode_off (of_nat i)) ty) s)) (\<lambda>_ s.
          call (brelse bp s) (\<lambda>_ s.
          iget dev (of_nat i) s))
        else call (brelse bp s) (\<lambda>_ s. ialloc_from dev ty ninodes (i + 1) s))
      else Panic ''ialloc: no inodes'')"
  by pat_completeness auto
termination
  by (relation "measure (\<lambda>(dev, ty, ninodes, i, s). unat ninodes - i)") auto

declare ialloc_from.simps [simp del]

definition ialloc :: "uint \<Rightarrow> ushort \<Rightarrow> 'a inode_st_scheme \<Rightarrow> (nat, 'a inode_st_scheme) outcome" where
  "ialloc dev ty s = call (readsb (unat dev) s) (\<lambda>sb s. ialloc_from dev ty (sb_ninodes sb) 1 s)"

definition iupdate :: "nat \<Rightarrow> 'a inode_st_scheme \<Rightarrow> (unit, 'a inode_st_scheme) outcome" where
  "iupdate ip s =
     call (bread (unat (idev (geti s ip))) (IBLOCK (inum (geti s ip))) s) (\<lambda>bp s.
     call (log_write bp (bmodify bp (put_dinode (dinode_off (inum (geti s ip))) (dinode_of (geti s ip))) s)) (\<lambda>_ s.
     brelse bp s))"

definition idup :: "nat \<Rightarrow> 'a inode_st_scheme \<Rightarrow> (nat, 'a inode_st_scheme) outcome" where
  "idup ip s = Ok ip (seti ip ((geti s ip)\<lparr>iref := iref (geti s ip) + 1\<rparr>) s)"

definition ilock :: "nat \<Rightarrow> 'a inode_st_scheme \<Rightarrow> (unit, 'a inode_st_scheme) outcome" where
  "ilock ip s =
     (if iref (geti s ip) < 1 then Panic ''ilock''
      else if I_BUSY \<in> iflags (geti s ip) then Sleep (ChInode ip) s
      else
        let s = seti ip ((geti s ip)\<lparr>iflags := insert I_BUSY (iflags (geti s ip))\<rparr>) s in
        if I_VALID \<in> iflags (geti s ip) then Ok () s
        else
          call (bread (unat (idev (geti s ip))) (IBLOCK (inum (geti s ip))) s) (\<lambda>bp s.
          let s = seti ip (load_dinode (get_dinode (dinode_off (inum (geti s ip))) (bdata (getb s bp))) (geti s ip)) s in
          call (brelse bp s) (\<lambda>_ s.
          let s = seti ip ((geti s ip)\<lparr>iflags := insert I_VALID (iflags (geti s ip))\<rparr>) s in
          if itype (geti s ip) = 0 then Panic ''ilock: no type'' else Ok () s)))"

definition iunlock :: "nat \<Rightarrow> 'a inode_st_scheme \<Rightarrow> (unit, 'a inode_st_scheme) outcome" where
  "iunlock ip s =
     (if I_BUSY \<notin> iflags (geti s ip) \<or> iref (geti s ip) < 1 then Panic ''iunlock''
      else Ok () (wakeup (ChInode ip) (seti ip ((geti s ip)\<lparr>iflags := iflags (geti s ip) - {I_BUSY}\<rparr>) s)))"

section \<open>Inode contents\<close>

text \<open>The first allocation of \<^verbatim>\<open>bmap\<close>: the address slot \<open>k\<close> of the inode, filled if it is empty.\<close>

definition addr_alloc :: "nat \<Rightarrow> nat \<Rightarrow> 'a inode_st_scheme \<Rightarrow> (uint, 'a inode_st_scheme) outcome" where
  "addr_alloc ip k s =
     call (get_addr ip k s) (\<lambda>addr s.
     if addr = 0 then
       call (balloc (idev (geti s ip)) s) (\<lambda>addr s.
       call (set_addr ip k addr s) (\<lambda>_ s. Ok addr s))
     else Ok addr s)"

text \<open>An entry of the indirect block held in \<open>bp\<close>, filled (and the block logged) if it is empty.\<close>

definition entry_alloc :: "nat \<Rightarrow> nat \<Rightarrow> nat \<Rightarrow> 'a inode_st_scheme \<Rightarrow> (uint, 'a inode_st_scheme) outcome" where
  "entry_alloc ip bp k s =
     (let addr = get32 (4 * k) (bdata (getb s bp)) in
      if addr = 0 then
        call (balloc (idev (geti s ip)) s) (\<lambda>addr s.
        call (log_write bp (bmodify bp (put32 (4 * k) addr) s)) (\<lambda>_ s.
        Ok addr s))
      else Ok addr s)"

definition bmap :: "nat \<Rightarrow> uint \<Rightarrow> 'a inode_st_scheme \<Rightarrow> (uint, 'a inode_st_scheme) outcome" where
  "bmap ip bn s =
     (if unat bn < NDIRECT then addr_alloc ip (unat bn) s
      else
        let bn = unat bn - NDIRECT in
        if bn < NINDIRECT then
          call (addr_alloc ip NDIRECT s) (\<lambda>addr s.
          call (bread (unat (idev (geti s ip))) (unat addr) s) (\<lambda>bp s.
          call (entry_alloc ip bp bn s) (\<lambda>addr s.
          call (brelse bp s) (\<lambda>_ s. Ok addr s))))
        else
          let bn = bn - NINDIRECT in
          if bn < NINDIRECT * NINDIRECT then
            call (addr_alloc ip (NDIRECT + 1) s) (\<lambda>addr s.
            call (bread (unat (idev (geti s ip))) (unat addr) s) (\<lambda>bp s.
            call (entry_alloc ip bp (bn div NINDIRECT) s) (\<lambda>addr s.
            call (bread (unat (idev (geti s ip))) (unat addr) s) (\<lambda>secBp s.
            call (entry_alloc ip secBp (bn mod NINDIRECT) s) (\<lambda>addr s.
            call (brelse secBp s) (\<lambda>_ s.
            call (brelse bp s) (\<lambda>_ s. Ok addr s)))))))
          else Panic ''bmap: out of range'')"

fun itrunc_direct :: "nat \<Rightarrow> nat \<Rightarrow> nat \<Rightarrow> 'a inode_st_scheme \<Rightarrow> (unit, 'a inode_st_scheme) outcome" where
  "itrunc_direct 0 i ip s = Ok () s"
| "itrunc_direct (Suc r) i ip s =
     (if addrs (geti s ip) ! i \<noteq> 0 then
        call (bfree (idev (geti s ip)) (addrs (geti s ip) ! i) s) (\<lambda>_ s.
        itrunc_direct r (Suc i) ip (seti ip ((geti s ip)\<lparr>addrs := (addrs (geti s ip))[i := 0]\<rparr>) s))
      else itrunc_direct r (Suc i) ip s)"

fun itrunc_indirect :: "nat \<Rightarrow> nat \<Rightarrow> nat \<Rightarrow> nat \<Rightarrow> 'a inode_st_scheme \<Rightarrow> (unit, 'a inode_st_scheme) outcome" where
  "itrunc_indirect 0 j bp ip s = Ok () s"
| "itrunc_indirect (Suc r) j bp ip s =
     (let a = get32 (4 * j) (bdata (getb s bp)) in
      if a \<noteq> 0 then call (bfree (idev (geti s ip)) a s) (\<lambda>_ s. itrunc_indirect r (Suc j) bp ip s)
      else itrunc_indirect r (Suc j) bp ip s)"

definition itrunc :: "nat \<Rightarrow> 'a inode_st_scheme \<Rightarrow> (unit, 'a inode_st_scheme) outcome" where
  "itrunc ip s =
     call (itrunc_direct NDIRECT 0 ip s) (\<lambda>_ s.
     call (if addrs (geti s ip) ! NDIRECT \<noteq> 0 then
             call (bread (unat (idev (geti s ip))) (unat (addrs (geti s ip) ! NDIRECT)) s) (\<lambda>bp s.
             call (itrunc_indirect NINDIRECT 0 bp ip s) (\<lambda>_ s.
             call (brelse bp s) (\<lambda>_ s.
             call (bfree (idev (geti s ip)) (addrs (geti s ip) ! NDIRECT) s) (\<lambda>_ s.
             Ok () (seti ip ((geti s ip)\<lparr>addrs := (addrs (geti s ip))[NDIRECT := 0]\<rparr>) s)))))
           else Ok () s) (\<lambda>_ s.
     iupdate ip (seti ip ((geti s ip)\<lparr>isize := 0\<rparr>) s)))"

definition iput :: "nat \<Rightarrow> 'a inode_st_scheme \<Rightarrow> (unit, 'a inode_st_scheme) outcome" where
  "iput ip s =
     call (if iref (geti s ip) = 1 \<and> I_VALID \<in> iflags (geti s ip) \<and> inlink (geti s ip) = 0 then
             if I_BUSY \<in> iflags (geti s ip) then Panic ''iput busy''
             else
               call (itrunc ip (seti ip ((geti s ip)\<lparr>iflags := insert I_BUSY (iflags (geti s ip))\<rparr>) s)) (\<lambda>_ s.
               call (iupdate ip (seti ip ((geti s ip)\<lparr>itype := 0\<rparr>) s)) (\<lambda>_ s.
               Ok () (wakeup (ChInode ip) (seti ip ((geti s ip)\<lparr>iflags := {}\<rparr>) s))))
           else Ok () s) (\<lambda>_ s.
     Ok () (seti ip ((geti s ip)\<lparr>iref := iref (geti s ip) - 1\<rparr>) s))"

definition iunlockput :: "nat \<Rightarrow> 'a inode_st_scheme \<Rightarrow> (unit, 'a inode_st_scheme) outcome" where
  "iunlockput ip s = call (iunlock ip s) (\<lambda>_ s. iput ip s)"

text \<open>\<^verbatim>\<open>stati\<close> and \<^verbatim>\<open>struct stat\<close>.\<close>

record stat =
  st_type :: ushort
  st_dev :: uint
  st_ino :: uint
  st_nlink :: ushort
  st_size :: uint

definition stati :: "nat \<Rightarrow> 'a inode_st_scheme \<Rightarrow> stat" where
  "stati ip s =
     (let x = geti s ip in
      \<lparr>st_type = itype x, st_dev = idev x, st_ino = inum x, st_nlink = inlink x, st_size = isize x\<rparr>)"

end
