(* ===== verification/Console.thy ===== *)
theory Console
  imports Inode
begin

text \<open>
  The console of \<^verbatim>\<open>console.c\<close>: formatted output, the screen driver, the line-editing input buffer with
  this system's command history, and the console device that \<^verbatim>\<open>readi\<close> and \<^verbatim>\<open>writei\<close> reach through
  \<^verbatim>\<open>devsw\<close>; also \<^verbatim>\<open>uart.c\<close>, \<^verbatim>\<open>procdump\<close> and \<^verbatim>\<open>ps\<close> of \<^verbatim>\<open>proc.c\<close>.

  The screen is the video memory and the cursor register of the display controller, the serial line
  is the list of bytes sent. The array \<^verbatim>\<open>history[10][128]\<close> is one block of 1280 bytes, as in memory:
  an index that leaves its row but not the array reaches the neighbouring row; an index outside the
  array is a \<open>Fault\<close>. A panic stops the machine, so \<^verbatim>\<open>panicked\<close> is not part of the state.
\<close>

section \<open>State\<close>

datatype dread = Fn_consoleread
datatype dwrite = Fn_consolewrite

record devsw_entry =
  dev_read :: "dread option"
  dev_write :: "dwrite option"

definition NDEV :: nat where "NDEV = 10"
definition CONSOLE :: nat where "CONSOLE = 1"
definition INPUT_BUF :: nat where "INPUT_BUF = 128"

record cons_st = inode_st +
  devsw :: "devsw_entry list"
  crt :: "ushort list"
  crtpos :: nat
  uart :: bool
  uartout :: "byte list"
  inbuf :: "byte list"
  in_r :: uint
  in_w :: uint
  in_e :: uint
  history :: "byte list"
  historyIndex :: int
  cmdCount :: int
  upCount :: int
  prevCount :: int

section \<open>Output\<close>

definition BACKSPACE :: nat where "BACKSPACE = 0x100"

definition uartputc :: "byte \<Rightarrow> 'a cons_st_scheme \<Rightarrow> 'a cons_st_scheme" where
  "uartputc c s = (if uart s then s\<lparr>uartout := uartout s @ [c]\<rparr> else s)"

text \<open>\<^verbatim>\<open>cgaputc\<close>: the new cursor position and screen. \<open>fill\<close> is \<open>memset\<close> on video memory.\<close>

definition fill :: "nat \<Rightarrow> nat \<Rightarrow> ushort list \<Rightarrow> ushort list" where
  "fill p n xs = take p xs @ replicate n 0 @ drop (p + n) xs"

definition cga_move :: "nat \<Rightarrow> nat \<Rightarrow> ushort list \<Rightarrow> nat \<times> ushort list" where
  "cga_move c pos m =
     (if c = 10 then (pos + (80 - pos mod 80), m)
      else if c = BACKSPACE then (pos - 1, m)
      else (pos + 1, m[pos := of_nat (c mod 256) OR 0x0700]))"

definition cga_scroll :: "nat \<times> ushort list \<Rightarrow> nat \<times> ushort list" where
  "cga_scroll x =
     (let (pos, m) = x in
      if pos div 80 \<ge> 24
      then (pos - 80, fill (pos - 80) (24 * 80 - (pos - 80)) (take (23 * 80) (drop 80 m) @ drop (23 * 80) m))
      else (pos, m))"

definition cgaputc :: "nat \<Rightarrow> 'a cons_st_scheme \<Rightarrow> (unit, 'a cons_st_scheme) outcome" where
  "cgaputc c s =
     (let (pos, m) = cga_scroll (cga_move c (crtpos s) (crt s))
      in if pos > 24 * 80 \<or> c \<noteq> 10 \<and> c \<noteq> BACKSPACE \<and> crtpos s \<ge> length (crt s) then Fault ''crt''
         else Ok () (s\<lparr>crtpos := pos, crt := m[pos := 0x0720]\<rparr>))"

lemma cgaputc_frame: "cgaputc c s = Ok u t \<Longrightarrow> \<exists>p m. t = s\<lparr>crtpos := p, crt := m\<rparr>"
  by (auto simp: cgaputc_def split: prod.splits if_splits)

definition consputc :: "nat \<Rightarrow> 'a cons_st_scheme \<Rightarrow> (unit, 'a cons_st_scheme) outcome" where
  "consputc c s =
     (if c = BACKSPACE then cgaputc c (uartputc 8 (uartputc 32 (uartputc 8 s)))
      else cgaputc c (uartputc (of_nat c) s))"

lemma consputc_frame: "consputc c s = Ok u t \<Longrightarrow> \<exists>p m o'. t = s\<lparr>uartout := o', crtpos := p, crt := m\<rparr>"
proof -
  have u: "\<exists>o'. uartputc c s = s\<lparr>uartout := o'\<rparr>" for c and s :: "'a cons_st_scheme"
    by (cases s) (simp add: uartputc_def)
  assume ok: "consputc c s = Ok u t"
  obtain o' where "cgaputc c (s\<lparr>uartout := o'\<rparr>) = Ok u t"
    using ok u [of 8 s] u [of 32 s] u [of "of_nat c" s] by (auto simp: consputc_def uartputc_def split: if_splits) (metis | simp)+
  then show ?thesis using cgaputc_frame by fastforce
qed

fun consputs :: "byte list \<Rightarrow> 'a cons_st_scheme \<Rightarrow> (unit, 'a cons_st_scheme) outcome" where
  "consputs [] s = Ok () s"
| "consputs (c # cs) s = call (consputc (unat c) s) (\<lambda>_ s. consputs cs s)"

subsection \<open>printint and cprintf\<close>

definition digit :: "nat \<Rightarrow> byte" where
  "digit d = (if d < 10 then of_nat (48 + d) else of_nat (87 + d))"

text \<open>The \<^verbatim>\<open>do ... while((x /= base) != 0)\<close> loop collects the digits last first.\<close>

function digits_rev :: "nat \<Rightarrow> nat \<Rightarrow> byte list" where
  "digits_rev base x =
     digit (x mod base) # (if x div base \<noteq> 0 \<and> base > 1 then digits_rev base (x div base) else [])"
  by pat_completeness auto
termination
  by (relation "measure snd") (auto intro!: div_less_dividend simp: div_greater_zero_iff)

declare digits_rev.simps [simp del]

definition printint :: "uint \<Rightarrow> nat \<Rightarrow> bool \<Rightarrow> byte list" where
  "printint xx base sign =
     (let neg = sign \<and> sint xx < 0; x = (if neg then - xx else xx)
      in (if neg then [45] else []) @ rev (digits_rev base (unat x)))"

text \<open>The variable arguments of \<^verbatim>\<open>cprintf\<close>: words, and pointers to strings (null or a string).\<close>

datatype cfarg = CfInt uint | CfStr "byte list option"

fun cprintf_out :: "byte list \<Rightarrow> cfarg list \<Rightarrow> byte list option" where
  "cprintf_out [] as = Some []"
| "cprintf_out (c # cs) as =
     (if c \<noteq> 37 then map_option ((#) c) (cprintf_out cs as)
      else case cs of
        [] \<Rightarrow> Some []
      | d # ds \<Rightarrow>
          if d = 100 then
            (case as of CfInt x # as \<Rightarrow> map_option ((@) (printint x 10 True)) (cprintf_out ds as) | _ \<Rightarrow> None)
          else if d = 120 \<or> d = 112 then
            (case as of CfInt x # as \<Rightarrow> map_option ((@) (printint x 16 False)) (cprintf_out ds as) | _ \<Rightarrow> None)
          else if d = 115 then
            (case as of
               CfStr (Some t) # as \<Rightarrow> map_option ((@) t) (cprintf_out ds as)
             | CfStr None # as \<Rightarrow> map_option ((@) [40, 110, 117, 108, 108, 41]) (cprintf_out ds as)
             | _ \<Rightarrow> None)
          else if d = 37 then map_option ((#) 37) (cprintf_out ds as)
          else map_option ((@) [37, d]) (cprintf_out ds as))"

definition cprintf :: "byte list \<Rightarrow> cfarg list \<Rightarrow> 'a cons_st_scheme \<Rightarrow> (unit, 'a cons_st_scheme) outcome" where
  "cprintf fmt as s = (case cprintf_out fmt as of None \<Rightarrow> Fault ''cprintf'' | Some out \<Rightarrow> consputs out s)"

definition str :: "string \<Rightarrow> byte list" where
  "str cs = map (\<lambda>c. of_nat (of_char c)) cs"

subsection \<open>Process listing\<close>

definition state_name :: "procstate \<Rightarrow> byte list" where
  "state_name st = str (case st of UNUSED \<Rightarrow> ''unused'' | EMBRYO \<Rightarrow> ''embryo'' | SLEEPING \<Rightarrow> ''sleep ''
     | RUNNABLE \<Rightarrow> ''runble'' | RUNNING \<Rightarrow> ''run   '' | ZOMBIE \<Rightarrow> ''zombie'')"

fun print_pcs :: "uint list \<Rightarrow> 'a cons_st_scheme \<Rightarrow> (unit, 'a cons_st_scheme) outcome" where
  "print_pcs [] s = Ok () s"
| "print_pcs (pc # pcs) s =
     (if pc \<noteq> 0 then call (cprintf (str '' %p'') [CfInt pc] s) (\<lambda>_ s. print_pcs pcs s) else Ok () s)"

fun procdump_from :: "proc list \<Rightarrow> 'a cons_st_scheme \<Rightarrow> (unit, 'a cons_st_scheme) outcome" where
  "procdump_from [] s = Ok () s"
| "procdump_from (p # ps) s =
     (if state p = UNUSED then procdump_from ps s
      else
        call (cprintf (str ''%d %s %s'') [CfInt (pid p), CfStr (Some (state_name (state p))), CfStr (Some (takeWhile (\<lambda>c. c \<noteq> 0) (pname p)))] s) (\<lambda>_ s.
        call (if state p = SLEEPING
              then print_pcs (getcallerpcs (load32 (pmem s) (pcontext p + 12) + 8) (pmem s)) s
              else Ok () s) (\<lambda>_ s.
        call (cprintf [10] [] s) (\<lambda>_ s.
        procdump_from ps s))))"

definition procdump :: "'a cons_st_scheme \<Rightarrow> (unit, 'a cons_st_scheme) outcome" where
  "procdump s = procdump_from (ptable s) s"

definition ps :: "'a cons_st_scheme \<Rightarrow> (int, 'a cons_st_scheme) outcome" where
  "ps s = call (procdump s) (\<lambda>_ s. Ok 0 s)"

section \<open>Input\<close>

text \<open>Writing a byte at the edit index, and stepping back over one.\<close>

definition put_input :: "byte \<Rightarrow> 'a cons_st_scheme \<Rightarrow> 'a cons_st_scheme" where
  "put_input c s = s\<lparr>inbuf := (inbuf s)[unat (in_e s) mod INPUT_BUF := c], in_e := in_e s + 1\<rparr>"

fun erase :: "nat \<Rightarrow> 'a cons_st_scheme \<Rightarrow> (unit, 'a cons_st_scheme) outcome" where
  "erase 0 s = Ok () s"
| "erase (Suc n) s = call (consputc BACKSPACE (s\<lparr>in_e := in_e s - 1\<rparr>)) (\<lambda>_ s. erase n s)"

text \<open>Control-U. The loop ends: the edit index comes closer to the write index in every round.\<close>

function kill_line :: "'a cons_st_scheme \<Rightarrow> (unit, 'a cons_st_scheme) outcome" where
  "kill_line s =
     (if in_e s \<noteq> in_w s \<and> inbuf s ! (unat (in_e s - 1) mod INPUT_BUF) \<noteq> 10
      then call (consputc BACKSPACE (s\<lparr>in_e := in_e s - 1\<rparr>)) (\<lambda>_ s. kill_line s)
      else Ok () s)"
  by pat_completeness auto
termination
proof (relation "measure (\<lambda>s. unat (in_e s - in_w s))")
  show "(t, s) \<in> measure (\<lambda>s. unat (in_e s - in_w s))"
    if c: "in_e s \<noteq> in_w s \<and> inbuf s ! (unat (in_e s - 1) mod INPUT_BUF) \<noteq> 10"
      and ok: "consputc BACKSPACE (s\<lparr>in_e := in_e s - 1\<rparr>) = Ok u t" for s t :: "'a cons_st_scheme" and u
  proof -
    have "in_e t = in_e s - 1" "in_w t = in_w s"
      using consputc_frame [OF ok] by auto
    then have "in_e t - in_w t = in_e s - in_w s - 1" by simp
    moreover have "in_e s - in_w s \<noteq> 0" using c by simp
    then have "unat (in_e s - in_w s - 1) < unat (in_e s - in_w s)"
      by (metis diff_less unat_gt_0 unat_minus_one zero_less_one)
    ultimately show ?thesis by simp
  qed
qed simp

declare kill_line.simps [simp del]

text \<open>Recalling a line of the history: \<^verbatim>\<open>strlen\<close>, then the copy loop, which stops filling the buffer when
  it is full but still echoes.\<close>

definition hist_len :: "byte list \<Rightarrow> nat \<Rightarrow> nat option" where
  "hist_len h p = (let xs = drop p h; n = length (takeWhile (\<lambda>c. c \<noteq> 0) xs) in if p + n < length h then Some n else None)"

fun recall_from :: "byte list \<Rightarrow> 'a cons_st_scheme \<Rightarrow> (unit, 'a cons_st_scheme) outcome" where
  "recall_from [] s = Ok () s"
| "recall_from (c # cs) s =
     call (consputc (unat c) (if c \<noteq> 0 \<and> unat (in_e s - in_r s) < INPUT_BUF then put_input c s else s)) (\<lambda>_ s.
     recall_from cs s)"

definition recall :: "'a cons_st_scheme \<Rightarrow> (unit, 'a cons_st_scheme) outcome" where
  "recall s =
     call (erase (nat (prevCount s)) s) (\<lambda>_ s.
     if upCount s < 0 \<or> upCount s > 9 then Fault ''history''
     else
       let p = 128 * nat (upCount s) in
       case hist_len (history s) p of
         None \<Rightarrow> Fault ''history''
       | Some n \<Rightarrow> recall_from (take n (drop p (history s))) (s\<lparr>prevCount := int n\<rparr>))"

text \<open>Storing the line in the history.\<close>

fun hist_store :: "nat \<Rightarrow> nat \<Rightarrow> nat \<Rightarrow> 'a cons_st_scheme \<Rightarrow> 'a cons_st_scheme" where
  "hist_store 0 i p s = s"
| "hist_store (Suc r) i p s =
     hist_store r (Suc i) p (s\<lparr>history := (history s)[p + i := inbuf s ! (unat (in_w s + of_nat i) mod 128)]\<rparr>)"

definition save_line :: "'a cons_st_scheme \<Rightarrow> (unit, 'a cons_st_scheme) outcome" where
  "save_line s =
     (let n = unat (in_e s + 128 - in_w s) mod 128; p = 128 * nat (historyIndex s) in
      if historyIndex s < 0 \<or> p + n > length (history s) \<or> p + n = 0 then Fault ''history''
      else
        let s = hist_store n 0 p s;
            s = s\<lparr>history := (history s)[p + n - 1 := 0], historyIndex := historyIndex s + 1\<rparr>
        in Ok () (s\<lparr>upCount := historyIndex s\<rparr>))"

definition CTRL_P :: int where "CTRL_P = 16"
definition CTRL_U :: int where "CTRL_U = 21"
definition CTRL_H :: int where "CTRL_H = 8"
definition CTRL_D :: int where "CTRL_D = 4"
definition KEY_UP :: int where "KEY_UP = 0xE2"
definition KEY_DN :: int where "KEY_DN = 0xE3"

text \<open>One round of the loop of \<^verbatim>\<open>consoleintr\<close>, for the character \<open>c\<close>.\<close>

definition consoleintr_char :: "int \<Rightarrow> 'a cons_st_scheme \<Rightarrow> (unit, 'a cons_st_scheme) outcome" where
  "consoleintr_char c s =
     (if c = CTRL_P then procdump s
      else if c = CTRL_U then kill_line s
      else if c = CTRL_H \<or> c = 127 then
        (if in_e s \<noteq> in_w s then consputc BACKSPACE (s\<lparr>in_e := in_e s - 1\<rparr>) else Ok () s)
      else if c = KEY_UP then
        (let s = s\<lparr>upCount := upCount s - 1\<rparr> in
         if upCount s < 0 \<and> cmdCount s \<le> 9 then Ok () s
         else
           let s = (if upCount s < 0 then s\<lparr>upCount := 9\<rparr> else s) in
           if upCount s = historyIndex s then Ok () s else recall s)
      else if c = KEY_DN then
        (let s = s\<lparr>upCount := (if upCount s + 1 > 9 then 0 else upCount s + 1)\<rparr> in
         if upCount s = historyIndex s then Ok () s else recall s)
      else if c \<noteq> 0 \<and> unat (in_e s - in_r s) < INPUT_BUF then
        (let c = (if c = 13 then 10 else c); s = put_input (of_int c) s in
         call (consputc (nat c) s) (\<lambda>_ s.
         if c = 10 \<or> c = CTRL_D \<or> in_e s = in_r s + of_nat INPUT_BUF then
           let s = s\<lparr>cmdCount := cmdCount s + 1, prevCount := 0\<rparr> in
           call (if in_e s \<noteq> in_w s then save_line s else Ok () s) (\<lambda>_ s.
           Ok () (wakeup ChInput (s\<lparr>in_w := in_e s\<rparr>)))
         else Ok () s))
      else Ok () s)"

text \<open>\<^verbatim>\<open>consoleintr\<close> on the characters that \<^verbatim>\<open>getc\<close> delivers before it returns a negative value.\<close>

fun consoleintr :: "int list \<Rightarrow> 'a cons_st_scheme \<Rightarrow> (unit, 'a cons_st_scheme) outcome" where
  "consoleintr [] s = Ok () s"
| "consoleintr (c # cs) s =
     (if c < 0 then Ok () s else call (consoleintr_char c s) (\<lambda>_ s. consoleintr cs s))"

section \<open>The console device\<close>

definition proc_killed :: "'a sched_scheme \<Rightarrow> bool option" where
  "proc_killed s =
     (case curproc s of
        Some i \<Rightarrow> if i < length (ptable s) then Some (killed (ptable s ! i)) else None
      | None \<Rightarrow> None)"

lemma proc_killed_wakeup [simp]: "proc_killed (wakeup c s) = proc_killed s"
  by (auto simp: proc_killed_def wakeup_def wakeup1_def wakeup1_proc_def split: option.split)

text \<open>The loop of \<^verbatim>\<open>consoleread\<close> with \<open>n\<close> bytes to go of \<open>target\<close>: the bytes stored, or \<open>None\<close> when the
  process has been killed.\<close>

fun consoleread_from :: "nat \<Rightarrow> nat \<Rightarrow> 'a cons_st_scheme \<Rightarrow> (byte list option, 'a cons_st_scheme) outcome" where
  "consoleread_from 0 target s = Ok (Some []) s"
| "consoleread_from (Suc n) target s =
     (if in_r s = in_w s then
        (case proc_killed s of
           None \<Rightarrow> Fault ''proc''
         | Some True \<Rightarrow> Ok None s
         | Some False \<Rightarrow> Sleep ChInput s)
      else
        let c = inbuf s ! (unat (in_r s) mod INPUT_BUF); s = s\<lparr>in_r := in_r s + 1\<rparr> in
        if c = of_int CTRL_D then
          Ok (Some []) (if Suc n < target then s\<lparr>in_r := in_r s - 1\<rparr> else s)
        else if c = 10 then Ok (Some [c]) s
        else call (consoleread_from n target s) (\<lambda>r s. Ok (map_option ((#) c) r) s))"

definition consoleread :: "nat \<Rightarrow> int \<Rightarrow> 'a cons_st_scheme \<Rightarrow> (int \<times> byte list, 'a cons_st_scheme) outcome" where
  "consoleread ip n s =
     call (iunlock ip s) (\<lambda>_ s.
     call (consoleread_from (nat n) (nat n) s) (\<lambda>r s.
     call (ilock ip s) (\<lambda>_ s.
     case r of None \<Rightarrow> Ok (- 1, []) s | Some bs \<Rightarrow> Ok (int (length bs), bs) s)))"

definition consolewrite :: "nat \<Rightarrow> byte list \<Rightarrow> 'a cons_st_scheme \<Rightarrow> (int, 'a cons_st_scheme) outcome" where
  "consolewrite ip bs s =
     call (iunlock ip s) (\<lambda>_ s.
     call (consputs bs s) (\<lambda>_ s.
     call (ilock ip s) (\<lambda>_ s.
     Ok (int (length bs)) s)))"

definition consoleinit :: "'a cons_st_scheme \<Rightarrow> 'a cons_st_scheme" where
  "consoleinit s =
     s\<lparr>devsw := (devsw s)[CONSOLE := (devsw s ! CONSOLE)\<lparr>dev_write := Some Fn_consolewrite, dev_read := Some Fn_consoleread\<rparr>]\<rparr>"

end
