(* ===== verification/Pipe.thy ===== *)
theory Pipe
  imports Console
begin

text \<open>
  Pipes (\<^verbatim>\<open>pipe.c\<close>): a ring of \<^verbatim>\<open>PIPESIZE\<close> bytes with free-running 32-bit counters. A pipe lives in a
  page from \<^verbatim>\<open>kalloc\<close> and is named by its address; \<open>pipes\<close> is the typed view of those pages. A writer
  that finds the ring full, and a reader that finds it empty, sleep; \<open>pipewrite_from\<close> and \<open>piperead\<close>
  are the code from entry or from a wakeup up to the next sleep or the return, so any interleaving
  of readers and writers is a sequence of such pieces. The locale \<open>bounded_fifo\<close> states what a ring
  of bytes promises and proves the first-in first-out behaviour once; it is interpreted on the ring.
\<close>

section \<open>State and operations\<close>

definition PIPESIZE :: nat where "PIPESIZE = 512"

record pipe =
  pdata :: "byte list"
  nread :: uint
  nwrite :: uint
  readopen :: bool
  writeopen :: bool

record pipe_st = cons_st +
  pipes :: "uint \<Rightarrow> pipe"

definition setp :: "uint \<Rightarrow> pipe \<Rightarrow> 'a pipe_st_scheme \<Rightarrow> 'a pipe_st_scheme" where
  "setp p x s = s\<lparr>pipes := (pipes s)(p := x)\<rparr>"

definition pipe_full :: "pipe \<Rightarrow> bool" where
  "pipe_full x \<longleftrightarrow> nwrite x = nread x + of_nat PIPESIZE"

definition pipe_empty :: "pipe \<Rightarrow> bool" where
  "pipe_empty x \<longleftrightarrow> nread x = nwrite x"

definition pipe_put :: "byte \<Rightarrow> pipe \<Rightarrow> pipe" where
  "pipe_put b x = x\<lparr>pdata := (pdata x)[unat (nwrite x) mod PIPESIZE := b], nwrite := nwrite x + 1\<rparr>"

definition pipe_get :: "pipe \<Rightarrow> byte \<times> pipe" where
  "pipe_get x = (pdata x ! (unat (nread x) mod PIPESIZE), x\<lparr>nread := nread x + 1\<rparr>)"

definition pipeclose :: "uint \<Rightarrow> bool \<Rightarrow> 'a pipe_st_scheme \<Rightarrow> (unit, 'a pipe_st_scheme) outcome" where
  "pipeclose p wr s =
     (let s = (if wr then wakeup (ChPipeRead p) (setp p ((pipes s p)\<lparr>writeopen := False\<rparr>) s)
               else wakeup (ChPipeWrite p) (setp p ((pipes s p)\<lparr>readopen := False\<rparr>) s))
      in if \<not> readopen (pipes s p) \<and> \<not> writeopen (pipes s p) then kfree p s else Ok () s)"

text \<open>The result is whether the loop ran to its end; otherwise \<^verbatim>\<open>pipewrite\<close> returns \<^verbatim>\<open>-1\<close>.\<close>

fun pipewrite_from :: "uint \<Rightarrow> byte list \<Rightarrow> 'a pipe_st_scheme \<Rightarrow> (bool, 'a pipe_st_scheme) outcome" where
  "pipewrite_from p [] s = Ok True (wakeup (ChPipeRead p) s)"
| "pipewrite_from p (b # bs) s =
     (if pipe_full (pipes s p) then
        if \<not> readopen (pipes s p) then Ok False s
        else case proc_killed s of
          None \<Rightarrow> Fault ''proc''
        | Some True \<Rightarrow> Ok False s
        | Some False \<Rightarrow> Sleep (ChPipeWrite p) (wakeup (ChPipeRead p) s)
      else pipewrite_from p bs (setp p (pipe_put b (pipes s p)) s))"

definition pipewrite :: "uint \<Rightarrow> byte list \<Rightarrow> int \<Rightarrow> 'a pipe_st_scheme \<Rightarrow> (int, 'a pipe_st_scheme) outcome" where
  "pipewrite p bs n s = call (pipewrite_from p (take (nat n) bs) s) (\<lambda>ok s. Ok (if ok then n else - 1) s)"

fun drain :: "nat \<Rightarrow> pipe \<Rightarrow> byte list \<times> pipe" where
  "drain 0 x = ([], x)"
| "drain (Suc n) x =
     (if pipe_empty x then ([], x)
      else let (b, y) = pipe_get x; (bs, z) = drain n y in (b # bs, z))"

definition piperead :: "uint \<Rightarrow> int \<Rightarrow> 'a pipe_st_scheme \<Rightarrow> (int \<times> byte list, 'a pipe_st_scheme) outcome" where
  "piperead p n s =
     (if pipe_empty (pipes s p) \<and> writeopen (pipes s p) then
        case proc_killed s of
          None \<Rightarrow> Fault ''proc''
        | Some True \<Rightarrow> Ok (- 1, []) s
        | Some False \<Rightarrow> Sleep (ChPipeRead p) s
      else
        let (bs, x) = drain (nat n) (pipes s p)
        in Ok (int (length bs), bs) (wakeup (ChPipeWrite p) (setp p x s)))"

section \<open>Bounded queues\<close>

text \<open>What a client may rely on: \<open>content\<close> is the list of elements in the queue, oldest first.\<close>

datatype 'b qop = Put 'b | Get

locale bounded_fifo =
  fixes inv :: "'q \<Rightarrow> bool" and content :: "'q \<Rightarrow> 'b list" and cap :: nat
    and full :: "'q \<Rightarrow> bool" and is_empty :: "'q \<Rightarrow> bool"
    and put :: "'b \<Rightarrow> 'q \<Rightarrow> 'q" and get :: "'q \<Rightarrow> 'b \<times> 'q"
  assumes full_iff: "inv q \<Longrightarrow> full q \<longleftrightarrow> length (content q) = cap"
    and empty_iff: "inv q \<Longrightarrow> is_empty q \<longleftrightarrow> content q = []"
    and put_inv: "inv q \<Longrightarrow> \<not> full q \<Longrightarrow> inv (put b q)"
    and put_content: "inv q \<Longrightarrow> \<not> full q \<Longrightarrow> content (put b q) = content q @ [b]"
    and get_inv: "inv q \<Longrightarrow> \<not> is_empty q \<Longrightarrow> inv (snd (get q))"
    and get_content: "inv q \<Longrightarrow> \<not> is_empty q \<Longrightarrow> content q = fst (get q) # content (snd (get q))"
    and bounded: "inv q \<Longrightarrow> length (content q) \<le> cap"
begin

text \<open>A history of attempts: an attempt on a full or empty queue has no effect. The result is the elements
  accepted, the elements delivered and the queue.\<close>

fun qrun :: "'b qop list \<Rightarrow> 'q \<Rightarrow> 'b list \<times> 'b list \<times> 'q" where
  "qrun [] q = ([], [], q)"
| "qrun (Put b # ops) q =
     (if full q then qrun ops q else let (i, j, r) = qrun ops (put b q) in (b # i, j, r))"
| "qrun (Get # ops) q =
     (if is_empty q then qrun ops q else let (i, j, r) = qrun ops (snd (get q)) in (i, fst (get q) # j, r))"

lemma fifo:
  "inv q \<Longrightarrow> qrun ops q = (i, j, r) \<Longrightarrow> inv r \<and> content q @ i = j @ content r"
proof (induction ops q arbitrary: i j r rule: qrun.induct)
  case (2 b ops q)
  show ?case
  proof (cases "full q")
    case True
    with 2 show ?thesis by simp
  next
    case False
    obtain i' j' r' where r: "qrun ops (put b q) = (i', j', r')" by (metis prod_cases3)
    have "inv r' \<and> content (put b q) @ i' = j' @ content r'" using "2.IH"(2) [OF False] put_inv [OF "2.prems"(1) False] r by blast
    then show ?thesis using "2.prems" False r put_content [OF "2.prems"(1) False] by auto
  qed
next
  case (3 ops q)
  show ?case
  proof (cases "is_empty q")
    case True
    with 3 show ?thesis by simp
  next
    case False
    obtain b p where g: "get q = (b, p)" by (metis surj_pair)
    obtain i' j' r' where r: "qrun ops p = (i', j', r')" by (metis prod_cases3)
    have "inv p" using get_inv [OF "3.prems"(1) False] g by simp
    then have "inv r' \<and> content p @ i' = j' @ content r'" using "3.IH"(2) [OF False] r g by simp
    moreover have "content q = b # content p" using get_content [OF "3.prems"(1) False] g by simp
    moreover have "i = i'" "j = b # j'" "r = r'" using "3.prems"(2) False r g by simp_all
    ultimately show ?thesis by simp
  qed
qed simp

end

section \<open>The ring as a queue\<close>

definition pipe_inv :: "pipe \<Rightarrow> bool" where
  "pipe_inv x \<longleftrightarrow> length (pdata x) = PIPESIZE \<and> unat (nwrite x - nread x) \<le> PIPESIZE"

definition pcontent :: "pipe \<Rightarrow> byte list" where
  "pcontent x = map (\<lambda>i. pdata x ! (unat (nread x + of_nat i) mod PIPESIZE)) [0..<unat (nwrite x - nread x)]"

lemma ring_index:
  "unat (a + of_nat i :: uint) mod PIPESIZE = (unat a + i) mod PIPESIZE"
proof -
  have "unat (a + of_nat i :: uint) = (unat a + i) mod 2 ^ 32"
    by (simp add: unat_word_ariths unat_of_nat take_bit_eq_mod mod_simps)
  moreover have "(unat a + i) mod 2 ^ 32 mod PIPESIZE = (unat a + i) mod PIPESIZE"
    unfolding PIPESIZE_def by (rule mod_mod_cancel) simp
  ultimately show ?thesis by simp
qed

lemma ring_index_0: "unat (nwrite x) mod PIPESIZE = (unat (nread x) + unat (nwrite x - nread x)) mod PIPESIZE"
  using ring_index [of "nread x" "unat (nwrite x - nread x)"] by simp

lemma mod_neq:
  assumes "i < n" and "n < PIPESIZE"
  shows "(a + i) mod PIPESIZE \<noteq> (a + n) mod PIPESIZE"
proof
  assume "(a + i) mod PIPESIZE = (a + n) mod PIPESIZE"
  then have "PIPESIZE dvd (a + n) - (a + i)"
    using assms by (metis add_le_cancel_left less_imp_le_nat mod_eq_dvd_iff_nat)
  then have "PIPESIZE dvd n - i" by simp
  with assms show False by (auto dest: dvd_imp_le)
qed

lemma pipe_full_iff: "pipe_inv x \<Longrightarrow> pipe_full x \<longleftrightarrow> unat (nwrite x - nread x) = PIPESIZE"
proof -
  have "nwrite x = nread x + of_nat PIPESIZE \<longleftrightarrow> nwrite x - nread x = of_nat PIPESIZE" by (auto simp: algebra_simps)
  also have "\<dots> \<longleftrightarrow> unat (nwrite x - nread x) = PIPESIZE" by (simp add: word_unat_eq_iff PIPESIZE_def)
  finally show ?thesis by (simp add: pipe_full_def)
qed

interpretation ring: bounded_fifo pipe_inv pcontent PIPESIZE pipe_full pipe_empty pipe_put pipe_get
proof unfold_locales
  fix x :: pipe and b
  assume inv: "pipe_inv x"
  then have le: "unat (nwrite x - nread x) \<le> PIPESIZE" and len: "length (pdata x) = PIPESIZE" by (auto simp: pipe_inv_def)
  show "pipe_full x \<longleftrightarrow> length (pcontent x) = PIPESIZE" using pipe_full_iff [OF inv] by (simp add: pcontent_def)
  show "pipe_empty x \<longleftrightarrow> pcontent x = []"
    by (auto simp: pipe_empty_def pcontent_def unat_eq_zero)
  show "length (pcontent x) \<le> PIPESIZE" using le by (simp add: pcontent_def)
  show "pipe_inv (pipe_put b x)" if nf: "\<not> pipe_full x"
  proof -
    have lt: "unat (nwrite x - nread x) < PIPESIZE" using nf le pipe_full_iff [OF inv] by simp
    have "unat (nwrite x + 1 - nread x) = unat (nwrite x - nread x) + 1"
      using lt unat_add_small [of "nwrite x - nread x" 1] by (simp add: PIPESIZE_def algebra_simps)
    then show ?thesis using lt len by (simp add: pipe_inv_def pipe_put_def)
  qed
  show "pcontent (pipe_put b x) = pcontent x @ [b]" if nf: "\<not> pipe_full x"
  proof -
    let ?n = "unat (nwrite x - nread x)"
    have lt: "?n < PIPESIZE" using nf le pipe_full_iff [OF inv] by simp
    have n1: "unat (nwrite x + 1 - nread x) = Suc ?n"
      using lt unat_add_small [of "nwrite x - nread x" 1] by (simp add: PIPESIZE_def algebra_simps)
    have old: "(pdata x)[unat (nwrite x) mod PIPESIZE := b] ! (unat (nread x + of_nat i) mod PIPESIZE) =
        pdata x ! (unat (nread x + of_nat i) mod PIPESIZE)" if "i < ?n" for i
      using mod_neq [OF that lt, of "unat (nread x)"] unfolding ring_index ring_index_0 by simp
    have new: "(pdata x)[unat (nwrite x) mod PIPESIZE := b] ! (unat (nread x + of_nat ?n) mod PIPESIZE) = b"
      unfolding ring_index ring_index_0 using len by (simp add: PIPESIZE_def)
    show ?thesis using old new by (simp add: pcontent_def pipe_put_def n1)
  qed
  assume ne: "\<not> pipe_empty x"
  let ?n = "unat (nwrite x - nread x)"
  have pos: "?n > 0" using ne by (simp add: pipe_empty_def unat_gt_0)
  have n1: "unat (nwrite x - (nread x + 1)) = ?n - 1"
  proof -
    have "nwrite x - (nread x + 1) = (nwrite x - nread x) - 1" by simp
    then show ?thesis using pos by (metis unat_gt_0 unat_minus_one)
  qed
  show "pipe_inv (snd (pipe_get x))" using n1 le len by (simp add: pipe_inv_def pipe_get_def)
  show "pcontent x = fst (pipe_get x) # pcontent (snd (pipe_get x))"
  proof -
    have "[0..<?n] = 0 # map Suc [0..<?n - 1]" using pos by (simp add: map_Suc_upt upt_conv_Cons)
    then show ?thesis
      using n1 by (simp add: pcontent_def pipe_get_def algebra_simps)
  qed
qed

section \<open>Readers and writers\<close>

lemma setp_sel [simp]: "pipes (setp p x s) = (pipes s)(p := x)" "curproc (setp p x s) = curproc s" "ptable (setp p x s) = ptable s"
  by (simp_all add: setp_def)

lemma wakeup_pipes [simp]: "pipes (wakeup c s) = pipes s" "curproc (wakeup c s) = curproc s"
  by (simp_all add: wakeup_def)

lemma proc_killed_setp [simp]: "proc_killed (setp p x s) = proc_killed s"
  by (simp add: proc_killed_def split: option.split)

definition pipe_room :: "pipe \<Rightarrow> nat" where
  "pipe_room x = PIPESIZE - length (pcontent x)"

text \<open>The effect of \<^verbatim>\<open>pipewrite\<close> up to its return or its next sleep: as many bytes as there is room for.\<close>

lemma pipewrite_from_spec:
  fixes bs :: "byte list"
  assumes "pipe_inv (pipes s p)" and "proc_killed s = Some kl"
  defines "k \<equiv> min (length bs) (pipe_room (pipes s p))"
  shows "\<exists>t. pipewrite_from p bs s =
      (if length bs \<le> pipe_room (pipes s p) then Ok True t
       else if \<not> readopen (pipes s p) \<or> kl then Ok False t else Sleep (ChPipeWrite p) t) \<and>
    pipe_inv (pipes t p) \<and> pcontent (pipes t p) = pcontent (pipes s p) @ take k bs \<and>
    nwrite (pipes t p) = nwrite (pipes s p) + of_nat k \<and> readopen (pipes t p) = readopen (pipes s p) \<and>
    writeopen (pipes t p) = writeopen (pipes s p) \<and>
    (pipewrite_from p bs s \<noteq> Ok False t \<longrightarrow> ptable t = wakeup1 (ChPipeRead p) (ptable s)) \<and> proc_killed t = Some kl"
  using assms(1,2) unfolding k_def
proof (induction p bs s rule: pipewrite_from.induct)
  case (1 p s)
  have "ptable (wakeup (ChPipeRead p) s) = wakeup1 (ChPipeRead p) (ptable s)" by (simp add: wakeup_def)
  with 1 show ?case by (auto intro!: exI [of _ "wakeup (ChPipeRead p) s"])
next
  case (2 p b bs s)
  let ?x = "pipes s p"
  show ?case
  proof (cases "pipe_full ?x")
    case True
    then have r0: "pipe_room ?x = 0" using ring.full_iff [OF "2.prems"(1)] by (simp add: pipe_room_def)
    show ?thesis
    proof (cases "\<not> readopen ?x \<or> kl")
      case True
      then show ?thesis using \<open>pipe_full ?x\<close> r0 "2.prems" by (auto intro!: exI [of _ s])
    next
      case False
      have "proc_killed (wakeup (ChPipeRead p) s) = Some kl"
        using "2.prems"(2) by simp
      then show ?thesis using False \<open>pipe_full ?x\<close> r0 "2.prems"
        by (auto intro!: exI [of _ "wakeup (ChPipeRead p) s"] simp: wakeup_def)
    qed
  next
    case False
    let ?s = "setp p (pipe_put b ?x) s"
    have inv: "pipe_inv (pipes ?s p)" using ring.put_inv [OF "2.prems"(1) False] by simp
    have c: "pcontent (pipes ?s p) = pcontent ?x @ [b]" using ring.put_content [OF "2.prems"(1) False] by simp
    have room: "pipe_room ?x = Suc (pipe_room (pipes ?s p))"
      using c ring.full_iff [OF "2.prems"(1)] ring.bounded [OF "2.prems"(1)] False by (simp add: pipe_room_def)
    have nw: "nwrite (pipes ?s p) = nwrite ?x + 1" by (simp add: pipe_put_def)
    have ro: "readopen (pipes ?s p) = readopen ?x" "writeopen (pipes ?s p) = writeopen ?x" by (simp_all add: pipe_put_def)
    have pk: "proc_killed ?s = Some kl" using "2.prems"(2) by simp
    have step: "pipewrite_from p (b # bs) s = pipewrite_from p bs ?s" using False by simp
    obtain t where t: "pipewrite_from p bs ?s =
        (if length bs \<le> pipe_room (pipes ?s p) then Ok True t
         else if \<not> readopen (pipes ?s p) \<or> kl then Ok False t else Sleep (ChPipeWrite p) t)"
      "pipe_inv (pipes t p)" "pcontent (pipes t p) = pcontent (pipes ?s p) @ take (min (length bs) (pipe_room (pipes ?s p))) bs"
      "nwrite (pipes t p) = nwrite (pipes ?s p) + of_nat (min (length bs) (pipe_room (pipes ?s p)))"
      "readopen (pipes t p) = readopen (pipes ?s p)" "writeopen (pipes t p) = writeopen (pipes ?s p)"
      "pipewrite_from p bs ?s \<noteq> Ok False t \<longrightarrow> ptable t = wakeup1 (ChPipeRead p) (ptable ?s)" "proc_killed t = Some kl"
      using "2.IH" [OF False inv pk] by blast
    show ?thesis
    proof (intro exI [of _ t] conjI)
      show "pipewrite_from p (b # bs) s = (if length (b # bs) \<le> pipe_room ?x then Ok True t
         else if \<not> readopen ?x \<or> kl then Ok False t else Sleep (ChPipeWrite p) t)"
        unfolding step t(1) room ro by simp
      show "pipe_inv (pipes t p)" by (fact t)
      show "pcontent (pipes t p) = pcontent ?x @ take (min (length (b # bs)) (pipe_room ?x)) (b # bs)"
        unfolding t(3) c room by simp
      show "nwrite (pipes t p) = nwrite ?x + of_nat (min (length (b # bs)) (pipe_room ?x))"
        unfolding t(4) nw room by simp
      show "readopen (pipes t p) = readopen ?x" "writeopen (pipes t p) = writeopen ?x" using t(5,6) ro by simp_all
      show "pipewrite_from p (b # bs) s \<noteq> Ok False t \<longrightarrow> ptable t = wakeup1 (ChPipeRead p) (ptable s)" using t(7) step by simp
      show "proc_killed t = Some kl" by (fact t)
    qed
  qed
qed

lemma drain_spec:
  "pipe_inv x \<Longrightarrow> drain n x = (bs, y) \<Longrightarrow>
   pipe_inv y \<and> bs = take n (pcontent x) \<and> pcontent y = drop n (pcontent x) \<and> nwrite y = nwrite x \<and>
   readopen y = readopen x \<and> writeopen y = writeopen x"
proof (induction n arbitrary: x bs y)
  case (Suc n)
  show ?case
  proof (cases "pipe_empty x")
    case True
    with Suc.prems ring.empty_iff [OF Suc.prems(1)] show ?thesis by auto
  next
    case False
    obtain b z where g: "pipe_get x = (b, z)" by (metis surj_pair)
    obtain cs w where d: "drain n z = (cs, w)" by (metis surj_pair)
    have "pipe_inv z" using ring.get_inv [OF Suc.prems(1) False] g by simp
    note ih = Suc.IH [OF this d]
    have "pcontent x = b # pcontent z" using ring.get_content [OF Suc.prems(1) False] g by simp
    moreover have "bs = b # cs" "y = w" using Suc.prems(2) False g d by simp_all
    moreover have "nwrite z = nwrite x" "readopen z = readopen x" "writeopen z = writeopen x" using g by (auto simp: pipe_get_def)
    ultimately show ?thesis using ih by simp
  qed
qed simp

text \<open>
  An interleaving: pieces of writers and readers of the pipe \<open>p\<close> in any order. \<open>pipe_trace\<close> collects the
  bytes that entered the ring and the bytes that \<^verbatim>\<open>piperead\<close> delivered; what entered is measured by
  the pipe's own write counter.
\<close>

datatype pcall = PWrite "byte list" | PRead int

definition after :: "('r, 's) outcome \<Rightarrow> 's option" where
  "after m = (case m of Ok _ s \<Rightarrow> Some s | Sleep _ s \<Rightarrow> Some s | _ \<Rightarrow> None)"

fun pipe_trace :: "uint \<Rightarrow> pcall list \<Rightarrow> 'a pipe_st_scheme \<Rightarrow> (byte list \<times> byte list \<times> 'a pipe_st_scheme) option" where
  "pipe_trace p [] s = Some ([], [], s)"
| "pipe_trace p (PWrite bs # cs) s =
     (case after (pipewrite_from p bs s) of
        None \<Rightarrow> None
      | Some t \<Rightarrow> map_option (\<lambda>(i, j, u). (take (unat (nwrite (pipes t p) - nwrite (pipes s p))) bs @ i, j, u)) (pipe_trace p cs t))"
| "pipe_trace p (PRead n # cs) s =
     (case piperead p n s of
        Ok (_, out) t \<Rightarrow> map_option (\<lambda>(i, j, u). (i, out @ j, u)) (pipe_trace p cs t)
      | Sleep _ t \<Rightarrow> pipe_trace p cs t
      | _ \<Rightarrow> None)"

lemma pipe_trace_fifo:
  assumes "pipe_inv (pipes s p)" and "proc_killed s = Some kl"
  shows "\<exists>i j u. pipe_trace p cs s = Some (i, j, u) \<and> pipe_inv (pipes u p) \<and>
    pcontent (pipes s p) @ i = j @ pcontent (pipes u p)"
  using assms
proof (induction cs arbitrary: s)
  case (Cons c cs)
  show ?case
  proof (cases c)
    case (PWrite bs)
    let ?k = "min (length bs) (pipe_room (pipes s p))"
    obtain t where t: "pipewrite_from p bs s =
      (if length bs \<le> pipe_room (pipes s p) then Ok True t
       else if \<not> readopen (pipes s p) \<or> kl then Ok False t else Sleep (ChPipeWrite p) t)"
      "pipe_inv (pipes t p)" "pcontent (pipes t p) = pcontent (pipes s p) @ take ?k bs"
      "nwrite (pipes t p) = nwrite (pipes s p) + of_nat ?k" "proc_killed t = Some kl"
      using pipewrite_from_spec [OF Cons.prems, of bs] by blast
    have a: "after (pipewrite_from p bs s) = Some t" unfolding t(1) by (simp add: after_def)
    have "?k \<le> PIPESIZE" by (simp add: pipe_room_def)
    then have k: "unat (nwrite (pipes t p) - nwrite (pipes s p)) = ?k"
      unfolding t(4) by (simp add: unat_of_nat_uint PIPESIZE_def)
    obtain i j u where "pipe_trace p cs t = Some (i, j, u)" "pipe_inv (pipes u p)" "pcontent (pipes t p) @ i = j @ pcontent (pipes u p)"
      using Cons.IH [OF t(2,5)] by blast
    then show ?thesis using PWrite a k t(3) by simp
  next
    case (PRead n)
    show ?thesis
    proof (cases "pipe_empty (pipes s p) \<and> writeopen (pipes s p)")
      case True
      then show ?thesis using Cons PRead by (cases kl) (auto simp: piperead_def)
    next
      case False
      obtain bs y where d: "drain (nat n) (pipes s p) = (bs, y)" by (metis surj_pair)
      note ds = drain_spec [OF Cons.prems(1) d]
      let ?t = "wakeup (ChPipeWrite p) (setp p y s)"
      have r: "piperead p n s = Ok (int (length bs), bs) ?t" using False d by (auto simp: piperead_def)
      have pk: "proc_killed ?t = Some kl"
        using Cons.prems(2) by simp
      obtain i j u where u: "pipe_trace p cs ?t = Some (i, j, u)" "pipe_inv (pipes u p)" "pcontent (pipes ?t p) @ i = j @ pcontent (pipes u p)"
        using Cons.IH [OF _ pk] ds by auto
      have "pcontent (pipes s p) @ i = bs @ pcontent (pipes ?t p) @ i" using ds by simp
      then show ?thesis using PRead r u by simp
    qed
  qed
qed simp

text \<open>C8. A pipe is first-in first-out under every interleaving of readers and writers: whatever sequence of
  pieces of \<^verbatim>\<open>pipewrite\<close> and \<^verbatim>\<open>piperead\<close> runs, none of them faults, and the bytes delivered, followed
  by the bytes still in the ring, are the bytes that were in the ring followed by the bytes written,
  in order, without loss or duplication, also when the 32-bit counters wrap around.\<close>

theorem pipe_fifo:
  assumes "pipe_inv (pipes s p)" and "proc_killed s = Some kl"
  shows "\<exists>i j u. pipe_trace p cs s = Some (i, j, u) \<and> pipe_inv (pipes u p) \<and>
    pcontent (pipes s p) @ i = j @ pcontent (pipes u p)"
  using assms by (rule pipe_trace_fifo)

definition proc0 :: proc where
  "proc0 =
     \<lparr>sz = 0, pgdir = 0, kstack = 0, state = UNUSED, pid = 0, parent = None,
      tf = \<lparr>tf_eax = 0, tf_eip = 0, tf_esp = 0, tf_cs = 0, tf_ds = 0, tf_es = 0, tf_ss = 0,
        tf_eflags = 0, tf_trapno = 0\<rparr>,
      pcontext = 0, pchan = None, killed = False, ofile = replicate NOFILE None, cwd = None, pname = replicate 16 0,
      ctime = 0, stime = 0, retime = 0, rutime = 0, priority = 0, fake = []\<rparr>"

definition demo_pipe_st :: "pipe \<Rightarrow> pipe_st" where
  "demo_pipe_st x =
     \<lparr>pmem = (\<lambda>_. 0), freelist = 0, kend = 0x80100000, kdata = 0x80108000, kpgdir = 0,
      ptable = [proc0\<lparr>state := RUNNING\<rparr>, proc0\<lparr>state := SLEEPING, pchan := Some (ChPipeRead 0x80200000)\<rparr>],
      nextpid = 3, ticks = 0, initproc = Some 0, curproc = Some 0,
      memdisk = (\<lambda>_. []), disksize = 0, diskops = [], bufs = [], lru = [],
      logstart = 0, logsize = 0, logbusy = False, logdev = 0, lh_n = 0, lh_sector = [], icache = [],
      devsw = [], crt = [], crtpos = 0, uart = False, uartout = [], inbuf = [], in_r = 0, in_w = 0, in_e = 0,
      history = [], historyIndex = 0, cmdCount = 0, upCount = 0, prevCount = 0,
      pipes = (\<lambda>_. x)\<rparr>"

definition wrapping_pipe :: pipe where
  "wrapping_pipe = \<lparr>pdata = replicate PIPESIZE 0, nread = 0xFFFFFFFF, nwrite = 0xFFFFFFFF, readopen = True, writeopen = True\<rparr>"

lemma demo_pipe:
  "pipe_inv (pipes (demo_pipe_st wrapping_pipe) p)" "proc_killed (demo_pipe_st wrapping_pipe) = Some False"
  "pcontent (pipes (demo_pipe_st wrapping_pipe) p) = []"
  by (simp_all add: demo_pipe_st_def wrapping_pipe_def pipe_inv_def proc_killed_def proc0_def pcontent_def)

theorem pipe_fifo_witness:
  "\<exists>i j u. pipe_trace 0x80200000 [PWrite [1, 2, 3], PRead 2, PWrite [4], PRead 5] (demo_pipe_st wrapping_pipe) = Some (i, j, u) \<and>
     pipe_inv (pipes u 0x80200000) \<and> i = j @ pcontent (pipes u 0x80200000)"
  using pipe_fifo [OF demo_pipe(1,2), where cs = "[PWrite [1, 2, 3], PRead 2, PWrite [4], PRead 5]" and p = "0x80200000"]
  by (simp only: demo_pipe(3) append_Nil)



text \<open>C29. Readers: \<^verbatim>\<open>piperead\<close> delivers the oldest bytes, up to the number asked for, and wakes every writer
  sleeping on the pipe; it returns 0 bytes for a positive request only when the ring is empty and
  the write end closed (end of file), fails only for a killed process, and sleeps only on an empty
  ring that can still be written.\<close>

theorem piperead_result:
  assumes "pipe_inv (pipes s p)" and "proc_killed s = Some kl"
  shows "if pcontent (pipes s p) = [] \<and> writeopen (pipes s p)
    then piperead p n s = (if kl then Ok (- 1, []) s else Sleep (ChPipeRead p) s)
    else \<exists>t. piperead p n s = Ok (int (length (take (nat n) (pcontent (pipes s p)))), take (nat n) (pcontent (pipes s p))) t \<and>
      pcontent (pipes t p) = drop (nat n) (pcontent (pipes s p)) \<and>
      (\<forall>q \<in> set (ptable t). \<not> (state q = SLEEPING \<and> pchan q = Some (ChPipeWrite p)))"
proof -
  note e = ring.empty_iff [OF assms(1)]
  obtain bs y where d: "drain (nat n) (pipes s p) = (bs, y)" by (metis surj_pair)
  note ds = drain_spec [OF assms(1) d]
  have "q \<in> set (ptable (wakeup (ChPipeWrite p) (setp p y s))) \<Longrightarrow> \<not> (state q = SLEEPING \<and> pchan q = Some (ChPipeWrite p))" for q
    by (auto simp: wakeup_def wakeup1_def wakeup1_proc_def)
  then show ?thesis using e d ds assms(2) by (auto simp: piperead_def)
qed

theorem piperead_result_witness:
  "piperead 0x80200000 4 (demo_pipe_st wrapping_pipe) = Sleep (ChPipeRead 0x80200000) (demo_pipe_st wrapping_pipe)"
  using piperead_result [OF demo_pipe(1,2), where n = 4 and p = "0x80200000"]
  by (simp add: demo_pipe(3)) (simp add: demo_pipe_st_def wrapping_pipe_def)

end
