(* ===== verification/Dir.thy ===== *)
theory Dir
  imports Console
begin

text \<open>
  The upper layers of \<^verbatim>\<open>fs.c\<close>: reading and writing file contents, directories and path names. A copy
  to or from a caller's buffer is the list of bytes read or written; \<^verbatim>\<open>readi\<close> returns the bytes it
  stores with its return value. A path is the list of its characters without the terminator, and
  a name buffer is its \<^verbatim>\<open>DIRSIZ\<close> bytes.
\<close>

section \<open>File contents\<close>

definition has_read :: "ushort \<Rightarrow> 'a cons_st_scheme \<Rightarrow> bool" where
  "has_read major s \<longleftrightarrow> \<not> (sint major < 0 \<or> sint major \<ge> int NDEV \<or> dev_read (devsw s ! nat (sint major)) = None)"

definition has_write :: "ushort \<Rightarrow> 'a cons_st_scheme \<Rightarrow> bool" where
  "has_write major s \<longleftrightarrow> \<not> (sint major < 0 \<or> sint major \<ge> int NDEV \<or> dev_write (devsw s ! nat (sint major)) = None)"

text \<open>The copy loops. \<open>n\<close> bytes are to go from offset \<open>off\<close>; the offset cannot wrap, the guards of
  \<^verbatim>\<open>readi\<close> and \<^verbatim>\<open>writei\<close> have excluded it.\<close>

definition chunk :: "nat \<Rightarrow> nat \<Rightarrow> nat" where
  "chunk off n = min n (BSIZE - off mod BSIZE)"

lemma chunk_pos: "n > 0 \<Longrightarrow> 0 < chunk off n"
  by (simp add: chunk_def BSIZE_def)

lemma chunk_le: "chunk off n \<le> n" "chunk off n \<le> BSIZE - off mod BSIZE"
  by (simp_all add: chunk_def)

function readi_from :: "nat \<Rightarrow> nat \<Rightarrow> nat \<Rightarrow> 'a cons_st_scheme \<Rightarrow> (byte list, 'a cons_st_scheme) outcome" where
  "readi_from ip off n s =
     (if n = 0 then Ok [] s
      else
        call (bmap ip (of_nat (off div BSIZE)) s) (\<lambda>addr s.
        call (bread (unat (idev (geti s ip))) (unat addr) s) (\<lambda>bp s.
        let m = chunk off n; bs = take m (drop (off mod BSIZE) (bdata (getb s bp))) in
        call (brelse bp s) (\<lambda>_ s.
        call (readi_from ip (off + m) (n - m) s) (\<lambda>r s. Ok (bs @ r) s)))))"
  by pat_completeness auto
termination
  by (relation "measure (\<lambda>(ip, off, n, s). n)") (auto simp: chunk_pos)

declare readi_from.simps [simp del]

definition readi :: "nat \<Rightarrow> uint \<Rightarrow> uint \<Rightarrow> 'a cons_st_scheme \<Rightarrow> (int \<times> byte list, 'a cons_st_scheme) outcome" where
  "readi ip off n s =
     (if itype (geti s ip) = T_DEV then
        if has_read (imajor (geti s ip)) s then consoleread ip (sint n) s else Ok (- 1, []) s
      else if off > isize (geti s ip) \<or> off + n < off then Ok (- 1, []) s
      else
        let n = (if off + n > isize (geti s ip) then isize (geti s ip) - off else n) in
        call (readi_from ip (unat off) (unat n) s) (\<lambda>bs s. Ok (sint n, bs) s))"

definition put_bytes :: "nat \<Rightarrow> byte list \<Rightarrow> block \<Rightarrow> block" where
  "put_bytes off bs d = take off d @ bs @ drop (off + length bs) d"

function writei_from :: "nat \<Rightarrow> nat \<Rightarrow> byte list \<Rightarrow> 'a cons_st_scheme \<Rightarrow> (unit, 'a cons_st_scheme) outcome" where
  "writei_from ip off bs s =
     (if bs = [] then Ok () s
      else
        call (bmap ip (of_nat (off div BSIZE)) s) (\<lambda>addr s.
        call (bread (unat (idev (geti s ip))) (unat addr) s) (\<lambda>bp s.
        let m = chunk off (length bs) in
        call (log_write bp (bmodify bp (put_bytes (off mod BSIZE) (take m bs)) s)) (\<lambda>_ s.
        call (brelse bp s) (\<lambda>_ s.
        writei_from ip (off + m) (drop m bs) s)))))"
  by pat_completeness auto
termination
  by (relation "measure (\<lambda>(ip, off, bs, s). length bs)") (auto simp: chunk_pos)

declare writei_from.simps [simp del]

definition writei :: "nat \<Rightarrow> byte list \<Rightarrow> uint \<Rightarrow> uint \<Rightarrow> 'a cons_st_scheme \<Rightarrow> (int, 'a cons_st_scheme) outcome" where
  "writei ip src off n s =
     (if itype (geti s ip) = T_DEV then
        if has_write (imajor (geti s ip)) s then consolewrite ip (take (nat (sint n)) src) s else Ok (- 1) s
      else if off > isize (geti s ip) \<or> off + n < off then Ok (- 1) s
      else if unat (off + n) > MAXFILE * BSIZE then Ok (- 1) s
      else
        call (writei_from ip (unat off) (take (unat n) src) s) (\<lambda>_ s.
        let off = off + n in
        if n > 0 \<and> off > isize (geti s ip) then
          call (iupdate ip (seti ip ((geti s ip)\<lparr>isize := off\<rparr>) s)) (\<lambda>_ s. Ok (sint n) s)
        else Ok (sint n) s))"

section \<open>Directories\<close>

definition DIRSIZ :: nat where "DIRSIZ = 14"
definition DIRENT :: nat where "DIRENT = 16"

definition namecmp :: "byte list \<Rightarrow> byte list \<Rightarrow> int" where
  "namecmp s t = strncmp (lptr s) (lptr t) DIRSIZ"

definition de_inum :: "byte list \<Rightarrow> ushort" where
  "de_inum de = get16 0 de"

definition de_name :: "byte list \<Rightarrow> byte list" where
  "de_name de = take DIRSIZ (drop 2 de)"

definition mk_dirent :: "ushort \<Rightarrow> byte list \<Rightarrow> byte list" where
  "mk_dirent i name = put16 0 i [0, 0] @ strncpy (replicate DIRSIZ 0) (lptr name) (int DIRSIZ)"

text \<open>The loops over the entries of a directory; an offset below the size is below \<open>2 ^ 32\<close>.\<close>

function dirlookup_from :: "nat \<Rightarrow> byte list \<Rightarrow> nat \<Rightarrow> 'a cons_st_scheme \<Rightarrow> ((nat \<times> nat) option, 'a cons_st_scheme) outcome" where
  "dirlookup_from dp name off s =
     (if off < unat (isize (geti s dp)) then
        call (readi dp (of_nat off) (of_nat DIRENT) s) (\<lambda>(r, de) s.
        if r \<noteq> int DIRENT then Panic ''dirlink read''
        else if de_inum de = 0 then dirlookup_from dp name (off + DIRENT) s
        else if namecmp name (de_name de) = 0 then
          call (iget (idev (geti s dp)) (ucast (de_inum de)) s) (\<lambda>ip s. Ok (Some (ip, off)) s)
        else dirlookup_from dp name (off + DIRENT) s)
      else Ok None s)"
  by pat_completeness auto
termination
proof (relation "measure (\<lambda>(dp, name, off, s). 2 ^ 32 - off)")
  show "((dp, name, off + DIRENT, t), dp, name, off, s) \<in> measure (\<lambda>(dp, name, off, s). 2 ^ 32 - off)"
    if "off < unat (isize (geti s dp))" for dp and name :: "byte list" and off and s t :: "'a cons_st_scheme"
    using that unat_uint_less [of "isize (geti s dp)"] by (simp add: DIRENT_def)
  then show "((dp, name, off + DIRENT, t), dp, name, off, s) \<in> measure (\<lambda>(dp, name, off, s). 2 ^ 32 - off)"
    if "off < unat (isize (geti s dp))" for dp and name :: "byte list" and off and s t :: "'a cons_st_scheme"
    using that .
qed simp

declare dirlookup_from.simps [simp del]

definition dirlookup :: "nat \<Rightarrow> byte list \<Rightarrow> 'a cons_st_scheme \<Rightarrow> ((nat \<times> nat) option, 'a cons_st_scheme) outcome" where
  "dirlookup dp name s =
     (if itype (geti s dp) \<noteq> T_DIR then Panic ''dirlookup not DIR'' else dirlookup_from dp name 0 s)"

function empty_dirent :: "nat \<Rightarrow> nat \<Rightarrow> 'a cons_st_scheme \<Rightarrow> (nat, 'a cons_st_scheme) outcome" where
  "empty_dirent dp off s =
     (if off < unat (isize (geti s dp)) then
        call (readi dp (of_nat off) (of_nat DIRENT) s) (\<lambda>(r, de) s.
        if r \<noteq> int DIRENT then Panic ''dirlink read''
        else if de_inum de = 0 then Ok off s
        else empty_dirent dp (off + DIRENT) s)
      else Ok off s)"
  by pat_completeness auto
termination
proof (relation "measure (\<lambda>(dp, off, s). 2 ^ 32 - off)")
  show "((dp, off + DIRENT, t), dp, off, s) \<in> measure (\<lambda>(dp, off, s). 2 ^ 32 - off)"
    if "off < unat (isize (geti s dp))" for dp off and s t :: "'a cons_st_scheme"
    using that unat_uint_less [of "isize (geti s dp)"] by (simp add: DIRENT_def)
qed simp

declare empty_dirent.simps [simp del]

definition dirlink :: "nat \<Rightarrow> byte list \<Rightarrow> uint \<Rightarrow> 'a cons_st_scheme \<Rightarrow> (int, 'a cons_st_scheme) outcome" where
  "dirlink dp name i s =
     call (dirlookup dp name s) (\<lambda>r s.
     case r of
       Some (ip, _) \<Rightarrow> call (iput ip s) (\<lambda>_ s. Ok (- 1) s)
     | None \<Rightarrow>
         call (empty_dirent dp 0 s) (\<lambda>off s.
         call (writei dp (mk_dirent (ucast i) name) (of_nat off) (of_nat DIRENT) s) (\<lambda>r s.
         if r \<noteq> int DIRENT then Panic ''dirlink'' else Ok 0 s)))"

section \<open>Path names\<close>

definition slash :: byte where "slash = 47"

definition skipelem :: "byte list \<Rightarrow> byte list \<Rightarrow> (byte list \<times> byte list) option" where
  "skipelem path name =
     (let path = dropWhile (\<lambda>c. c = slash) path in
      if path = [] then None
      else
        let elem = takeWhile (\<lambda>c. c \<noteq> slash) path; len = length elem;
            path = dropWhile (\<lambda>c. c \<noteq> slash) path;
            name = (if len \<ge> DIRSIZ then take DIRSIZ elem @ drop DIRSIZ name
                    else elem @ [0] @ drop (len + 1) name)
        in Some (dropWhile (\<lambda>c. c = slash) path, name))"

lemma skipelem_shorter: "skipelem path name = Some (path', name') \<Longrightarrow> length path' < length path"
proof -
  assume a: "skipelem path name = Some (path', name')"
  let ?p = "dropWhile (\<lambda>c. c = slash) path"
  from a have ne: "?p \<noteq> []" and p': "path' = dropWhile (\<lambda>c. c = slash) (dropWhile (\<lambda>c. c \<noteq> slash) ?p)"
    by (auto simp: skipelem_def Let_def split: if_splits)
  from ne obtain c cs where c: "?p = c # cs" by (cases ?p) auto
  then have "c \<noteq> slash" using hd_dropWhile [of "\<lambda>c. c = slash" path] by (metis list.distinct(1) list.sel(1))
  then have "length (dropWhile (\<lambda>c. c \<noteq> slash) ?p) \<le> length cs" using c by (simp add: length_dropWhile_le)
  moreover have "length path' \<le> length (dropWhile (\<lambda>c. c \<noteq> slash) ?p)" unfolding p' by (rule length_dropWhile_le)
  moreover have "length ?p \<le> length path" by (rule length_dropWhile_le)
  ultimately show ?thesis using c by simp
qed

function namex_from :: "nat \<Rightarrow> byte list \<Rightarrow> bool \<Rightarrow> byte list \<Rightarrow> 'a cons_st_scheme \<Rightarrow> (nat option \<times> byte list, 'a cons_st_scheme) outcome" where
  "namex_from ip path nameiparent name s =
     (case skipelem path name of
        None \<Rightarrow>
          if nameiparent then call (iput ip s) (\<lambda>_ s. Ok (None, name) s) else Ok (Some ip, name) s
      | Some (path', name') \<Rightarrow>
          call (ilock ip s) (\<lambda>_ s.
          if itype (geti s ip) \<noteq> T_DIR then call (iunlockput ip s) (\<lambda>_ s. Ok (None, name') s)
          else if nameiparent \<and> path' = [] then call (iunlock ip s) (\<lambda>_ s. Ok (Some ip, name') s)
          else
            call (dirlookup ip name' s) (\<lambda>r s.
            case r of
              None \<Rightarrow> call (iunlockput ip s) (\<lambda>_ s. Ok (None, name') s)
            | Some (nxt, _) \<Rightarrow>
                call (iunlockput ip s) (\<lambda>_ s.
                namex_from nxt path' nameiparent name' s))))"
  by pat_completeness auto
termination
  by (relation "measure (\<lambda>(ip, path, np, name, s). length path)") (auto dest: skipelem_shorter)

declare namex_from.simps [simp del]

definition namex :: "byte list \<Rightarrow> bool \<Rightarrow> byte list \<Rightarrow> 'a cons_st_scheme \<Rightarrow> (nat option \<times> byte list, 'a cons_st_scheme) outcome" where
  "namex path nameiparent name s =
     (if path \<noteq> [] \<and> hd path = slash
      then call (iget (of_nat ROOTDEV) ROOTINO s) (\<lambda>ip s. namex_from ip path nameiparent name s)
      else case curproc s of
        None \<Rightarrow> Fault ''proc''
      | Some p \<Rightarrow>
          (case cwd (ptable s ! p) of
             None \<Rightarrow> Fault ''proc->cwd''
           | Some ip \<Rightarrow> call (idup ip s) (\<lambda>ip s. namex_from ip path nameiparent name s)))"

definition namei :: "byte list \<Rightarrow> 'a cons_st_scheme \<Rightarrow> (nat option, 'a cons_st_scheme) outcome" where
  "namei path s = call (namex path False (replicate DIRSIZ 0) s) (\<lambda>(ip, _) s. Ok ip s)"

definition nameiparent :: "byte list \<Rightarrow> 'a cons_st_scheme \<Rightarrow> (nat option \<times> byte list, 'a cons_st_scheme) outcome" where
  "nameiparent path s = namex path True (replicate DIRSIZ 0) s"

end
