(* ===== verification/File.thy ===== *)
theory File
  imports Dir Pipe
begin

text \<open>
  Open files (\<^verbatim>\<open>file.c\<close>) and the creation of pipes (\<^verbatim>\<open>pipealloc\<close> of \<^verbatim>\<open>pipe.c\<close>). A file pointer is an
  index of \<^verbatim>\<open>ftable.file\<close>. Data moved to or from the caller is a list of bytes, as in \<open>Dir\<close>.
\<close>

section \<open>State and operations\<close>

definition NFILE :: nat where "NFILE = 100"

datatype ftype = FD_NONE | FD_PIPE | FD_INODE

record kfile =
  ftype :: ftype
  fref :: int
  freadable :: bool
  fwritable :: bool
  fpipe :: uint
  fip :: nat
  foff :: uint

record file_st = pipe_st +
  ftable :: "kfile list"

definition getf :: "'a file_st_scheme \<Rightarrow> nat \<Rightarrow> kfile" where
  "getf s f = ftable s ! f"

definition setf :: "nat \<Rightarrow> kfile \<Rightarrow> 'a file_st_scheme \<Rightarrow> 'a file_st_scheme" where
  "setf f x s = s\<lparr>ftable := (ftable s)[f := x]\<rparr>"

definition filealloc :: "'a file_st_scheme \<Rightarrow> (nat option, 'a file_st_scheme) outcome" where
  "filealloc s =
     (case List.find (\<lambda>f. fref (getf s f) = 0) [0..<NFILE] of
        Some f \<Rightarrow> Ok (Some f) (setf f ((getf s f)\<lparr>fref := 1\<rparr>) s)
      | None \<Rightarrow> Ok None s)"

definition filedup :: "nat \<Rightarrow> 'a file_st_scheme \<Rightarrow> (nat, 'a file_st_scheme) outcome" where
  "filedup f s =
     (if fref (getf s f) < 1 then Panic ''filedup''
      else Ok f (setf f ((getf s f)\<lparr>fref := fref (getf s f) + 1\<rparr>) s))"

definition fileclose :: "nat \<Rightarrow> 'a file_st_scheme \<Rightarrow> (unit, 'a file_st_scheme) outcome" where
  "fileclose f s =
     (if fref (getf s f) < 1 then Panic ''fileclose''
      else if fref (getf s f) - 1 > 0 then Ok () (setf f ((getf s f)\<lparr>fref := fref (getf s f) - 1\<rparr>) s)
      else
        let ff = getf s f; s = setf f (ff\<lparr>fref := 0, ftype := FD_NONE\<rparr>) s in
        case ftype ff of
          FD_PIPE \<Rightarrow> pipeclose (fpipe ff) (fwritable ff) s
        | FD_INODE \<Rightarrow> call (begin_trans s) (\<lambda>_ s. call (iput (fip ff) s) (\<lambda>_ s. commit_trans s))
        | FD_NONE \<Rightarrow> Ok () s)"

definition filestat :: "nat \<Rightarrow> 'a file_st_scheme \<Rightarrow> (stat option, 'a file_st_scheme) outcome" where
  "filestat f s =
     (if ftype (getf s f) = FD_INODE then
        call (ilock (fip (getf s f)) s) (\<lambda>_ s.
        let st = stati (fip (getf s f)) s in
        call (iunlock (fip (getf s f)) s) (\<lambda>_ s. Ok (Some st) s))
      else Ok None s)"

definition fileread :: "nat \<Rightarrow> int \<Rightarrow> 'a file_st_scheme \<Rightarrow> (int \<times> byte list, 'a file_st_scheme) outcome" where
  "fileread f n s =
     (if \<not> freadable (getf s f) then Ok (- 1, []) s
      else case ftype (getf s f) of
        FD_PIPE \<Rightarrow> piperead (fpipe (getf s f)) n s
      | FD_INODE \<Rightarrow>
          call (ilock (fip (getf s f)) s) (\<lambda>_ s.
          call (readi (fip (getf s f)) (foff (getf s f)) (of_int n) s) (\<lambda>(r, bs) s.
          let s = (if r > 0 then setf f ((getf s f)\<lparr>foff := foff (getf s f) + of_int r\<rparr>) s else s) in
          call (iunlock (fip (getf s f)) s) (\<lambda>_ s. Ok (r, bs) s)))
      | FD_NONE \<Rightarrow> Panic ''fileread'')"

text \<open>The loop of \<^verbatim>\<open>filewrite\<close>: \<open>bs\<close> is what is left to write, in transactions of at most \<open>max_write\<close>
  bytes. The result is whether everything was written.\<close>

definition max_write :: nat where
  "max_write = ((LOGSIZE - 1 - 1 - 2) div 2) * 512"

lemma max_write_val: "max_write = 1536"
  by (simp add: max_write_def LOGSIZE_def)

function filewrite_from :: "nat \<Rightarrow> byte list \<Rightarrow> 'a file_st_scheme \<Rightarrow> (bool, 'a file_st_scheme) outcome" where
  "filewrite_from f bs s =
     (if bs = [] then Ok True s
      else
        let n1 = min (length bs) max_write in
        call (begin_trans s) (\<lambda>_ s.
        call (ilock (fip (getf s f)) s) (\<lambda>_ s.
        call (writei (fip (getf s f)) (take n1 bs) (foff (getf s f)) (of_nat n1) s) (\<lambda>r s.
        let s = (if r > 0 then setf f ((getf s f)\<lparr>foff := foff (getf s f) + of_int r\<rparr>) s else s) in
        call (iunlock (fip (getf s f)) s) (\<lambda>_ s.
        call (commit_trans s) (\<lambda>_ s.
        if r < 0 then Ok False s
        else if r \<noteq> int n1 then Panic ''short filewrite''
        else filewrite_from f (drop n1 bs) s))))))"
  by pat_completeness auto
termination
  by (relation "measure (\<lambda>(f, bs, s). length bs)") (auto simp: max_write_val)

declare filewrite_from.simps [simp del]

definition filewrite :: "nat \<Rightarrow> byte list \<Rightarrow> int \<Rightarrow> 'a file_st_scheme \<Rightarrow> (int, 'a file_st_scheme) outcome" where
  "filewrite f bs n s =
     (if \<not> fwritable (getf s f) then Ok (- 1) s
      else case ftype (getf s f) of
        FD_PIPE \<Rightarrow> pipewrite (fpipe (getf s f)) bs n s
      | FD_INODE \<Rightarrow>
          call (filewrite_from f (take (nat n) bs) s) (\<lambda>all s. Ok (if all \<and> n \<ge> 0 then n else - 1) s)
      | FD_NONE \<Rightarrow> Panic ''filewrite'')"

definition close_opt :: "nat option \<Rightarrow> 'a file_st_scheme \<Rightarrow> (unit, 'a file_st_scheme) outcome" where
  "close_opt f s = (case f of Some f \<Rightarrow> fileclose f s | None \<Rightarrow> Ok () s)"

definition pipealloc :: "'a file_st_scheme \<Rightarrow> ((nat \<times> nat) option, 'a file_st_scheme) outcome" where
  "pipealloc s =
     call (filealloc s) (\<lambda>f0 s.
     case f0 of
       None \<Rightarrow> Ok None s
     | Some a \<Rightarrow>
         call (filealloc s) (\<lambda>f1 s.
         case f1 of
           None \<Rightarrow> call (close_opt f0 s) (\<lambda>_ s. Ok None s)
         | Some b \<Rightarrow>
             call (kalloc s) (\<lambda>p s.
             if p = 0 then call (close_opt f0 s) (\<lambda>_ s. call (close_opt f1 s) (\<lambda>_ s. Ok None s))
             else
               let s = setp p ((pipes s p)\<lparr>readopen := True, writeopen := True, nwrite := 0, nread := 0\<rparr>) s;
                   s = setf a ((getf s a)\<lparr>ftype := FD_PIPE, freadable := True, fwritable := False, fpipe := p\<rparr>) s;
                   s = setf b ((getf s b)\<lparr>ftype := FD_PIPE, freadable := False, fwritable := True, fpipe := p\<rparr>) s
               in Ok (Some (a, b)) s)))"

end
