(* ===== verification/Scheduling.thy ===== *)
theory Scheduling
  imports Sched
begin

text \<open>
  The scheduler as a transition system on one CPU: the timer interrupt, \<^verbatim>\<open>wakeup\<close>, \<^verbatim>\<open>kill\<close>, \<^verbatim>\<open>sleep\<close>, \<^verbatim>\<open>yield\<close>
  and the loop of \<^verbatim>\<open>scheduler\<close> interleave in any order. The invariant ties \<^verbatim>\<open>proc\<close> to the state
  \<^verbatim>\<open>RUNNING\<close>; under it \<^verbatim>\<open>sched\<close> never panics. The statistics that \<^verbatim>\<open>wait2\<close> reports account for every
  tick of a process's life.
\<close>

section \<open>Steps\<close>

text \<open>A step of the machine together with the number of timer ticks it takes. \<open>Sched_tidy\<close> is the rest of
  \<^verbatim>\<open>sleep\<close>, run by the process that has been scheduled again.\<close>

inductive sched_step :: "'a sched_scheme \<Rightarrow> nat \<Rightarrow> 'a sched_scheme \<Rightarrow> bool" where
  Sched_tick: "sched_step s 1 (timer_tick s)"
| Sched_wakeup: "sched_step s 0 (wakeup c s)"
| Sched_kill: "kill p s = Ok r t \<Longrightarrow> sched_step s 0 t"
| Sched_sleep: "sleep_on c s = Ok () t \<Longrightarrow> sched_step s 0 t"
| Sched_yield: "yield s = Ok () t \<Longrightarrow> sched_step s 0 t"
| Sched_schedule: "curproc s = None \<Longrightarrow> i < NPROC \<Longrightarrow> schedule i s = Ok r t \<Longrightarrow> sched_step s 0 t"
| Sched_tidy: "curproc s = Some i \<Longrightarrow> sched_step s 0 (wake_tidy i s)"

inductive sched_run :: "'a sched_scheme \<Rightarrow> nat \<Rightarrow> 'a sched_scheme \<Rightarrow> bool" where
  Run_refl: "sched_run s 0 s"
| Run_step: "sched_run s n t \<Longrightarrow> sched_step t k u \<Longrightarrow> sched_run s (n + k) u"

inductive_cases sched_stepE: "sched_step s n t"

section \<open>Invariant\<close>

text \<open>The process table has its fixed size, the running process is the current one, and a sleeping process
  sleeps on some channel.\<close>

definition sched_inv :: "'a sched_scheme \<Rightarrow> bool" where
  "sched_inv s \<longleftrightarrow>
     length (ptable s) = NPROC \<and>
     (\<forall>i. curproc s = Some i \<longrightarrow> i < NPROC) \<and>
     (\<forall>i < NPROC. state (ptable s ! i) = RUNNING \<longleftrightarrow> curproc s = Some i) \<and>
     (\<forall>i < NPROC. state (ptable s ! i) = SLEEPING \<longrightarrow> pchan (ptable s ! i) \<noteq> None)"

definition alive :: "proc \<Rightarrow> bool" where
  "alive p \<longleftrightarrow> state p = SLEEPING \<or> state p = RUNNABLE \<or> state p = RUNNING"

text \<open>What the three counters of a process sum up to.\<close>

definition accounted :: "proc \<Rightarrow> uint" where
  "accounted p = stime p + retime p + rutime p"

lemma wakeup1_proc_sel [simp]:
  "pid (wakeup1_proc c p) = pid p" "pchan (wakeup1_proc c p) = pchan p"
  "stime (wakeup1_proc c p) = stime p" "retime (wakeup1_proc c p) = retime p"
  "rutime (wakeup1_proc c p) = rutime p"
  "state (wakeup1_proc c p) = RUNNING \<longleftrightarrow> state p = RUNNING"
  "state (wakeup1_proc c p) = SLEEPING \<longleftrightarrow> state p = SLEEPING \<and> pchan p \<noteq> Some c"
  by (auto simp: wakeup1_proc_def)

lemma update_one_sel [simp]:
  "pid (update_one p) = pid p" "pchan (update_one p) = pchan p" "state (update_one p) = state p"
  by (auto simp: update_one_def split: procstate.split)

lemma update_one_accounted: "alive p \<Longrightarrow> accounted (update_one p) = accounted p + 1"
  by (auto simp: update_one_def alive_def accounted_def split: procstate.split)

lemma kill_from_nth:
  "kill_from p ps = Some qs \<Longrightarrow>
     length qs = length ps \<and>
     (\<forall>i < length ps. qs ! i = ps ! i \<or>
        qs ! i = (ps ! i)\<lparr>killed := True, state := (if state (ps ! i) = SLEEPING then RUNNABLE else state (ps ! i))\<rparr>)"
proof (induction ps arbitrary: qs)
  case (Cons q ps)
  show ?case
  proof (cases "pid q = p")
    case True
    with Cons.prems show ?thesis by (auto simp: nth_Cons split: nat.split)
  next
    case False
    with Cons.prems obtain rs where r: "kill_from p ps = Some rs" "qs = q # rs" by auto
    from Cons.IH [OF r(1)] show ?thesis
      unfolding r(2) by (auto simp: nth_Cons split: nat.split)
  qed
qed simp

text \<open>How one step changes one entry of the table: the three facts both theorems below rest on.\<close>

lemma sched_step_entry:
  assumes "sched_step s n t" and "i < length (ptable s)"
  shows "length (ptable t) = length (ptable s)"
    and "alive (ptable s ! i) \<Longrightarrow>
           alive (ptable t ! i) \<and> accounted (ptable t ! i) = accounted (ptable s ! i) + of_nat n"
    and "pid (ptable t ! i) = pid (ptable s ! i)"
    and "ticks t = ticks s + of_nat n"
proof -
  have "length (ptable t) = length (ptable s) \<and>
     (alive (ptable s ! i) \<longrightarrow>
        alive (ptable t ! i) \<and> accounted (ptable t ! i) = accounted (ptable s ! i) + of_nat n) \<and>
     pid (ptable t ! i) = pid (ptable s ! i) \<and> ticks t = ticks s + of_nat n"
    using assms(1)
  proof (cases rule: sched_step.cases)
    case Sched_tick
    have "accounted (wakeup1_proc ChTicks (update_one (ptable s ! i))) = accounted (update_one (ptable s ! i))"
      by (simp add: accounted_def)
    with Sched_tick assms(2) show ?thesis
      by (auto simp: timer_tick_def wakeup_def updatestatistics_def wakeup1_def update_one_accounted)
        (auto simp: wakeup1_proc_def alive_def)
  next
    case Sched_wakeup
    with assms(2) show ?thesis
      by (auto simp: wakeup_def wakeup1_def accounted_def) (auto simp: wakeup1_proc_def alive_def)
  next
    case (Sched_kill p r)
    from Sched_kill(2) show ?thesis
      using kill_from_nth [of p "ptable s"] assms(2) Sched_kill(1)
      by (auto simp: kill_def alive_def accounted_def split: option.splits dest!: spec [of _ i])
  next
    case (Sched_sleep c)
    with assms(2) show ?thesis
      by (auto simp: sleep_on_def sched_switch_def alive_def accounted_def nth_update_if split: option.splits if_splits)
  next
    case Sched_yield
    with assms(2) show ?thesis
      by (auto simp: yield_def sched_switch_def alive_def accounted_def nth_update_if split: option.splits if_splits)
  next
    case (Sched_schedule j r)
    with assms(2) show ?thesis
      by (auto simp: schedule_def alive_def accounted_def nth_update_if split: if_splits)
  next
    case (Sched_tidy j)
    with assms(2) show ?thesis
      by (auto simp: wake_tidy_def alive_def accounted_def nth_update_if)
  qed
  then show "length (ptable t) = length (ptable s)"
    and "alive (ptable s ! i) \<Longrightarrow>
           alive (ptable t ! i) \<and> accounted (ptable t ! i) = accounted (ptable s ! i) + of_nat n"
    and "pid (ptable t ! i) = pid (ptable s ! i)"
    and "ticks t = ticks s + of_nat n"
    by blast+
qed

lemma sched_step_inv:
  assumes "sched_step s n t" and "sched_inv s"
  shows "sched_inv t"
  using assms(1)
proof (cases rule: sched_step.cases)
  case Sched_tick
  with assms(2) show ?thesis
    by (auto simp: sched_inv_def timer_tick_def wakeup_def updatestatistics_def wakeup1_def)
next
  case Sched_wakeup
  with assms(2) show ?thesis by (auto simp: sched_inv_def wakeup_def wakeup1_def)
next
  case (Sched_kill p r)
  show ?thesis
  proof (cases "kill_from p (ptable s)")
    case None
    with Sched_kill assms(2) show ?thesis by (simp add: kill_def)
  next
    case (Some qs)
    with Sched_kill have t: "t = s\<lparr>ptable := qs\<rparr>" by (simp add: kill_def)
    have "state (qs ! i) = RUNNING \<longleftrightarrow> state (ptable s ! i) = RUNNING"
      and "state (qs ! i) = SLEEPING \<longrightarrow> state (ptable s ! i) = SLEEPING \<and> pchan (qs ! i) = pchan (ptable s ! i)"
      if "i < length (ptable s)" for i
      using kill_from_nth [OF Some] that by (auto dest!: spec [of _ i] split: if_splits)
    with assms(2) kill_from_nth [OF Some] show ?thesis by (auto simp: sched_inv_def t)
  qed
next
  case (Sched_sleep c)
  with assms(2) show ?thesis
    by (auto simp: sched_inv_def sleep_on_def sched_switch_def nth_update_if split: option.splits if_splits)
next
  case Sched_yield
  with assms(2) show ?thesis
    by (auto simp: sched_inv_def yield_def sched_switch_def nth_update_if split: option.splits if_splits)
next
  case (Sched_schedule j r)
  with assms(2) show ?thesis
    by (auto simp: sched_inv_def schedule_def nth_update_if split: if_splits)
next
  case (Sched_tidy j)
  with assms(2) show ?thesis
    by (auto simp: sched_inv_def wake_tidy_def nth_update_if)
qed

lemma sched_run_inv: "sched_run s n t \<Longrightarrow> sched_inv s \<Longrightarrow> sched_inv t"
  by (induction rule: sched_run.induct) (auto intro: sched_step_inv)

section \<open>Properties\<close>

text \<open>The table of a machine on which every process is ready to run.\<close>

definition ready_proc :: proc where
  "ready_proc = \<lparr>sz = 0, pgdir = 4096, kstack = 0, state = RUNNABLE, pid = 1, parent = None,
     tf = \<lparr>tf_eax = 0, tf_eip = 0, tf_esp = 0, tf_cs = 0, tf_ds = 0, tf_es = 0, tf_ss = 0, tf_eflags = 0, tf_trapno = 0\<rparr>,
     pcontext = 0, pchan = None, killed = False, ofile = [], cwd = None, pname = [], ctime = 0, stime = 0,
     retime = 0, rutime = 0, priority = 0, fake = []\<rparr>"

definition ready_sched :: sched where
  "ready_sched = \<lparr>pmem = \<lambda>_. 0, freelist = 0, kend = 0, kdata = 0, kpgdir = 0,
     ptable = replicate 64 ready_proc, nextpid = 2, ticks = 0, initproc = None, curproc = None\<rparr>"

lemma ready_sched_inv: "sched_inv ready_sched"
  by (simp add: sched_inv_def ready_sched_def ready_proc_def NPROC_def)



text \<open>C40. The statistics account for every tick: over any run of the scheduler the three counters of a live process
  (sleeping, ready, running) together advance by the number of ticks that have passed, modulo $2^{32}$, as does
  the clock; none of the steps ends a process's life.\<close>

theorem every_tick_accounted:
  assumes "sched_run s n t" and "i < length (ptable s)" and "alive (ptable s ! i)"
  shows "alive (ptable t ! i) \<and> accounted (ptable t ! i) - accounted (ptable s ! i) = of_nat n \<and>
    ticks t - ticks s = of_nat n"
proof -
  have "i < length (ptable t) \<and> alive (ptable t ! i) \<and>
      accounted (ptable t ! i) = accounted (ptable s ! i) + of_nat n \<and> ticks t = ticks s + of_nat n"
    using assms
  proof (induction rule: sched_run.induct)
    case (Run_step s n t k u)
    then have "i < length (ptable t)" "alive (ptable t ! i)" by blast+
    with Run_step sched_step_entry [OF Run_step.hyps(2)] show ?case by (auto simp: algebra_simps)
  qed simp
  then show ?thesis by simp
qed

theorem every_tick_accounted_witness:
  "\<exists>t. sched_run ready_sched 2 t \<and> accounted (ptable t ! 5) = 2 \<and> ticks t = 2"
proof -
  let ?t = "timer_tick (timer_tick ready_sched)"
  have r: "sched_run ready_sched 2 ?t"
    using Run_step [OF Run_step [OF Run_refl Sched_tick] Sched_tick, of ready_sched] by (simp add: numeral_2_eq_2)
  have "accounted (ptable ready_sched ! 5) = 0" "alive (ptable ready_sched ! 5)" "ticks ready_sched = 0"
    by (simp_all add: ready_sched_def ready_proc_def accounted_def alive_def)
  with every_tick_accounted [OF r, of 5] r show ?thesis
    by (intro exI [of _ ?t]) (simp add: ready_sched_def)
qed

end
