(* ===== verification/Vm.thy ===== *)
theory Vm
  imports Dir
begin

text \<open>
  Virtual memory (\<^verbatim>\<open>vm.c\<close>): two-level x86 page tables that live in pages from \<^verbatim>\<open>kalloc\<close> and are read
  and written as words of the kernel's memory. A pointer to a page-table entry is the entry's
  address, 0 the null pointer; following a null pointer is a \<open>Fault\<close>. Sizes and offsets of the
  loops stay below \<^verbatim>\<open>KERNBASE\<close> at every call, so the loop counters are natural numbers. The
  segment registers, the task state and \<^verbatim>\<open>cr3\<close> are not modelled.
\<close>

section \<open>Page tables\<close>

definition PTE_P :: uint where "PTE_P = 0x001"
definition PTE_W :: uint where "PTE_W = 0x002"
definition PTE_U :: uint where "PTE_U = 0x004"
definition NPDENTRIES :: nat where "NPDENTRIES = 1024"
definition NPTENTRIES :: nat where "NPTENTRIES = 1024"
definition KERNLINK :: uint where "KERNLINK = KERNBASE + EXTMEM"

definition PDX :: "uint \<Rightarrow> uint" where "PDX va = drop_bit 22 va AND 0x3FF"
definition PTX :: "uint \<Rightarrow> uint" where "PTX va = drop_bit 12 va AND 0x3FF"
definition PTE_ADDR :: "uint \<Rightarrow> uint" where "PTE_ADDR pte = pte AND NOT 0xFFF"

definition rd :: "uint \<Rightarrow> 'a kmem_scheme \<Rightarrow> uint" where
  "rd a s = load32 (pmem s) a"

definition wr :: "uint \<Rightarrow> uint \<Rightarrow> 'a kmem_scheme \<Rightarrow> 'a kmem_scheme" where
  "wr a w s = s\<lparr>pmem := store32 (pmem s) a w\<rparr>"

definition zero_page :: "uint \<Rightarrow> 'a kmem_scheme \<Rightarrow> 'a kmem_scheme" where
  "zero_page a s = s\<lparr>pmem := memset a 0 PGSIZE (pmem s)\<rparr>"

definition walkpgdir :: "uint \<Rightarrow> uint \<Rightarrow> bool \<Rightarrow> 'a kmem_scheme \<Rightarrow> (uint, 'a kmem_scheme) outcome" where
  "walkpgdir pd va alloc s =
     (let pde = pd + 4 * PDX va in
      if rd pde s AND PTE_P \<noteq> 0 then Ok (p2v (PTE_ADDR (rd pde s)) + 4 * PTX va) s
      else if \<not> alloc then Ok 0 s
      else
        call (kalloc s) (\<lambda>pgtab s.
        if pgtab = 0 then Ok 0 s
        else Ok (pgtab + 4 * PTX va) (wr pde (v2p pgtab OR PTE_P OR PTE_W OR PTE_U) (zero_page pgtab s))))"

text \<open>The loop of \<^verbatim>\<open>mappages\<close> with \<open>r\<close> more pages after this one; the result is whether all were mapped.\<close>

fun mappages_from :: "nat \<Rightarrow> uint \<Rightarrow> uint \<Rightarrow> uint \<Rightarrow> uint \<Rightarrow> 'a kmem_scheme \<Rightarrow> (bool, 'a kmem_scheme) outcome" where
  "mappages_from r pd a pa perm s =
     call (walkpgdir pd a True s) (\<lambda>pte s.
     if pte = 0 then Ok False s
     else if rd pte s AND PTE_P \<noteq> 0 then Panic ''remap''
     else
       let s = wr pte (pa OR perm OR PTE_P) s in
       case r of 0 \<Rightarrow> Ok True s | Suc r \<Rightarrow> mappages_from r pd (a + PGSIZE) (pa + PGSIZE) perm s)"

declare mappages_from.simps [simp del]

definition mappages :: "uint \<Rightarrow> uint \<Rightarrow> uint \<Rightarrow> uint \<Rightarrow> uint \<Rightarrow> 'a kmem_scheme \<Rightarrow> (bool, 'a kmem_scheme) outcome" where
  "mappages pd va len pa perm s =
     (let a = PGROUNDDOWN va; last = PGROUNDDOWN (va + len - 1)
      in mappages_from (unat (last - a) div 4096) pd a pa perm s)"

text \<open>The table \<^verbatim>\<open>kmap\<close>, with \<^verbatim>\<open>data\<close> from the linker.\<close>

definition kmap :: "'a kmem_scheme \<Rightarrow> (uint \<times> uint \<times> uint \<times> uint) list" where
  "kmap s =
     [(KERNBASE, 0, EXTMEM, PTE_W),
      (KERNLINK, v2p KERNLINK, v2p (kdata s), 0),
      (kdata s, v2p (kdata s), PHYSTOP, PTE_W),
      (DEVSPACE, DEVSPACE, 0, PTE_W)]"

fun map_all :: "uint \<Rightarrow> (uint \<times> uint \<times> uint \<times> uint) list \<Rightarrow> 'a kmem_scheme \<Rightarrow> (bool, 'a kmem_scheme) outcome" where
  "map_all pd [] s = Ok True s"
| "map_all pd ((virt, p0, p1, perm) # ks) s =
     call (mappages pd virt (p1 - p0) p0 perm s) (\<lambda>ok s.
     if \<not> ok then Ok False s else map_all pd ks s)"

definition setupkvm :: "'a kmem_scheme \<Rightarrow> (uint, 'a kmem_scheme) outcome" where
  "setupkvm s =
     call (kalloc s) (\<lambda>pd s.
     if pd = 0 then Ok 0 s
     else
       let s = zero_page pd s in
       if p2v PHYSTOP > DEVSPACE then Panic ''PHYSTOP too high''
       else call (map_all pd (kmap s) s) (\<lambda>ok s. Ok (if ok then pd else 0) s))"

definition kvmalloc :: "'a kmem_scheme \<Rightarrow> (unit, 'a kmem_scheme) outcome" where
  "kvmalloc s = call (setupkvm s) (\<lambda>p s. Ok () (s\<lparr>kpgdir := p\<rparr>))"

section \<open>Copying memory\<close>

fun store_bytes :: "uint \<Rightarrow> byte list \<Rightarrow> mem \<Rightarrow> mem" where
  "store_bytes a [] m = m"
| "store_bytes a (b # bs) m = store_bytes (a + 1) bs (m(a := b))"

definition load_bytes :: "uint \<Rightarrow> nat \<Rightarrow> mem \<Rightarrow> byte list" where
  "load_bytes a n m = map (\<lambda>i. m (a + of_nat i)) [0..<n]"

definition inituvm :: "uint \<Rightarrow> byte list \<Rightarrow> 'a kmem_scheme \<Rightarrow> (unit, 'a kmem_scheme) outcome" where
  "inituvm pd init s =
     (if length init \<ge> 4096 then Panic ''inituvm: more than a page''
      else
        call (kalloc s) (\<lambda>m s.
        if m = 0 then Fault ''inituvm''
        else
          call (mappages pd 0 PGSIZE (v2p m) (PTE_W OR PTE_U) (zero_page m s)) (\<lambda>_ s.
          Ok () (s\<lparr>pmem := store_bytes m init (pmem s)\<rparr>))))"

section \<open>User memory\<close>

function loaduvm_from :: "uint \<Rightarrow> uint \<Rightarrow> nat \<Rightarrow> uint \<Rightarrow> nat \<Rightarrow> nat \<Rightarrow> 'a cons_st_scheme \<Rightarrow> (bool, 'a cons_st_scheme) outcome" where
  "loaduvm_from pd addr ip offset len i s =
     (if i < len then
        call (walkpgdir pd (addr + of_nat i) False s) (\<lambda>pte s.
        if pte = 0 then Panic ''loaduvm: address should exist''
        else
          let pa = PTE_ADDR (rd pte s); n = min (len - i) 4096 in
          call (readi ip (offset + of_nat i) (of_nat n) s) (\<lambda>(r, bs) s.
          let s = s\<lparr>pmem := store_bytes (p2v pa) bs (pmem s)\<rparr> in
          if r \<noteq> int n then Ok False s else loaduvm_from pd addr ip offset len (i + 4096) s))
      else Ok True s)"
  by pat_completeness auto
termination
  by (relation "measure (\<lambda>(pd, addr, ip, offset, len, i, s). len - i)") auto

declare loaduvm_from.simps [simp del]

definition loaduvm :: "uint \<Rightarrow> uint \<Rightarrow> nat \<Rightarrow> uint \<Rightarrow> uint \<Rightarrow> 'a cons_st_scheme \<Rightarrow> (bool, 'a cons_st_scheme) outcome" where
  "loaduvm pd addr ip offset len s =
     (if addr mod PGSIZE \<noteq> 0 then Panic ''loaduvm: addr must be page aligned''
      else loaduvm_from pd addr ip offset (unat len) 0 s)"

function deallocuvm_from :: "uint \<Rightarrow> nat \<Rightarrow> nat \<Rightarrow> 'a kmem_scheme \<Rightarrow> (unit, 'a kmem_scheme) outcome" where
  "deallocuvm_from pd oldsz a s =
     (if a < oldsz then
        call (walkpgdir pd (of_nat a) False s) (\<lambda>pte s.
        if pte = 0 then deallocuvm_from pd oldsz (a + (NPTENTRIES - 1) * 4096 + 4096) s
        else if rd pte s AND PTE_P \<noteq> 0 then
          let pa = PTE_ADDR (rd pte s) in
          if pa = 0 then Panic ''kfree''
          else call (kfree (p2v pa) s) (\<lambda>_ s. deallocuvm_from pd oldsz (a + 4096) (wr pte 0 s))
        else deallocuvm_from pd oldsz (a + 4096) s)
      else Ok () s)"
  by pat_completeness auto
termination
  by (relation "measure (\<lambda>(pd, oldsz, a, s). oldsz - a)") auto

declare deallocuvm_from.simps [simp del]

definition deallocuvm :: "uint \<Rightarrow> uint \<Rightarrow> uint \<Rightarrow> 'a kmem_scheme \<Rightarrow> (uint, 'a kmem_scheme) outcome" where
  "deallocuvm pd oldsz newsz s =
     (if newsz \<ge> oldsz then Ok oldsz s
      else call (deallocuvm_from pd (unat oldsz) (unat (PGROUNDUP newsz)) s) (\<lambda>_ s. Ok newsz s))"

function allocuvm_from :: "uint \<Rightarrow> uint \<Rightarrow> uint \<Rightarrow> nat \<Rightarrow> 'a cons_st_scheme \<Rightarrow> (uint, 'a cons_st_scheme) outcome" where
  "allocuvm_from pd oldsz newsz a s =
     (if a < unat newsz then
        call (kalloc s) (\<lambda>m s.
        if m = 0 then
          call (cprintf (str ''allocuvm out of memory'' @ [10]) [] s) (\<lambda>_ s.
          call (deallocuvm pd newsz oldsz s) (\<lambda>_ s. Ok 0 s))
        else
          call (mappages pd (of_nat a) PGSIZE (v2p m) (PTE_W OR PTE_U) (zero_page m s)) (\<lambda>_ s.
          allocuvm_from pd oldsz newsz (a + 4096) s))
      else Ok newsz s)"
  by pat_completeness auto
termination
  by (relation "measure (\<lambda>(pd, oldsz, newsz, a, s). unat newsz - a)") auto

declare allocuvm_from.simps [simp del]

definition allocuvm :: "uint \<Rightarrow> uint \<Rightarrow> uint \<Rightarrow> 'a cons_st_scheme \<Rightarrow> (uint, 'a cons_st_scheme) outcome" where
  "allocuvm pd oldsz newsz s =
     (if newsz \<ge> KERNBASE then Ok 0 s
      else if newsz < oldsz then Ok oldsz s
      else allocuvm_from pd oldsz newsz (unat (PGROUNDUP oldsz)) s)"

fun freevm_from :: "nat \<Rightarrow> nat \<Rightarrow> uint \<Rightarrow> 'a kmem_scheme \<Rightarrow> (unit, 'a kmem_scheme) outcome" where
  "freevm_from 0 i pd s = Ok () s"
| "freevm_from (Suc r) i pd s =
     (let e = rd (pd + 4 * of_nat i) s in
      if e AND PTE_P \<noteq> 0 then call (kfree (p2v (PTE_ADDR e)) s) (\<lambda>_ s. freevm_from r (Suc i) pd s)
      else freevm_from r (Suc i) pd s)"

definition freevm :: "uint \<Rightarrow> 'a kmem_scheme \<Rightarrow> (unit, 'a kmem_scheme) outcome" where
  "freevm pd s =
     (if pd = 0 then Panic ''freevm: no pd''
      else
        call (deallocuvm pd KERNBASE 0 s) (\<lambda>_ s.
        call (freevm_from NPDENTRIES 0 pd s) (\<lambda>_ s.
        kfree pd s)))"

definition clearpteu :: "uint \<Rightarrow> uint \<Rightarrow> 'a kmem_scheme \<Rightarrow> (unit, 'a kmem_scheme) outcome" where
  "clearpteu pd uva s =
     call (walkpgdir pd uva False s) (\<lambda>pte s.
     if pte = 0 then Panic ''clearpteu'' else Ok () (wr pte (rd pte s AND NOT PTE_U) s))"

function copyuvm_from :: "uint \<Rightarrow> uint \<Rightarrow> nat \<Rightarrow> nat \<Rightarrow> 'a kmem_scheme \<Rightarrow> (uint, 'a kmem_scheme) outcome" where
  "copyuvm_from pd d len i s =
     (if i < len then
        call (walkpgdir pd (of_nat i) False s) (\<lambda>pte s.
        if pte = 0 then Panic ''copyuvm: pte should exist''
        else if rd pte s AND PTE_P = 0 then Panic ''copyuvm: page not present''
        else
          let pa = PTE_ADDR (rd pte s) in
          call (kalloc s) (\<lambda>m s.
          if m = 0 then call (freevm d s) (\<lambda>_ s. Ok 0 s)
          else
            call (mappages d (of_nat i) PGSIZE (v2p m) (PTE_W OR PTE_U)
                    (s\<lparr>pmem := memmove m (p2v pa) PGSIZE (pmem s)\<rparr>)) (\<lambda>ok s.
            if \<not> ok then call (freevm d s) (\<lambda>_ s. Ok 0 s)
            else copyuvm_from pd d len (i + 4096) s)))
      else Ok d s)"
  by pat_completeness auto
termination
  by (relation "measure (\<lambda>(pd, d, len, i, s). len - i)") auto

declare copyuvm_from.simps [simp del]

definition copyuvm :: "uint \<Rightarrow> uint \<Rightarrow> 'a kmem_scheme \<Rightarrow> (uint, 'a kmem_scheme) outcome" where
  "copyuvm pd len s =
     call (setupkvm s) (\<lambda>d s. if d = 0 then Ok 0 s else copyuvm_from pd d (unat len) 0 s)"

definition uva2ka :: "uint \<Rightarrow> uint \<Rightarrow> 'a kmem_scheme \<Rightarrow> (uint, 'a kmem_scheme) outcome" where
  "uva2ka pd uva s =
     call (walkpgdir pd uva False s) (\<lambda>pte s.
     if pte = 0 then Fault ''uva2ka''
     else if rd pte s AND PTE_P = 0 then Ok 0 s
     else if rd pte s AND PTE_U = 0 then Ok 0 s
     else Ok (p2v (PTE_ADDR (rd pte s))) s)"

definition page_rest :: "uint \<Rightarrow> nat" where
  "page_rest va = 4096 - unat (va - PGROUNDDOWN va)"

lemma page_rest_pos: "0 < page_rest va"
proof -
  have "unat (PGROUNDDOWN va) \<le> unat va" by (simp add: PGROUNDDOWN_unat)
  then have "unat (va - PGROUNDDOWN va) = unat va - unat va div 4096 * 4096"
    by (simp add: unat_sub_if' PGROUNDDOWN_unat)
  then show ?thesis by (simp add: page_rest_def minus_div_mult_eq_mod)
qed

function copyout :: "uint \<Rightarrow> uint \<Rightarrow> byte list \<Rightarrow> 'a kmem_scheme \<Rightarrow> (bool, 'a kmem_scheme) outcome" where
  "copyout pd va bs s =
     (if bs = [] then Ok True s
      else
        let va0 = PGROUNDDOWN va in
        call (uva2ka pd va0 s) (\<lambda>pa0 s.
        if pa0 = 0 then Ok False s
        else
          let n = min (length bs) (page_rest va) in
          copyout pd (va0 + PGSIZE) (drop n bs) (s\<lparr>pmem := store_bytes (pa0 + (va - va0)) (take n bs) (pmem s)\<rparr>)))"
  by pat_completeness auto
termination
  by (relation "measure (\<lambda>(pd, va, bs, s). length bs)") (auto simp: page_rest_pos)

declare copyout.simps [simp del]

text \<open>
  The kernel's own accesses to user addresses go through the current page table: the bytes of
  \<open>va\<close> are those of the frame its page maps to. An access to an unmapped page is a \<open>Fault\<close>.
\<close>

definition vaddr :: "uint \<Rightarrow> mem \<Rightarrow> uint \<Rightarrow> uint option" where
  "vaddr pd m va =
     (let pde = load32 m (pd + 4 * PDX va) in
      if pde AND PTE_P = 0 then None
      else
        let pte = load32 m (p2v (PTE_ADDR pde) + 4 * PTX va) in
        if pte AND PTE_P = 0 then None else Some (p2v (PTE_ADDR pte) + (va AND 0xFFF)))"

definition vread :: "uint \<Rightarrow> mem \<Rightarrow> uint \<Rightarrow> byte option" where
  "vread pd m va = map_option m (vaddr pd m va)"

fun vread_bytes :: "uint \<Rightarrow> mem \<Rightarrow> uint \<Rightarrow> nat \<Rightarrow> byte list option" where
  "vread_bytes pd m va 0 = Some []"
| "vread_bytes pd m va (Suc n) =
     (case vread pd m va of
        None \<Rightarrow> None
      | Some b \<Rightarrow> map_option ((#) b) (vread_bytes pd m (va + 1) n))"

fun vwrite_bytes :: "uint \<Rightarrow> uint \<Rightarrow> byte list \<Rightarrow> mem \<Rightarrow> mem option" where
  "vwrite_bytes pd va [] m = Some m"
| "vwrite_bytes pd va (b # bs) m =
     (case vaddr pd m va of
        None \<Rightarrow> None
      | Some a \<Rightarrow> vwrite_bytes pd (va + 1) bs (m(a := b)))"

end
