(* ===== verification/Page_Table.thy ===== *)
theory Page_Table
  imports Vm
begin

text \<open>
  What the page-table code of \<^verbatim>\<open>vm.c\<close> builds. The meaning of a page table is the function \<open>vpte\<close> from a
  virtual address to the entry that maps its page; the invariant \<open>pt_inv\<close> says that the directory
  and the tables occupy pages of their own, disjoint from the free list. Under it \<^verbatim>\<open>mappages\<close> changes the
  mapping exactly on its range, \<^verbatim>\<open>setupkvm\<close> builds the kernel half, and \<^verbatim>\<open>copyuvm\<close> copies a process's memory
  into pages that no one else uses.
\<close>

section \<open>Words in pages\<close>

lemma unat_less_1024: "unat (w AND 0x3FF :: uint) < 1024"
proof -
  have "w AND 0x3FF = take_bit 10 w" by (simp add: take_bit_eq_mask mask_eq_exp_minus_1)
  then have "unat (w AND 0x3FF) = unat w mod 1024" by (simp only: unsigned_take_bit_eq) (simp add: take_bit_eq_mod)
  then show ?thesis by simp
qed

lemma PDX_less [simp]: "unat (PDX va) < 1024"
  unfolding PDX_def by (rule unat_less_1024)

lemma PTX_less [simp]: "unat (PTX va) < 1024"
  unfolding PTX_def by (rule unat_less_1024)

lemma unat_PDX: "unat (PDX va) = unat va div 2 ^ 22"
proof -
  have "PDX va = take_bit 10 (drop_bit 22 va)" by (simp add: PDX_def take_bit_eq_mask mask_eq_exp_minus_1)
  moreover have "unat va mod 4294967296 = unat va" using unat_uint_less [of va] by simp
  ultimately have "unat (PDX va) = (unat va div 2 ^ 22) mod 1024"
    by (simp only: unsigned_take_bit_eq unsigned_drop_bit_eq) (simp add: take_bit_eq_mod drop_bit_eq_div)
  moreover have "unat va div 2 ^ 22 < 1024" using unat_uint_less [of va] by simp
  ultimately show ?thesis by simp
qed

lemma unat_PTX: "unat (PTX va) = (unat va div 4096) mod 1024"
proof -
  have "PTX va = take_bit 10 (drop_bit 12 va)" by (simp add: PTX_def take_bit_eq_mask mask_eq_exp_minus_1)
  moreover have "unat va mod 4294967296 = unat va" using unat_uint_less [of va] by simp
  ultimately show ?thesis
    by (simp only: unsigned_take_bit_eq unsigned_drop_bit_eq) (simp add: take_bit_eq_mod drop_bit_eq_div)
qed

lemma unat_entry:
  assumes "page_aligned p" and "unat j < 1024"
  shows "unat (p + 4 * j) = unat p + 4 * unat j"
proof -
  have "unat (4 * j) = 4 * unat j" using assms(2) by (subst unat_word_ariths) simp
  then show ?thesis using page_end [OF assms(1)] assms(2) by (subst unat_add_small) auto
qed

lemma entry_aligned: "page_aligned p \<Longrightarrow> aligned4 (p + 4 * j)"
  by (intro aligned4_add aligned4_mult4 page_aligned_4)

lemma entry_inj:
  assumes "page_aligned p" and "page_aligned q" and "unat j < 1024" and "unat k < 1024"
    and "p + 4 * j = q + 4 * k"
  shows "p = q \<and> j = k"
proof -
  obtain a b where ab: "unat p = 4096 * a" "unat q = 4096 * b" using assms(1,2) by (auto simp: page_aligned_unat elim!: dvdE)
  have eq: "unat p + 4 * unat j = unat q + 4 * unat k"
    using unat_entry [OF assms(1,3)] unat_entry [OF assms(2,4)] assms(5) by simp
  have "a = b"
  proof (rule ccontr)
    assume "a \<noteq> b"
    then consider "a + 1 \<le> b" | "b + 1 \<le> a" by linarith
    then show False using eq ab assms(3,4) by cases linarith+
  qed
  with eq ab show ?thesis by (simp add: word_unat_eq_iff)
qed

lemma entry_nonzero: "page_aligned p \<Longrightarrow> p \<noteq> 0 \<Longrightarrow> unat j < 1024 \<Longrightarrow> p + 4 * j \<noteq> 0"
  using entry_inj [of p 0 j 0] by auto

lemma load_store_entry:
  assumes "page_aligned p" and "page_aligned q" and "unat j < 1024" and "unat k < 1024"
  shows "load32 (store32 m (q + 4 * k) w) (p + 4 * j) = (if p = q \<and> j = k then w else load32 m (p + 4 * j))"
proof (cases "p = q \<and> j = k")
  case False
  then have "q + 4 * k \<noteq> p + 4 * j" using entry_inj [OF assms] by auto
  then have "load32 (store32 m (q + 4 * k) w) (p + 4 * j) = load32 m (p + 4 * j)"
    using assms(1,2) by (intro load_store_other entry_aligned)
  with False show ?thesis by auto
qed simp

lemma load_cong_page:
  assumes "page_aligned p" and "unat j < 1024" and "\<And>a. in_page p a \<Longrightarrow> m a = m' a"
  shows "load32 m (p + 4 * j) = load32 m' (p + 4 * j)"
proof -
  have "in_page p (p + 4 * j + k)" if "unat k < 4" for k
  proof -
    have "unat (p + 4 * j + k) = unat p + 4 * unat j + unat k"
      using unat_entry [OF assms(1,2)] page_end [OF assms(1)] assms(2) that by (subst unat_add_small) auto
    then show ?thesis using assms(2) that by (simp add: in_page_def)
  qed
  from this [of 0] this [of 1] this [of 2] this [of 3] show ?thesis
    using assms(3) by (simp add: load32_def)
qed

lemma in_page_disjoint:
  assumes "page_aligned p" and "page_aligned q" and "p \<noteq> q" and "in_page p a"
  shows "\<not> in_page q a"
proof -
  obtain x y where xy: "unat p = 4096 * x" "unat q = 4096 * y" using assms(1,2) by (auto simp: page_aligned_unat elim!: dvdE)
  have "x \<noteq> y" using xy assms(3) by (auto simp: word_unat_eq_iff)
  then consider "x + 1 \<le> y" | "y + 1 \<le> x" by linarith
  then show ?thesis using xy assms(4) by cases (auto simp: in_page_def)
qed

lemma store_entry_frame:
  assumes "page_aligned p" and "unat j < 1024" and "\<not> in_page p a"
  shows "store32 m (p + 4 * j) w a = m a"
proof -
  have "a \<noteq> p + 4 * j + k" if "unat k < 4" for k
  proof
    assume a: "a = p + 4 * j + k"
    have "unat (p + 4 * j + k) = unat p + 4 * unat j + unat k"
      using unat_entry [OF assms(1,2)] page_end [OF assms(1)] assms(2) that by (subst unat_add_small) auto
    then show False using a assms(2,3) that by (simp add: in_page_def)
  qed
  from this [of 0] this [of 1] this [of 2] this [of 3] show ?thesis by (simp add: store32_def)
qed

lemma stosl_zero:
  "unat a + 4 * n \<le> 2 ^ 32 \<Longrightarrow> unat a \<le> unat x \<Longrightarrow> unat x < unat a + 4 * n \<Longrightarrow> stosl a 0 n m x = 0"
proof (induction n arbitrary: a m)
  case (Suc n)
  let ?m = "m(a := 0, a + 1 := 0, a + 2 := 0, a + 3 := 0)"
  have s: "stosl a 0 (Suc n) m x = stosl (a + 4) 0 n ?m x" by simp
  show ?case
  proof (cases "unat x < unat a + 4")
    case True
    define k where "k = unat x - unat a"
    have "k < 4" "unat x = unat a + k" using True Suc.prems(2) by (simp_all add: k_def)
    then have "x = a + of_nat k" using Suc.prems by (simp add: word_unat_eq_iff unat_word_ariths unat_of_nat)
    then have "?m x = 0" using \<open>k < 4\<close> by (auto simp: less_Suc_eq numeral_eq_Suc)
    moreover have "stosl (a + 4) 0 n ?m x = ?m x"
    proof (cases "n = 0")
      case False
      then have "unat (a + 4) = unat a + 4" using Suc.prems(1) by (subst unat_add_small) simp_all
      then show ?thesis using True Suc.prems by (intro stosl_other) auto
    qed simp
    ultimately show ?thesis by (simp only: s)
  next
    case False
    then have "n \<noteq> 0" using Suc.prems by auto
    then have "unat (a + 4) = unat a + 4" using Suc.prems(1) by (subst unat_add_small) simp_all
    then show ?thesis unfolding s using False Suc.prems by (intro Suc.IH) auto
  qed
qed simp

lemma memset_page_zero:
  assumes "page_aligned v" and "in_page v a"
  shows "memset v 0 PGSIZE m a = 0"
proof -
  have "v mod 4 = 0"
    using assms(1) page_aligned_4 [of v] by (simp add: aligned4_unat word_unat_eq_iff unat_mod dvd_eq_mod_eq_0)
  then show ?thesis
    using assms page_end [OF assms(1)] by (auto simp: memset_def Let_def PGSIZE_def in_page_def intro!: stosl_zero)
qed

lemma memset_page_frame: "page_aligned v \<Longrightarrow> \<not> in_page v a \<Longrightarrow> memset v 0 PGSIZE m a = m a"
  by (auto simp: in_page_def not_le not_less intro!: memset_page_other)

lemma load_zero_page:
  assumes "page_aligned v" and "unat j < 1024"
  shows "load32 (memset v 0 PGSIZE m) (v + 4 * j) = 0"
proof -
  have "load32 (memset v 0 PGSIZE m) (v + 4 * j) = load32 (\<lambda>_. 0) (v + 4 * j)"
    using assms memset_page_zero by (intro load_cong_page) auto
  then show ?thesis by (simp add: load32_def)
qed

section \<open>Meaning and invariant\<close>

definition pde :: "mem \<Rightarrow> uint \<Rightarrow> uint \<Rightarrow> uint" where
  "pde m pd j = load32 m (pd + 4 * j)"

definition present :: "uint \<Rightarrow> bool" where
  "present e \<longleftrightarrow> e AND PTE_P \<noteq> 0"

definition pgtab :: "mem \<Rightarrow> uint \<Rightarrow> uint \<Rightarrow> uint" where
  "pgtab m pd j = p2v (PTE_ADDR (pde m pd j))"

text \<open>The entry that maps the page of \<open>va\<close>; 0 when there is no table for it.\<close>

definition vpte :: "mem \<Rightarrow> uint \<Rightarrow> uint \<Rightarrow> uint" where
  "vpte m pd va = (if present (pde m pd (PDX va)) then load32 m (pgtab m pd (PDX va) + 4 * PTX va) else 0)"

definition pt_inv :: "'a kmem_scheme \<Rightarrow> uint \<Rightarrow> uint list \<Rightarrow> bool" where
  "pt_inv s pd xs \<longleftrightarrow>
     pool s xs \<and> page_ok s pd \<and> pd \<notin> set xs \<and>
     (\<forall>j. unat j < 1024 \<and> present (pde (pmem s) pd j) \<longrightarrow>
        page_ok s (pgtab (pmem s) pd j) \<and> pgtab (pmem s) pd j \<noteq> pd \<and> pgtab (pmem s) pd j \<notin> set xs) \<and>
     (\<forall>j k. unat j < 1024 \<and> unat k < 1024 \<and> present (pde (pmem s) pd j) \<and> present (pde (pmem s) pd k) \<and> j \<noteq> k \<longrightarrow>
        pgtab (pmem s) pd j \<noteq> pgtab (pmem s) pd k)"

text \<open>The addresses inside some page of a list.\<close>

definition in_pages :: "uint list \<Rightarrow> uint \<Rightarrow> bool" where
  "in_pages xs a \<longleftrightarrow> (\<exists>x \<in> set xs. in_page x a)"

lemma not_present_0 [simp]: "\<not> present 0"
  by (simp add: present_def)

lemma vaddr_vpte:
  "vaddr pd m va = (if present (vpte m pd va) then Some (p2v (PTE_ADDR (vpte m pd va)) + (va AND 0xFFF)) else None)"
  by (auto simp: vaddr_def vpte_def present_def pde_def pgtab_def Let_def)

lemma pde_table:
  assumes "page_aligned x"
  shows "PTE_ADDR (v2p x OR PTE_P OR PTE_W OR PTE_U) = v2p x" "present (v2p x OR PTE_P OR PTE_W OR PTE_U)"
proof -
  have al: "v2p x AND 0xFFF = 0"
  proof -
    have "page_aligned (v2p x)"
    proof -
      obtain k where k: "unat x = 4096 * k" using assms by (auto simp: page_aligned_unat elim: dvdE)
      have "v2p x = x + KERNBASE" by (simp add: v2p_def KERNBASE_def)
      moreover have "page_aligned KERNBASE" by (simp add: page_aligned_def KERNBASE_def)
      ultimately show ?thesis using page_aligned_add [OF assms] by simp
    qed
    then show ?thesis by (simp add: page_aligned_def)
  qed
  have "v2p x AND NOT 0xFFF = v2p x"
  proof -
    have "v2p x = (v2p x AND NOT 0xFFF) OR (v2p x AND 0xFFF)" by (rule bit_word_eqI) (auto simp: bit_simps)
    then show ?thesis using al by simp
  qed
  then show "PTE_ADDR (v2p x OR PTE_P OR PTE_W OR PTE_U) = v2p x"
    by (simp add: PTE_ADDR_def PTE_P_def PTE_W_def PTE_U_def bit.conj_disj_distrib2)
  have "(v2p x OR PTE_P OR PTE_W OR PTE_U) AND PTE_P = (v2p x AND PTE_P) OR 1"
    by (simp add: PTE_P_def PTE_W_def PTE_U_def bit.conj_disj_distrib2)
  then show "present (v2p x OR PTE_P OR PTE_W OR PTE_U)"
    by (simp add: present_def) (metis bit.disj_zero_right or_eq_0_iff zero_neq_one)
qed

lemma pool_frame:
  assumes "pool s xs" and "freelist t = freelist s" and "kend t = kend s" and "\<And>a. in_pages xs a \<Longrightarrow> pmem t a = pmem s a"
  shows "pool t xs"
proof -
  have "flist (pmem t) (freelist s) xs = flist (pmem s) (freelist s) xs"
  proof (rule flist_cong)
    fix x assume x: "x \<in> set xs"
    then have al: "page_aligned x" using assms(1) by (auto simp: pool_def dest: page_ok_aligned)
    have "load32 (pmem t) (x + 4 * 0) = load32 (pmem s) (x + 4 * 0)"
      using x assms(4) by (intro load_cong_page al) (auto simp: in_pages_def)
    then show "load32 (pmem t) x = load32 (pmem s) x" by simp
  qed
  then show ?thesis using assms by (auto simp: pool_def page_ok_def)
qed

lemma pool_tl: "pool s (x # xs) \<Longrightarrow> kalloc s = Ok x (s\<lparr>freelist := load32 (pmem s) x\<rparr>) \<and> pool (s\<lparr>freelist := load32 (pmem s) x\<rparr>) xs"
  by (auto simp: kalloc_def pool_def Let_def)

section \<open>Walking and writing\<close>

text \<open>The addresses that belong to a page table, and the directory entries in use.\<close>

definition own :: "mem \<Rightarrow> uint \<Rightarrow> uint \<Rightarrow> bool" where
  "own m pd a \<longleftrightarrow> in_page pd a \<or> (\<exists>j. unat j < 1024 \<and> present (pde m pd j) \<and> in_page (pgtab m pd j) a)"

definition tabs :: "mem \<Rightarrow> uint \<Rightarrow> uint set" where
  "tabs m pd = {j. unat j < 1024 \<and> present (pde m pd j)}"

text \<open>A routine has worked on the page table and taken pages from the front of the free list.\<close>

definition pt_ext :: "uint \<Rightarrow> 'a kmem_scheme \<Rightarrow> uint list \<Rightarrow> 'a kmem_scheme \<Rightarrow> uint list \<Rightarrow> bool" where
  "pt_ext pd s xs t ys \<longleftrightarrow>
     pt_inv t pd ys \<and> (\<exists>m f. t = s\<lparr>pmem := m, freelist := f\<rparr>) \<and> (\<exists>zs. xs = zs @ ys) \<and>
     (\<forall>a. \<not> own (pmem s) pd a \<and> \<not> in_pages xs a \<longrightarrow> pmem t a = pmem s a) \<and>
     (\<forall>a. own (pmem t) pd a \<or> in_pages ys a \<longrightarrow> own (pmem s) pd a \<or> in_pages xs a) \<and>
     tabs (pmem s) pd \<subseteq> tabs (pmem t) pd \<and> length xs = length ys + card (tabs (pmem t) pd - tabs (pmem s) pd)"

lemma finite_tabs [simp]: "finite (tabs m pd)"
  by (simp add: tabs_def)

lemma pt_ext_refl: "pt_inv s pd xs \<Longrightarrow> pt_ext pd s xs s xs"
  by (auto simp: pt_ext_def intro!: exI [of _ "pmem s"] exI [of _ "freelist s"])

lemma pt_ext_trans:
  assumes "pt_ext pd s xs t ys" and "pt_ext pd t ys u zs"
  shows "pt_ext pd s xs u zs"
proof -
  have "card (tabs (pmem u) pd - tabs (pmem s) pd) = card (tabs (pmem u) pd - tabs (pmem t) pd) + card (tabs (pmem t) pd - tabs (pmem s) pd)"
  proof -
    have sub: "tabs (pmem s) pd \<subseteq> tabs (pmem t) pd" "tabs (pmem t) pd \<subseteq> tabs (pmem u) pd" using assms by (simp_all add: pt_ext_def)
    have "tabs (pmem u) pd - tabs (pmem s) pd = (tabs (pmem u) pd - tabs (pmem t) pd) \<union> (tabs (pmem t) pd - tabs (pmem s) pd)"
      using sub by blast
    moreover have "(tabs (pmem u) pd - tabs (pmem t) pd) \<inter> (tabs (pmem t) pd - tabs (pmem s) pd) = {}" by blast
    ultimately show ?thesis by (simp add: card_Un_disjoint)
  qed
  moreover have "pmem u a = pmem s a" if "\<not> own (pmem s) pd a" "\<not> in_pages xs a" for a
    using assms that unfolding pt_ext_def by metis
  moreover obtain m f m' f' where "t = s\<lparr>pmem := m, freelist := f\<rparr>" "u = t\<lparr>pmem := m', freelist := f'\<rparr>"
    using assms unfolding pt_ext_def by metis
  then have "\<exists>m f. u = s\<lparr>pmem := m, freelist := f\<rparr>" by auto
  moreover have "\<exists>vs. xs = vs @ zs" using assms unfolding pt_ext_def by (metis append.assoc)
  moreover have "own (pmem s) pd a \<or> in_pages xs a" if "own (pmem u) pd a \<or> in_pages zs a" for a
    using assms that unfolding pt_ext_def by metis
  ultimately show ?thesis using assms unfolding pt_ext_def by auto
qed

lemma pt_inv_table:
  assumes "pt_inv s pd xs" and "unat j < 1024" and "present (pde (pmem s) pd j)"
  shows "page_ok s (pgtab (pmem s) pd j)" "page_aligned (pgtab (pmem s) pd j)" "pgtab (pmem s) pd j \<noteq> pd"
    "pgtab (pmem s) pd j \<notin> set xs"
  using assms by (auto simp: pt_inv_def dest: page_ok_aligned)

lemma pt_inv_dir: "pt_inv s pd xs \<Longrightarrow> page_aligned pd \<and> pd \<notin> set xs \<and> pool s xs"
  by (auto simp: pt_inv_def dest: page_ok_aligned)

lemma pde_other_page:
  assumes "page_aligned pd" and "page_aligned q" and "pd \<noteq> q" and "\<And>a. \<not> in_page q a \<Longrightarrow> m' a = m a" and "unat j < 1024"
  shows "pde m' pd j = pde m pd j"
  unfolding pde_def using assms in_page_disjoint by (intro load_cong_page) blast+

text \<open>A new table for the directory entry of \<open>va\<close>.\<close>

lemma new_table:
  assumes inv: "pt_inv s pd (x # xs)" and np: "\<not> present (pde (pmem s) pd (PDX va))"
  defines "m \<equiv> store32 (memset x 0 PGSIZE (pmem s)) (pd + 4 * PDX va) (v2p x OR PTE_P OR PTE_W OR PTE_U)"
  defines "t \<equiv> s\<lparr>pmem := m, freelist := load32 (pmem s) x\<rparr>"
  shows "pt_ext pd s (x # xs) t xs" and "tabs m pd = insert (PDX va) (tabs (pmem s) pd)"
    and "pgtab m pd (PDX va) = x" and "vpte m pd va' = vpte (pmem s) pd va'"
proof -
  have pd: "page_aligned pd" "pd \<noteq> x" "pd \<notin> set xs" and pl: "pool s (x # xs)" using pt_inv_dir [OF inv] by auto
  have x: "page_aligned x" "page_ok s x" "x \<notin> set xs" using pl by (auto simp: pool_def dest: page_ok_aligned)
  have frame: "m a = pmem s a" if "\<not> in_page pd a" "\<not> in_page x a" for a
    unfolding m_def using store_entry_frame [OF pd(1) PDX_less that(1)] memset_page_frame [OF x(1) that(2)] by simp
  have pde: "pde m pd j = (if j = PDX va then v2p x OR PTE_P OR PTE_W OR PTE_U else pde (pmem s) pd j)" if "unat j < 1024" for j
  proof -
    have "pde (memset x 0 PGSIZE (pmem s)) pd j = pde (pmem s) pd j"
      using pd x that memset_page_frame by (intro pde_other_page [of pd x]) auto
    then show ?thesis using load_store_entry [OF pd(1) pd(1) that PDX_less] by (simp add: pde_def m_def)
  qed
  have tab: "pgtab m pd j = (if j = PDX va then x else pgtab (pmem s) pd j)" if "unat j < 1024" for j
    using pde [OF that] pde_table [OF x(1)] by (simp add: pgtab_def)
  then show "pgtab m pd (PDX va) = x" by simp
  have pres: "present (pde m pd j) \<longleftrightarrow> j = PDX va \<or> present (pde (pmem s) pd j)" if "unat j < 1024" for j
    using pde [OF that] pde_table [OF x(1)] np by auto
  show tabs: "tabs m pd = insert (PDX va) (tabs (pmem s) pd)"
    using pres by (auto simp: tabs_def)
  have old: "page_ok s (pgtab (pmem s) pd j) \<and> pgtab (pmem s) pd j \<noteq> pd \<and> pgtab (pmem s) pd j \<notin> set (x # xs)"
    if "unat j < 1024" "present (pde (pmem s) pd j)" for j
    using pt_inv_table [OF inv that] by simp
  have keep: "load32 m (pgtab (pmem s) pd j + 4 * k) = load32 (pmem s) (pgtab (pmem s) pd j + 4 * k)"
    if "unat j < 1024" "present (pde (pmem s) pd j)" "unat k < 1024" for j k
    using old [OF that(1,2)] frame pd x that(3) in_page_disjoint pt_inv_table(2) [OF inv that(1,2)]
    by (intro load_cong_page) auto
  show "vpte m pd va' = vpte (pmem s) pd va'"
  proof (cases "PDX va' = PDX va")
    case True
    have "load32 m (x + 4 * PTX va') = load32 (memset x 0 PGSIZE (pmem s)) (x + 4 * PTX va')"
      unfolding m_def using load_store_entry [OF x(1) pd(1) PTX_less PDX_less] pd(2) by auto
    then show ?thesis using True np pres [of "PDX va"] tab [of "PDX va"] load_zero_page [OF x(1) PTX_less] by (simp add: vpte_def)
  next
    case False
    then show ?thesis using pres [of "PDX va'"] tab [of "PDX va'"] keep [of "PDX va'" "PTX va'"] by (simp add: vpte_def)
  qed
  have "pool t xs"
  proof (rule pool_frame [of "s\<lparr>freelist := load32 (pmem s) x\<rparr>"])
    show "pool (s\<lparr>freelist := load32 (pmem s) x\<rparr>) xs" using pool_tl [OF pl] by simp
    fix a assume "in_pages xs a"
    then obtain y where y: "y \<in> set xs" "in_page y a" by (auto simp: in_pages_def)
    have "page_aligned y" "y \<noteq> pd" "y \<noteq> x" using y pl pd(3) x(3) by (auto simp: pool_def dest: page_ok_aligned)
    then have "\<not> in_page pd a" "\<not> in_page x a" using in_page_disjoint y(2) pd(1) x(1) by blast+
    then show "pmem t a = pmem (s\<lparr>freelist := load32 (pmem s) x\<rparr>) a" using frame by (simp add: t_def)
  qed (simp_all add: t_def)
  moreover have "page_ok t = page_ok s" by (simp add: t_def page_ok_def fun_eq_iff)
  ultimately have inv': "pt_inv t pd xs"
    using inv x pd old pres tab by (auto simp: pt_inv_def t_def)
  have own: "own m pd a \<longleftrightarrow> own (pmem s) pd a \<or> in_page x a" for a
  proof -
    have "(\<exists>j. unat j < 1024 \<and> present (pde m pd j) \<and> in_page (pgtab m pd j) a) \<longleftrightarrow>
        in_page x a \<or> (\<exists>j. unat j < 1024 \<and> present (pde (pmem s) pd j) \<and> in_page (pgtab (pmem s) pd j) a)"
      using pres tab PDX_less [of va] np by metis
    then show ?thesis unfolding own_def by blast
  qed
  have "insert (PDX va) (tabs (pmem s) pd) - tabs (pmem s) pd = {PDX va}" using np unfolding tabs_def by blast
  then have "length (x # xs) = length xs + card (tabs m pd - tabs (pmem s) pd)" by (simp add: tabs)
  moreover have "m a = pmem s a" if "\<not> own (pmem s) pd a" "\<not> in_pages (x # xs) a" for a
    using that by (intro frame) (auto simp: own_def in_pages_def)
  ultimately show "pt_ext pd s (x # xs) t xs"
    using inv' own tabs by (auto simp: pt_ext_def t_def in_pages_def)
qed

lemma walkpgdir_alloc:
  assumes "pt_inv s pd xs"
  shows "\<exists>t ys. pt_ext pd s xs t ys \<and> (\<forall>va'. vpte (pmem t) pd va' = vpte (pmem s) pd va') \<and>
    (walkpgdir pd va True s = Ok (pgtab (pmem t) pd (PDX va) + 4 * PTX va) t \<and>
       tabs (pmem t) pd = insert (PDX va) (tabs (pmem s) pd) \<or>
     walkpgdir pd va True s = Ok 0 t \<and> t = s \<and> xs = [] \<and> ys = [] \<and> PDX va \<notin> tabs (pmem s) pd)"
proof (cases "present (pde (pmem s) pd (PDX va))")
  case True
  then have "walkpgdir pd va True s = Ok (pgtab (pmem s) pd (PDX va) + 4 * PTX va) s"
    by (simp add: walkpgdir_def Let_def rd_def present_def pde_def pgtab_def)
  moreover have "tabs (pmem s) pd = insert (PDX va) (tabs (pmem s) pd)" using True by (auto simp: tabs_def)
  ultimately show ?thesis using pt_ext_refl [OF assms] by blast
next
  case False
  show ?thesis
  proof (cases xs)
    case Nil
    then have "walkpgdir pd va True s = Ok 0 s"
      using False pt_inv_dir [OF assms] kalloc_pool(2) [of s]
      by (simp add: walkpgdir_def Let_def rd_def present_def pde_def)
    then show ?thesis using pt_ext_refl [OF assms] Nil False by (auto simp: tabs_def)
  next
    case (Cons x ys)
    note n = new_table [OF assms [unfolded Cons] False]
    let ?t = "s\<lparr>pmem := store32 (memset x 0 PGSIZE (pmem s)) (pd + 4 * PDX va) (v2p x OR PTE_P OR PTE_W OR PTE_U),
               freelist := load32 (pmem s) x\<rparr>"
    have "kalloc s = Ok x (s\<lparr>freelist := load32 (pmem s) x\<rparr>)" "x \<noteq> 0"
      using pt_inv_dir [OF assms] Cons pool_tl by (auto simp: pool_def)
    then have "walkpgdir pd va True s = Ok (x + 4 * PTX va) ?t"
      using False by (simp add: walkpgdir_def Let_def rd_def present_def pde_def wr_def zero_page_def)
    then show ?thesis using n Cons by (intro exI [of _ ?t] exI [of _ ys]) simp
  qed
qed

text \<open>The number of the page of an address.\<close>

definition vpn :: "uint \<Rightarrow> nat" where
  "vpn va = unat va div 4096"

lemma vpn_eq: "vpn va = vpn va' \<longleftrightarrow> PDX va = PDX va' \<and> PTX va = PTX va'"
proof -
  have d: "vpn va = 1024 * unat (PDX va) + unat (PTX va)" for va
    using mult_div_mod_eq [of 1024 "unat va div 4096"] by (simp add: vpn_def unat_PDX unat_PTX div_mult2_eq [symmetric])
  have "unat (PDX va) = vpn va div 1024" "unat (PTX va) = vpn va mod 1024" for va
    using d [of va] PTX_less [of va] by simp_all
  with d show ?thesis by (metis word_unat_eq_iff)
qed

lemma write_entry:
  fixes w :: uint
  assumes inv: "pt_inv s pd xs" and p: "PDX va \<in> tabs (pmem s) pd"
  defines "m \<equiv> store32 (pmem s) (pgtab (pmem s) pd (PDX va) + 4 * PTX va) w"
  shows "pt_ext pd s xs (s\<lparr>pmem := m\<rparr>) xs" and "tabs m pd = tabs (pmem s) pd"
    and "vpte m pd va' = (if vpn va' = vpn va then w else vpte (pmem s) pd va')"
proof -
  let ?q = "pgtab (pmem s) pd (PDX va)"
  have pr: "present (pde (pmem s) pd (PDX va))" using p by (simp add: tabs_def)
  have q: "page_aligned ?q" "?q \<noteq> pd" "?q \<notin> set xs" using pt_inv_table [OF inv PDX_less pr] by auto
  have pd: "page_aligned pd" and pl: "pool s xs" using pt_inv_dir [OF inv] by auto
  have frame: "m a = pmem s a" if "\<not> in_page ?q a" for a
    unfolding m_def by (rule store_entry_frame [OF q(1) PTX_less that])
  have pde: "pde m pd j = pde (pmem s) pd j" if "unat j < 1024" for j
    using pd q frame that by (intro pde_other_page [of pd ?q]) auto
  have tab: "pgtab m pd j = pgtab (pmem s) pd j" if "unat j < 1024" for j using pde [OF that] by (simp add: pgtab_def)
  show tabs: "tabs m pd = tabs (pmem s) pd" using pde by (auto simp: tabs_def)
  have own: "own m pd a = own (pmem s) pd a" for a using pde tab by (auto simp: own_def)
  have "pool (s\<lparr>pmem := m\<rparr>) xs"
  proof (rule pool_frame [OF pl])
    fix a assume "in_pages xs a"
    then obtain y where y: "y \<in> set xs" "in_page y a" by (auto simp: in_pages_def)
    have "page_aligned y" "y \<noteq> ?q" using y pl q(3) by (auto simp: pool_def dest: page_ok_aligned)
    then show "pmem (s\<lparr>pmem := m\<rparr>) a = pmem s a" using frame in_page_disjoint y(2) q(1) by simp
  qed simp_all
  then have "pt_inv (s\<lparr>pmem := m\<rparr>) pd xs" using inv pde tab by (auto simp: pt_inv_def)
  moreover have "m a = pmem s a" if "\<not> own (pmem s) pd a" for a
    using that pr PDX_less by (intro frame) (auto simp: own_def)
  moreover have "\<exists>m' f. s\<lparr>pmem := m\<rparr> = s\<lparr>pmem := m', freelist := f\<rparr>" by (intro exI [of _ m] exI [of _ "freelist s"]) simp
  ultimately show "pt_ext pd s xs (s\<lparr>pmem := m\<rparr>) xs" using own tabs by (auto simp: pt_ext_def)
  show "vpte m pd va' = (if vpn va' = vpn va then w else vpte (pmem s) pd va')"
  proof (cases "present (pde (pmem s) pd (PDX va'))")
    case False
    then show ?thesis using pde [of "PDX va'"] pr vpn_eq [of va' va] by (auto simp: vpte_def)
  next
    case True
    let ?r = "pgtab (pmem s) pd (PDX va')"
    have r: "page_aligned ?r" using pt_inv_table(2) [OF inv PDX_less True] .
    have "?r = ?q \<longleftrightarrow> PDX va' = PDX va"
      using inv True pr PDX_less unfolding pt_inv_def by metis
    then have "load32 m (?r + 4 * PTX va') = (if vpn va' = vpn va then w else load32 (pmem s) (?r + 4 * PTX va'))"
      unfolding m_def using load_store_entry [OF r q(1) PTX_less PTX_less] vpn_eq [of va' va] by auto
    then show ?thesis using True pde [of "PDX va'"] tab [of "PDX va'"] by (simp add: vpte_def)
  qed
qed

section \<open>mappages\<close>

text \<open>The directory entries that a range of pages needs.\<close>

definition dirs :: "nat \<Rightarrow> nat \<Rightarrow> uint set" where
  "dirs v n = PDX ` {va. v \<le> vpn va \<and> vpn va < v + n}"

definition mapped :: "nat \<Rightarrow> nat \<Rightarrow> uint \<Rightarrow> uint \<Rightarrow> (uint \<Rightarrow> uint) \<Rightarrow> uint \<Rightarrow> uint" where
  "mapped v n pa perm f va =
     (if v \<le> vpn va \<and> vpn va < v + n then (pa + of_nat (vpn va - v) * PGSIZE) OR perm OR PTE_P else f va)"

lemma dirs_1: "dirs (vpn a) 1 = {PDX a}"
proof -
  have "{va. vpn a \<le> vpn va \<and> vpn va < vpn a + 1} = {va. vpn va = vpn a}" by auto
  moreover have "PDX ` {va. vpn va = vpn a} = {PDX a}" using vpn_eq [of _ a] by auto
  ultimately show ?thesis by (simp only: dirs_def)
qed

lemma dirs_add: "dirs v (Suc n) = dirs v 1 \<union> dirs (Suc v) n"
proof -
  have "{va. v \<le> vpn va \<and> vpn va < v + Suc n} = {va. v \<le> vpn va \<and> vpn va < v + 1} \<union> {va. Suc v \<le> vpn va \<and> vpn va < Suc v + n}"
    by auto
  then show ?thesis by (simp add: dirs_def image_Un)
qed

lemma finite_dirs [simp]: "finite (dirs v n)"
  by (simp add: dirs_def)

lemma vpn_add_page: "page_aligned a \<Longrightarrow> unat a + 4096 < 2 ^ 32 \<Longrightarrow> unat (a + PGSIZE) = unat a + 4096 \<and> vpn (a + PGSIZE) = Suc (vpn a) \<and> page_aligned (a + PGSIZE)"
proof -
  assume a: "page_aligned a" "unat a + 4096 < 2 ^ 32"
  then have "unat (a + PGSIZE) = unat a + 4096" by (subst unat_add_small) (simp_all add: PGSIZE_def)
  moreover have "page_aligned PGSIZE" by (simp add: page_aligned_def PGSIZE_def)
  ultimately show ?thesis using a page_aligned_add by (simp add: vpn_def)
qed

lemma mappages_from_one:
  assumes inv: "pt_inv s pd xs" and np: "\<not> present (vpte (pmem s) pd a)"
  shows "(\<exists>u ys. pt_ext pd s xs u ys \<and> tabs (pmem u) pd = insert (PDX a) (tabs (pmem s) pd) \<and>
      (\<forall>va. vpte (pmem u) pd va = (if vpn va = vpn a then pa OR perm OR PTE_P else vpte (pmem s) pd va)) \<and>
      (\<forall>r. mappages_from r pd a pa perm s =
         (case r of 0 \<Rightarrow> Ok True u | Suc r \<Rightarrow> mappages_from r pd (a + PGSIZE) (pa + PGSIZE) perm u))) \<or>
    xs = [] \<and> PDX a \<notin> tabs (pmem s) pd \<and> (\<forall>r. mappages_from r pd a pa perm s = Ok False s)"
proof -
  from walkpgdir_alloc [OF inv, of a] obtain t ys where e: "pt_ext pd s xs t ys" and v: "\<forall>va'. vpte (pmem t) pd va' = vpte (pmem s) pd va'"
    and w: "walkpgdir pd a True s = Ok (pgtab (pmem t) pd (PDX a) + 4 * PTX a) t \<and>
       tabs (pmem t) pd = insert (PDX a) (tabs (pmem s) pd) \<or>
     walkpgdir pd a True s = Ok 0 t \<and> t = s \<and> xs = [] \<and> ys = [] \<and> PDX a \<notin> tabs (pmem s) pd"
    by blast
  from w show ?thesis
  proof (elim disjE conjE)
    assume "walkpgdir pd a True s = Ok 0 t" "t = s" "xs = []" "PDX a \<notin> tabs (pmem s) pd"
    moreover have "mappages_from r pd a pa perm s = Ok False s" for r
      using calculation by (subst mappages_from.simps) simp
    ultimately show ?thesis by blast
  next
    assume wk: "walkpgdir pd a True s = Ok (pgtab (pmem t) pd (PDX a) + 4 * PTX a) t"
      and tb: "tabs (pmem t) pd = insert (PDX a) (tabs (pmem s) pd)"
    have inv': "pt_inv t pd ys" using e by (simp add: pt_ext_def)
    have mem: "PDX a \<in> tabs (pmem t) pd" using tb by simp
    then have pr: "present (pde (pmem t) pd (PDX a))" by (simp add: tabs_def)
    note q = pt_inv_table [OF inv' PDX_less pr]
    have nz: "pgtab (pmem t) pd (PDX a) + 4 * PTX a \<noteq> 0"
      using entry_nonzero [OF q(2) page_ok_nonzero [OF q(1)] PTX_less] .
    have "vpte (pmem t) pd a = load32 (pmem t) (pgtab (pmem t) pd (PDX a) + 4 * PTX a)" using pr by (simp add: vpte_def)
    then have rd: "rd (pgtab (pmem t) pd (PDX a) + 4 * PTX a) t AND PTE_P = 0"
      using np v by (simp add: rd_def present_def)
    define u where "u = wr (pgtab (pmem t) pd (PDX a) + 4 * PTX a) (pa OR perm OR PTE_P) t"
    note we = write_entry [OF inv' mem, where w = "pa OR perm OR PTE_P"]
    have "pt_ext pd s xs u ys" using pt_ext_trans [OF e we(1)] by (simp add: u_def wr_def)
    moreover have "tabs (pmem u) pd = insert (PDX a) (tabs (pmem s) pd)" using we(2) tb by (simp add: u_def wr_def)
    moreover have "vpte (pmem u) pd va = (if vpn va = vpn a then pa OR perm OR PTE_P else vpte (pmem s) pd va)" for va
      using we(3) [of va] v by (simp add: u_def wr_def)
    moreover have "mappages_from r pd a pa perm s =
         (case r of 0 \<Rightarrow> Ok True u | Suc r \<Rightarrow> mappages_from r pd (a + PGSIZE) (pa + PGSIZE) perm u)" for r
      by (subst mappages_from.simps) (simp add: wk nz rd Let_def u_def [symmetric])
    ultimately show ?thesis by (intro disjI1 exI [of _ u] exI [of _ ys]) simp
  qed
qed

lemma mappages_from_spec:
  assumes "pt_inv s pd xs" and "page_aligned a" and "unat a + 4096 * Suc r \<le> 2 ^ 32"
    and "\<And>va. vpn a \<le> vpn va \<Longrightarrow> vpn va < vpn a + Suc r \<Longrightarrow> \<not> present (vpte (pmem s) pd va)"
  shows "\<exists>ok t ys. mappages_from r pd a pa perm s = Ok ok t \<and> pt_ext pd s xs t ys \<and>
    (ok \<longrightarrow> vpte (pmem t) pd = mapped (vpn a) (Suc r) pa perm (vpte (pmem s) pd) \<and>
            tabs (pmem t) pd = tabs (pmem s) pd \<union> dirs (vpn a) (Suc r)) \<and>
    (\<not> ok \<longrightarrow> ys = [] \<and> tabs (pmem t) pd \<subset> tabs (pmem s) pd \<union> dirs (vpn a) (Suc r))"
  using assms
proof (induction r arbitrary: s xs a pa)
  case (0 s xs a pa)
  have d: "dirs (vpn a) (Suc 0) = {PDX a}" using dirs_1 [of a] by simp
  have "\<not> present (vpte (pmem s) pd a)" using "0.prems"(4) [of a] by simp
  from mappages_from_one [OF "0.prems"(1) this, of pa perm] show ?case
  proof (elim disjE exE conjE)
    fix u ys
    assume e: "pt_ext pd s xs u ys" and t: "tabs (pmem u) pd = insert (PDX a) (tabs (pmem s) pd)"
      and v: "\<forall>va. vpte (pmem u) pd va = (if vpn va = vpn a then pa OR perm OR PTE_P else vpte (pmem s) pd va)"
      and m: "\<forall>r. mappages_from r pd a pa perm s =
         (case r of 0 \<Rightarrow> Ok True u | Suc r \<Rightarrow> mappages_from r pd (a + PGSIZE) (pa + PGSIZE) perm u)"
    have "vpte (pmem u) pd = mapped (vpn a) (Suc 0) pa perm (vpte (pmem s) pd)"
      using v by (auto simp: mapped_def fun_eq_iff)
    moreover have "mappages_from 0 pd a pa perm s = Ok True u" using m by simp
    ultimately show ?thesis using e t unfolding d by (intro exI [of _ True] exI [of _ u] exI [of _ ys]) simp
  next
    assume "xs = []" "PDX a \<notin> tabs (pmem s) pd" "\<forall>r. mappages_from r pd a pa perm s = Ok False s"
    then show ?thesis using pt_ext_refl [OF "0.prems"(1)] unfolding d
      by (intro exI [of _ False] exI [of _ s] exI [of _ xs]) auto
  qed
next
  case (Suc r s xs a pa)
  have d: "dirs (vpn a) (Suc (Suc r)) = insert (PDX a) (dirs (Suc (vpn a)) (Suc r))" 
    using dirs_add [of "vpn a" "Suc r"] dirs_1 [of a] by (simp only: insert_is_Un [symmetric])
  have "\<not> present (vpte (pmem s) pd a)" using Suc.prems(4) [of a] by simp
  from mappages_from_one [OF Suc.prems(1) this, of pa perm] show ?case
  proof (elim disjE exE conjE)
    fix u ys
    assume e: "pt_ext pd s xs u ys" and t: "tabs (pmem u) pd = insert (PDX a) (tabs (pmem s) pd)"
      and v: "\<forall>va. vpte (pmem u) pd va = (if vpn va = vpn a then pa OR perm OR PTE_P else vpte (pmem s) pd va)"
      and m: "\<forall>r. mappages_from r pd a pa perm s =
         (case r of 0 \<Rightarrow> Ok True u | Suc r \<Rightarrow> mappages_from r pd (a + PGSIZE) (pa + PGSIZE) perm u)"
    have nx: "unat (a + PGSIZE) = unat a + 4096" "vpn (a + PGSIZE) = Suc (vpn a)" "page_aligned (a + PGSIZE)"
      using vpn_add_page [OF Suc.prems(2)] Suc.prems(3) by simp_all
    have inv: "pt_inv u pd ys" using e by (simp add: pt_ext_def)
    have np: "\<not> present (vpte (pmem u) pd va)" if "vpn (a + PGSIZE) \<le> vpn va" "vpn va < vpn (a + PGSIZE) + Suc r" for va
      using that Suc.prems(4) [of va] v nx(2) by auto
    have sz: "unat (a + PGSIZE) + 4096 * Suc r \<le> 2 ^ 32" using nx(1) Suc.prems(3) by simp
    from Suc.IH [OF inv nx(3) sz np, of "pa + PGSIZE"] obtain ok w zs
      where ih: "mappages_from r pd (a + PGSIZE) (pa + PGSIZE) perm u = Ok ok w" and ew: "pt_ext pd u ys w zs"
      and good: "ok \<Longrightarrow> vpte (pmem w) pd = mapped (Suc (vpn a)) (Suc r) (pa + PGSIZE) perm (vpte (pmem u) pd) \<and>
            tabs (pmem w) pd = tabs (pmem u) pd \<union> dirs (Suc (vpn a)) (Suc r)"
      and bad: "\<not> ok \<Longrightarrow> zs = [] \<and> tabs (pmem w) pd \<subset> tabs (pmem u) pd \<union> dirs (Suc (vpn a)) (Suc r)"
      unfolding nx(2) by blast
    have "mapped (Suc (vpn a)) (Suc r) (pa + PGSIZE) perm (vpte (pmem u) pd) va = mapped (vpn a) (Suc (Suc r)) pa perm (vpte (pmem s) pd) va" for va
    proof (cases "vpn va \<le> vpn a")
      case True
      then show ?thesis using v by (auto simp: mapped_def)
    next
      case False
      then have "vpn va - vpn a = Suc (vpn va - Suc (vpn a))" by simp
      then have "of_nat (vpn va - vpn a) * PGSIZE = PGSIZE + of_nat (vpn va - Suc (vpn a)) * PGSIZE"
        by (simp only: of_nat_Suc distrib_right mult_1)
      then show ?thesis using v False by (auto simp: mapped_def add.assoc)
    qed
    then have mp: "mapped (Suc (vpn a)) (Suc r) (pa + PGSIZE) perm (vpte (pmem u) pd) = mapped (vpn a) (Suc (Suc r)) pa perm (vpte (pmem s) pd)"
      by blast
    have tw: "tabs (pmem u) pd \<union> dirs (Suc (vpn a)) (Suc r) = tabs (pmem s) pd \<union> dirs (vpn a) (Suc (Suc r))" using t d by blast
    have "mappages_from (Suc r) pd a pa perm s = Ok ok w" using m ih by simp
    moreover have "pt_ext pd s xs w zs" using e ew by (rule pt_ext_trans)
    ultimately show ?thesis using good bad unfolding mp tw by (intro exI [of _ ok] exI [of _ w] exI [of _ zs]) simp
  next
    assume "xs = []" "PDX a \<notin> tabs (pmem s) pd" "\<forall>r. mappages_from r pd a pa perm s = Ok False s"
    then show ?thesis using pt_ext_refl [OF Suc.prems(1)] unfolding d
      by (intro exI [of _ False] exI [of _ s] exI [of _ xs]) auto
  qed
qed

text \<open>The number of pages that a range of bytes touches.\<close>

definition npages :: "uint \<Rightarrow> uint \<Rightarrow> nat" where
  "npages va len = Suc (vpn (va + len - 1) - vpn va)"

lemma vpn_PGROUNDDOWN [simp]: "vpn (PGROUNDDOWN a) = vpn a"
  by (simp add: vpn_def PGROUNDDOWN_unat)

lemma PGROUNDDOWN_aligned: "page_aligned (PGROUNDDOWN a)"
  by (simp add: page_aligned_unat PGROUNDDOWN_unat)

lemma mappages_rounds:
  assumes "0 < unat len" and "unat va + unat len \<le> 2 ^ 32"
  shows "unat (PGROUNDDOWN (va + len - 1) - PGROUNDDOWN va) div 4096 = vpn (va + len - 1) - vpn va"
    and "unat (PGROUNDDOWN va) + 4096 * npages va len \<le> 2 ^ 32" and "vpn va \<le> vpn (va + len - 1)"
proof -
  have "unat (len - 1) = unat len - 1" using assms(1) by (metis unat_gt_0 unat_minus_one)
  then have l: "unat (va + len - 1) = unat va + unat len - 1"
    using assms by (simp only: add_diff_eq [symmetric]) (subst unat_add_small, auto)
  then show le: "vpn va \<le> vpn (va + len - 1)" using assms(1) by (simp add: vpn_def div_le_mono)
  have "unat (PGROUNDDOWN (va + len - 1) - PGROUNDDOWN va) = vpn (va + len - 1) * 4096 - vpn va * 4096"
    using le by (subst unat_sub) (simp_all add: word_le_nat_alt PGROUNDDOWN_unat vpn_def)
  then show "unat (PGROUNDDOWN (va + len - 1) - PGROUNDDOWN va) div 4096 = vpn (va + len - 1) - vpn va"
    by (simp add: diff_mult_distrib [symmetric])
  have "vpn (va + len - 1) < 2 ^ 20" using unat_uint_less [of "va + len - 1"] by (simp add: vpn_def)
  then show "unat (PGROUNDDOWN va) + 4096 * npages va len \<le> 2 ^ 32"
    using le by (simp add: npages_def PGROUNDDOWN_unat vpn_def)
qed

lemma mappages_spec:
  assumes "pt_inv s pd xs" and "0 < unat len" and "unat va + unat len \<le> 2 ^ 32"
    and "\<And>u. vpn va \<le> vpn u \<Longrightarrow> vpn u < vpn va + npages va len \<Longrightarrow> \<not> present (vpte (pmem s) pd u)"
  shows "\<exists>ok t ys. mappages pd va len pa perm s = Ok ok t \<and> pt_ext pd s xs t ys \<and>
    (ok \<longrightarrow> vpte (pmem t) pd = mapped (vpn va) (npages va len) pa perm (vpte (pmem s) pd) \<and>
            tabs (pmem t) pd = tabs (pmem s) pd \<union> dirs (vpn va) (npages va len)) \<and>
    (\<not> ok \<longrightarrow> length xs < card (dirs (vpn va) (npages va len) - tabs (pmem s) pd))"
proof -
  let ?a = "PGROUNDDOWN va" and ?r = "vpn (va + len - 1) - vpn va"
  have n: "npages va len = Suc ?r" by (simp add: npages_def)
  have m: "mappages pd va len pa perm s = mappages_from ?r pd ?a pa perm s"
    by (simp add: mappages_def Let_def mappages_rounds(1) [OF assms(2,3)])
  have sz: "unat ?a + 4096 * Suc ?r \<le> 2 ^ 32" using mappages_rounds(2) [OF assms(2,3)] by (simp add: n)
  obtain ok t ys where r: "mappages_from ?r pd ?a pa perm s = Ok ok t" and e: "pt_ext pd s xs t ys"
    and good: "ok \<longrightarrow> vpte (pmem t) pd = mapped (vpn va) (Suc ?r) pa perm (vpte (pmem s) pd) \<and>
            tabs (pmem t) pd = tabs (pmem s) pd \<union> dirs (vpn va) (Suc ?r)"
    and bad: "\<not> ok \<longrightarrow> ys = [] \<and> tabs (pmem t) pd \<subset> tabs (pmem s) pd \<union> dirs (vpn va) (Suc ?r)"
    using mappages_from_spec [OF assms(1) PGROUNDDOWN_aligned sz, of pa perm] assms(4) by (auto simp: n)
  have "length xs < card (dirs (vpn va) (npages va len) - tabs (pmem s) pd)" if "\<not> ok"
  proof -
    have "tabs (pmem t) pd - tabs (pmem s) pd \<subset> dirs (vpn va) (npages va len) - tabs (pmem s) pd"
      using bad that e unfolding n by (auto simp: pt_ext_def)
    then have "card (tabs (pmem t) pd - tabs (pmem s) pd) < card (dirs (vpn va) (npages va len) - tabs (pmem s) pd)"
      by (intro psubset_card_mono) auto
    then show ?thesis using e bad that by (auto simp: pt_ext_def)
  qed
  then show ?thesis using r e good unfolding m n by (intro exI [of _ ok] exI [of _ t] exI [of _ ys]) auto
qed

text \<open>Mapping a region when the free list has room for all the tables of a set \<open>D\<close> of directory entries.\<close>

definition room :: "uint set \<Rightarrow> uint \<Rightarrow> 'a kmem_scheme \<Rightarrow> uint list \<Rightarrow> bool" where
  "room D pd s xs \<longleftrightarrow> pt_inv s pd xs \<and> finite D \<and> tabs (pmem s) pd \<subseteq> D \<and> card D \<le> length xs + card (tabs (pmem s) pd)"

lemma map_region:
  assumes "room D pd s xs" and "0 < unat len" and "unat va + unat len \<le> 2 ^ 32"
    and "\<And>u. vpn va \<le> vpn u \<Longrightarrow> vpn u < vpn va + npages va len \<Longrightarrow> \<not> present (vpte (pmem s) pd u)"
    and "dirs (vpn va) (npages va len) \<subseteq> D"
  shows "\<exists>t ys. mappages pd va len pa perm s = Ok True t \<and> room D pd t ys \<and> pt_ext pd s xs t ys \<and>
    vpte (pmem t) pd = mapped (vpn va) (npages va len) pa perm (vpte (pmem s) pd)"
proof -
  have inv: "pt_inv s pd xs" using assms(1) by (simp add: room_def)
  from mappages_spec [OF inv assms(2-4), of pa perm] obtain ok t ys where
    r: "mappages pd va len pa perm s = Ok ok t" and e: "pt_ext pd s xs t ys"
    and good: "ok \<longrightarrow> vpte (pmem t) pd = mapped (vpn va) (npages va len) pa perm (vpte (pmem s) pd) \<and>
            tabs (pmem t) pd = tabs (pmem s) pd \<union> dirs (vpn va) (npages va len)"
    and bad: "\<not> ok \<longrightarrow> length xs < card (dirs (vpn va) (npages va len) - tabs (pmem s) pd)" by auto
  have fin: "finite D" and sub: "tabs (pmem s) pd \<subseteq> D" and c: "card D \<le> length xs + card (tabs (pmem s) pd)"
    using assms(1) by (simp_all add: room_def)
  have "card (dirs (vpn va) (npages va len) - tabs (pmem s) pd) \<le> card (D - tabs (pmem s) pd)"
    using fin assms(5) by (intro card_mono) auto
  also have "\<dots> = card D - card (tabs (pmem s) pd)" using sub by (simp add: card_Diff_subset)
  finally have ok: ok using bad c by (cases ok) auto
  have tt: "tabs (pmem t) pd \<subseteq> D" using good ok sub assms(5) by auto
  have "card (tabs (pmem t) pd) = card (tabs (pmem s) pd) + card (tabs (pmem t) pd - tabs (pmem s) pd)"
    using e by (simp add: pt_ext_def card_Diff_subset card_mono)
  then have "room D pd t ys" using e fin tt c by (auto simp: room_def pt_ext_def)
  with r e good ok show ?thesis by (intro exI [of _ t] exI [of _ ys]) simp
qed

section \<open>The kernel half\<close>

lemma fresh_dir:
  assumes "pool s (x # xs)"
  defines "t \<equiv> zero_page x (s\<lparr>freelist := load32 (pmem s) x\<rparr>)"
  shows "pt_inv t x xs" and "tabs (pmem t) x = {}" and "vpte (pmem t) x = (\<lambda>_. 0)"
    and "\<not> in_page x a \<Longrightarrow> pmem t a = pmem s a" and "own (pmem t) x a \<longleftrightarrow> in_page x a"
proof -
  have x: "page_ok s x" "page_aligned x" "x \<notin> set xs" using assms(1) by (auto simp: pool_def dest: page_ok_aligned)
  have pde: "pde (pmem t) x j = 0" if "unat j < 1024" for j
    using load_zero_page [OF x(2) that] by (simp add: pde_def t_def zero_page_def)
  then show tabs: "tabs (pmem t) x = {}" by (auto simp: tabs_def)
  show "vpte (pmem t) x = (\<lambda>_. 0)" using pde [OF PDX_less] by (simp add: vpte_def fun_eq_iff)
  show "own (pmem t) x a \<longleftrightarrow> in_page x a" using pde by (auto simp: own_def)
  show fr: "pmem t a = pmem s a" if "\<not> in_page x a" for a
    using memset_page_frame [OF x(2) that] by (simp add: t_def zero_page_def)
  have "pool t xs"
  proof (rule pool_frame [of "s\<lparr>freelist := load32 (pmem s) x\<rparr>"])
    show "pool (s\<lparr>freelist := load32 (pmem s) x\<rparr>) xs" using pool_tl [OF assms(1)] by simp
    fix a assume "in_pages xs a"
    then obtain y where y: "y \<in> set xs" "in_page y a" by (auto simp: in_pages_def)
    then have "page_aligned y" "y \<noteq> x" using assms(1) x(3) by (auto simp: pool_def dest: page_ok_aligned)
    then show "pmem t a = pmem (s\<lparr>freelist := load32 (pmem s) x\<rparr>) a" using fr in_page_disjoint y(2) x(2) by simp
  qed (simp_all add: t_def zero_page_def)
  moreover have "page_ok t x" using x(1) by (simp add: t_def zero_page_def)
  ultimately show "pt_inv t x xs" using x(3) pde by (auto simp: pt_inv_def)
qed

lemma PGROUNDDOWN_vpn: "PGROUNDDOWN va = of_nat (vpn va) * PGSIZE"
proof -
  have "vpn va < 2 ^ 20" using unat_uint_less [of va] by (simp add: vpn_def)
  then have "unat (of_nat (vpn va) * PGSIZE) = vpn va * 4096"
    by (simp add: unat_word_ariths PGSIZE_def unat_of_nat take_bit_eq_mod)
  then show ?thesis by (simp add: word_unat_eq_iff PGROUNDDOWN_unat vpn_def)
qed

lemma offset_in_region:
  assumes "page_aligned b" and "vpn b \<le> vpn va"
  shows "of_nat (vpn va - vpn b) * PGSIZE = PGROUNDDOWN va - b"
proof -
  have "b = of_nat (vpn b) * PGSIZE"
  proof -
    have "unat (PGROUNDDOWN b) = unat b" using assms(1) by (auto simp: PGROUNDDOWN_unat page_aligned_unat)
    then show ?thesis by (simp add: PGROUNDDOWN_vpn [symmetric] word_unat_eq_iff)
  qed
  moreover have "of_nat (vpn va - vpn b) * PGSIZE = of_nat (vpn va) * PGSIZE - of_nat (vpn b) * PGSIZE"
    using assms(2) by (simp only: of_nat_diff left_diff_distrib)
  ultimately show ?thesis by (simp only: PGROUNDDOWN_vpn)
qed

text \<open>What the kernel's own mapping is meant to be: physical memory below \<^verbatim>\<open>PHYSTOP\<close> at \<^verbatim>\<open>KERNBASE\<close>, the text and
  read-only data without write permission, the devices at their own addresses, nothing for the user.\<close>

definition kernel_pte :: "uint \<Rightarrow> uint \<Rightarrow> uint" where
  "kernel_pte d va =
     (if vpn KERNBASE \<le> vpn va \<and> vpn va < vpn (KERNBASE + PHYSTOP)
      then (PGROUNDDOWN va - KERNBASE) OR (if vpn KERNLINK \<le> vpn va \<and> vpn va < vpn d then 0 else PTE_W) OR PTE_P
      else if vpn DEVSPACE \<le> vpn va then PGROUNDDOWN va OR PTE_W OR PTE_P else 0)"

definition kernel_dirs :: "uint set" where
  "kernel_dirs = of_nat ` ({512..<568} \<union> {1016..<1024})"

lemma card_kernel_dirs: "finite kernel_dirs" "card kernel_dirs \<le> 64"
proof -
  have "card kernel_dirs \<le> card ({512..<568} \<union> {1016..<1024 :: nat})" unfolding kernel_dirs_def by (rule card_image_le) simp
  also have "\<dots> = 64" by (subst card_Un_disjoint) auto
  finally show "card kernel_dirs \<le> 64" .
qed (simp add: kernel_dirs_def)

lemma unat_PDX_vpn: "unat (PDX va) = vpn va div 1024"
  by (simp add: unat_PDX vpn_def div_mult2_eq [symmetric])

lemma dirs_kernel:
  assumes "524288 \<le> v \<and> v + n \<le> 581632 \<or> 1040384 \<le> v"
  shows "dirs v n \<subseteq> kernel_dirs"
proof
  fix j assume "j \<in> dirs v n"
  then obtain va where va: "j = PDX va" "v \<le> vpn va" "vpn va < v + n" by (auto simp: dirs_def)
  have "vpn va < 2 ^ 20" using unat_uint_less [of va] by (simp add: vpn_def)
  with va assms have "vpn va div 1024 \<in> {512..<568} \<union> {1016..<1024}" by auto
  moreover have "j = of_nat (vpn va div 1024)" using va(1) by (simp add: unat_PDX_vpn [symmetric])
  ultimately show "j \<in> kernel_dirs" by (auto simp: kernel_dirs_def)
qed

lemma kernel_vpns:
  "vpn KERNBASE = 524288" "vpn KERNLINK = 524544" "vpn (KERNBASE + PHYSTOP) = 581632" "vpn DEVSPACE = 1040384"
  by (simp_all add: vpn_def KERNBASE_def KERNLINK_def EXTMEM_def PHYSTOP_def DEVSPACE_def)

lemma vpn_less: "vpn va < 1048576"
  using unat_uint_less [of va] by (simp add: vpn_def)

lemma region:
  assumes "page_aligned b" and "page_aligned e" and "b < e"
  shows "npages b (e - b) = vpn e - vpn b" and "0 < unat (e - b)" and "unat b + unat (e - b) \<le> 2 ^ 32" and "vpn b < vpn e"
proof -
  have u: "unat b = 4096 * vpn b" "unat e = 4096 * vpn e" using assms(1,2) by (auto simp: page_aligned_unat vpn_def)
  have lt: "unat b < unat e" using assms(3) by (simp add: word_less_nat_alt)
  then show v: "vpn b < vpn e" using u by simp
  have eb: "unat (e - b) = unat e - unat b" using lt by (simp add: unat_sub_if')
  then show "0 < unat (e - b)" "unat b + unat (e - b) \<le> 2 ^ 32" using lt unat_uint_less [of e] by simp_all
  have "e \<noteq> 0" using lt by auto
  then have "unat (e - 1) = unat e - 1" by (simp add: unat_minus_one)
  then have "unat (e - 1) = 4095 + 4096 * (vpn e - 1)" using u v by (simp add: diff_mult_distrib2)
  then have "vpn (e - 1) = vpn e - 1" by (simp only: vpn_def)
  then show "npages b (e - b) = vpn e - vpn b" using v by (simp add: npages_def)
qed

lemma kernel_pages: "page_aligned KERNBASE" "page_aligned KERNLINK" "page_aligned (KERNBASE + PHYSTOP)" "page_aligned DEVSPACE"
  by (simp_all add: page_aligned_def KERNBASE_def KERNLINK_def EXTMEM_def PHYSTOP_def DEVSPACE_def)

lemma kernel_layers:
  assumes "page_aligned d" and "524544 < vpn d" and "vpn d < 581632"
  shows "mapped (vpn DEVSPACE) 8192 DEVSPACE PTE_W
      (mapped (vpn d) (581632 - vpn d) (v2p d) PTE_W
        (mapped (vpn KERNLINK) (vpn d - 524544) (v2p KERNLINK) 0
          (mapped (vpn KERNBASE) 256 0 PTE_W (\<lambda>_. 0)))) = kernel_pte d"
proof
  fix va
  have dev: "DEVSPACE + of_nat (vpn va - vpn DEVSPACE) * PGSIZE = PGROUNDDOWN va" if "vpn DEVSPACE \<le> vpn va"
    using offset_in_region [OF kernel_pages(4) that] by simp
  have dat: "v2p d + of_nat (vpn va - vpn d) * PGSIZE = PGROUNDDOWN va - KERNBASE" if "vpn d \<le> vpn va"
    using offset_in_region [OF assms(1) that] by (simp add: v2p_def)
  have tx: "v2p KERNLINK + of_nat (vpn va - vpn KERNLINK) * PGSIZE = PGROUNDDOWN va - KERNBASE" if "vpn KERNLINK \<le> vpn va"
    using offset_in_region [OF kernel_pages(2) that] by (simp add: v2p_def)
  have low: "of_nat (vpn va - vpn KERNBASE) * PGSIZE = PGROUNDDOWN va - KERNBASE" if "vpn KERNBASE \<le> vpn va"
    using offset_in_region [OF kernel_pages(1) that] .
  consider "vpn va < 524288" | "524288 \<le> vpn va" "vpn va < 524544" | "524544 \<le> vpn va" "vpn va < vpn d"
    | "vpn d \<le> vpn va" "vpn va < 581632" | "581632 \<le> vpn va" "vpn va < 1040384" | "1040384 \<le> vpn va"
    using assms by linarith
  then show "mapped (vpn DEVSPACE) 8192 DEVSPACE PTE_W
      (mapped (vpn d) (581632 - vpn d) (v2p d) PTE_W
        (mapped (vpn KERNLINK) (vpn d - 524544) (v2p KERNLINK) 0
          (mapped (vpn KERNBASE) 256 0 PTE_W (\<lambda>_. 0)))) va = kernel_pte d va"
    by cases (use assms dev dat tx low vpn_less [of va] in \<open>simp_all add: mapped_def kernel_pte_def kernel_vpns\<close>)
qed

text \<open>The four regions of \<^verbatim>\<open>kmap\<close> one after the other.\<close>

lemma map_all_kernel:
  assumes "room kernel_dirs pd s xs" and "vpte (pmem s) pd = (\<lambda>_. 0)"
    and "page_aligned (kdata s)" and "KERNLINK < kdata s" and "kdata s < p2v PHYSTOP"
  shows "\<exists>t ys. map_all pd (kmap s) s = Ok True t \<and> room kernel_dirs pd t ys \<and> pt_ext pd s xs t ys \<and>
    vpte (pmem t) pd = kernel_pte (kdata s)"
proof -
  define d where "d = kdata s"
  have d: "page_aligned d" "KERNLINK < d" "d < KERNBASE + PHYSTOP"
    using assms(3-5) by (simp_all add: d_def p2v_def add.commute)
  have base: "KERNBASE < KERNLINK" by (simp add: KERNBASE_def KERNLINK_def EXTMEM_def)
  note r1 = region [OF kernel_pages(1,2) base] and r2 = region [OF kernel_pages(2) d(1,2)]
    and r3 = region [OF d(1) kernel_pages(3) d(3)]
  have v: "524544 < vpn d" "vpn d < 581632" using r2(4) r3(4) by (simp_all add: kernel_vpns)
  have l1: "EXTMEM - 0 = KERNLINK - KERNBASE" by (simp add: KERNLINK_def)
  have l2: "v2p d - v2p KERNLINK = d - KERNLINK" by (simp add: v2p_def)
  have l3: "PHYSTOP - v2p d = KERNBASE + PHYSTOP - d" by (simp add: v2p_def)
  have n4: "npages DEVSPACE (0 - DEVSPACE) = 8192" "0 < unat (0 - DEVSPACE)" "unat DEVSPACE + unat (0 - DEVSPACE) \<le> 2 ^ 32"
    by (simp_all add: npages_def vpn_def DEVSPACE_def unat_uint_minus_1)
  let ?f1 = "mapped (vpn KERNBASE) 256 0 PTE_W (\<lambda>_. 0)"
  let ?f2 = "mapped (vpn KERNLINK) (vpn d - 524544) (v2p KERNLINK) 0 ?f1"
  let ?f3 = "mapped (vpn d) (581632 - vpn d) (v2p d) PTE_W ?f2"
  have p1: "npages KERNBASE (KERNLINK - KERNBASE) = 256" using r1(1) by (simp add: kernel_vpns)
  have p2: "npages KERNLINK (d - KERNLINK) = vpn d - 524544" using r2(1) by (simp add: kernel_vpns)
  have p3: "npages d (KERNBASE + PHYSTOP - d) = 581632 - vpn d" using r3(1) by (simp add: kernel_vpns)
  have c1: "\<not> present (vpte (pmem s) pd u)" for u by (simp add: assms(2))
  have d1: "dirs (vpn KERNBASE) (npages KERNBASE (KERNLINK - KERNBASE)) \<subseteq> kernel_dirs"
    unfolding p1 kernel_vpns by (rule dirs_kernel) simp
  obtain s1 x1 where m1: "mappages pd KERNBASE (EXTMEM - 0) 0 PTE_W s = Ok True s1" "room kernel_dirs pd s1 x1" "pt_ext pd s xs s1 x1"
    "vpte (pmem s1) pd = ?f1"
    using map_region [OF assms(1) r1(2,3) c1 d1, of 0 PTE_W] unfolding p1 assms(2) l1 by blast
  have c2: "\<not> present (vpte (pmem s1) pd u)" if "vpn KERNLINK \<le> vpn u" for u
    using that by (simp add: m1(4) mapped_def kernel_vpns)
  have d2: "dirs (vpn KERNLINK) (npages KERNLINK (d - KERNLINK)) \<subseteq> kernel_dirs"
    unfolding p2 kernel_vpns by (rule dirs_kernel) (use v in simp)
  obtain s2 x2 where m2: "mappages pd KERNLINK (v2p d - v2p KERNLINK) (v2p KERNLINK) 0 s1 = Ok True s2" "room kernel_dirs pd s2 x2"
    "pt_ext pd s1 x1 s2 x2" "vpte (pmem s2) pd = ?f2"
    using map_region [OF m1(2) r2(2,3) c2 d2, of "v2p KERNLINK" 0] unfolding p2 m1(4) l2 by blast
  have c3: "\<not> present (vpte (pmem s2) pd u)" if "vpn d \<le> vpn u" for u
    using that v by (simp add: m2(4) mapped_def kernel_vpns)
  have d3: "dirs (vpn d) (npages d (KERNBASE + PHYSTOP - d)) \<subseteq> kernel_dirs"
    unfolding p3 by (rule dirs_kernel) (use v in simp)
  obtain s3 x3 where m3: "mappages pd d (PHYSTOP - v2p d) (v2p d) PTE_W s2 = Ok True s3" "room kernel_dirs pd s3 x3"
    "pt_ext pd s2 x2 s3 x3" "vpte (pmem s3) pd = ?f3"
    using map_region [OF m2(2) r3(2,3) c3 d3, of "v2p d" PTE_W] unfolding p3 m2(4) l3 by blast
  have c4: "\<not> present (vpte (pmem s3) pd u)" if "vpn DEVSPACE \<le> vpn u" for u
    using that v by (simp add: m3(4) mapped_def kernel_vpns)
  have d4: "dirs (vpn DEVSPACE) (npages DEVSPACE (0 - DEVSPACE)) \<subseteq> kernel_dirs"
    unfolding n4(1) kernel_vpns by (rule dirs_kernel) simp
  obtain s4 x4 where m4: "mappages pd DEVSPACE (0 - DEVSPACE) DEVSPACE PTE_W s3 = Ok True s4" "room kernel_dirs pd s4 x4" "pt_ext pd s3 x3 s4 x4"
    "vpte (pmem s4) pd = kernel_pte d"
    using map_region [OF m3(2) n4(2,3) c4 d4, of DEVSPACE PTE_W] unfolding n4(1) m3(4) kernel_layers [OF d(1) v] by blast
  have "map_all pd (kmap s) s = Ok True s4"
    unfolding kmap_def d_def [symmetric] by (simp only: map_all.simps m1(1) m2(1) m3(1) m4(1) call.simps) simp
  moreover have "pt_ext pd s xs s4 x4" using pt_ext_trans [OF pt_ext_trans [OF pt_ext_trans [OF m1(3) m2(3)] m3(3)] m4(3)] .
  ultimately show ?thesis using m4(2,4) unfolding d_def by blast
qed

lemma page_aligned_and: "page_aligned a \<Longrightarrow> w AND 0xFFF = w \<Longrightarrow> a AND w = 0"
proof -
  assume "page_aligned a" "w AND 0xFFF = w"
  then have "a AND w = (a AND 0xFFF) AND w" by (metis and.assoc and.commute)
  then show ?thesis using \<open>page_aligned a\<close> by (simp add: page_aligned_def)
qed

lemma page_aligned_v2p: "page_aligned a \<Longrightarrow> page_aligned (a - KERNBASE)"
proof -
  have "a - KERNBASE = a + KERNBASE" by (simp add: KERNBASE_def)
  then show "page_aligned a \<Longrightarrow> page_aligned (a - KERNBASE)"
    using page_aligned_add [of a KERNBASE] kernel_pages(1) by (simp only:)
qed

lemma kernel_pte_no_user: "kernel_pte d va AND PTE_U = 0"
proof -
  have "PGROUNDDOWN va AND PTE_U = 0" "(PGROUNDDOWN va - KERNBASE) AND PTE_U = 0"
    by (rule page_aligned_and, simp_all add: PGROUNDDOWN_aligned page_aligned_v2p PTE_U_def)+
  then show ?thesis by (simp add: kernel_pte_def bit.conj_disj_distrib2 PTE_U_def PTE_W_def PTE_P_def)
qed

text \<open>\<^verbatim>\<open>setupkvm\<close> with enough free pages.\<close>

lemma setupkvm_ok:
  assumes "pool s (x # xs)" and "64 \<le> length xs"
    and "page_aligned (kdata s)" and "KERNLINK < kdata s" and "kdata s < p2v PHYSTOP"
  shows "\<exists>t ys zs. setupkvm s = Ok x t \<and> xs = zs @ ys \<and> length zs \<le> 64 \<and> pt_inv t x ys \<and> vpte (pmem t) x = kernel_pte (kdata s) \<and>
    tabs (pmem t) x \<subseteq> kernel_dirs \<and> (\<exists>m f. t = s\<lparr>pmem := m, freelist := f\<rparr>) \<and>
    (\<forall>a. \<not> in_pages (x # xs) a \<longrightarrow> pmem t a = pmem s a) \<and> (\<forall>a. own (pmem t) x a \<or> in_pages ys a \<longrightarrow> in_pages (x # xs) a)"
proof -
  define s0 where "s0 = zero_page x (s\<lparr>freelist := load32 (pmem s) x\<rparr>)"
  note fd = fresh_dir [OF assms(1), folded s0_def]
  have x: "x \<noteq> 0" using assms(1) by (auto simp: pool_def)
  have k0: "kdata s0 = kdata s" by (simp add: s0_def zero_page_def)
  have "room kernel_dirs x s0 xs"
    unfolding room_def using fd(1,2) assms(2) card_kernel_dirs by auto
  from map_all_kernel [OF this fd(3)] assms(3-5) obtain t ys where
    m: "map_all x (kmap s0) s0 = Ok True t" and rm: "room kernel_dirs x t ys" and e: "pt_ext x s0 xs t ys" and v: "vpte (pmem t) x = kernel_pte (kdata s)"
    unfolding k0 by blast
  have "\<not> DEVSPACE < p2v PHYSTOP" by (simp add: DEVSPACE_def p2v_def PHYSTOP_def KERNBASE_def)
  then have "setupkvm s = Ok x t"
    using pool_tl [OF assms(1)] x m by (simp add: setupkvm_def Let_def s0_def)
  moreover obtain zs where z: "xs = zs @ ys" using e by (auto simp: pt_ext_def)
  moreover have tk: "tabs (pmem t) x \<subseteq> kernel_dirs" using rm by (simp add: room_def)
  moreover have "length zs \<le> 64"
  proof -
    have "length xs = length ys + card (tabs (pmem t) x)" using e fd(2) by (simp add: pt_ext_def)
    moreover have "card (tabs (pmem t) x) \<le> 64"
      using card_mono [OF card_kernel_dirs(1) tk] card_kernel_dirs(2) by simp
    ultimately show ?thesis using z by simp
  qed
  moreover have "pt_inv t x ys" using e by (simp add: pt_ext_def)
  moreover have "\<exists>m f. t = s\<lparr>pmem := m, freelist := f\<rparr>"
  proof -
    obtain m f where "t = s0\<lparr>pmem := m, freelist := f\<rparr>" using e by (auto simp: pt_ext_def)
    then have "t = s\<lparr>pmem := m, freelist := f\<rparr>" by (simp add: s0_def zero_page_def)
    then show ?thesis by blast
  qed
  moreover have "pmem t a = pmem s a" if "\<not> in_pages (x # xs) a" for a
    using that e fd(4,5) [of a] by (auto simp: pt_ext_def in_pages_def)
  moreover have "in_pages (x # xs) a" if "own (pmem t) x a \<or> in_pages ys a" for a
  proof -
    have "own (pmem s0) x a \<or> in_pages xs a" using e that unfolding pt_ext_def by blast
    then show ?thesis using fd(5) by (auto simp: in_pages_def)
  qed
  ultimately show ?thesis using v by (intro exI [of _ t] exI [of _ ys] exI [of _ zs]) simp
qed

section \<open>What the routines guarantee\<close>

lemma kernel_pte_direct:
  assumes "KERNBASE \<le> va" and "va < KERNBASE + PHYSTOP"
  shows "present (kernel_pte d va)" and "p2v (PTE_ADDR (kernel_pte d va)) + (va AND 0xFFF) = va"
proof -
  let ?b = "PGROUNDDOWN va - KERNBASE"
  obtain k where k: "k = 0 \<or> k = PTE_W" and e: "kernel_pte d va = ?b OR k OR PTE_P"
  proof -
    have "unat KERNBASE \<le> unat va" "unat va < unat (KERNBASE + PHYSTOP)"
      using assms by (simp_all only: word_le_nat_alt word_less_nat_alt)
    then have "524288 \<le> unat va div 4096 \<and> unat va div 4096 < 581632" by (simp add: KERNBASE_def PHYSTOP_def) linarith
    then have "vpn KERNBASE \<le> vpn va \<and> vpn va < vpn (KERNBASE + PHYSTOP)"
      by (simp add: vpn_def KERNBASE_def PHYSTOP_def)
    then have "kernel_pte d va = ?b OR (if vpn KERNLINK \<le> vpn va \<and> vpn va < vpn d then 0 else PTE_W) OR PTE_P"
      unfolding kernel_pte_def by (rule if_P)
    then show ?thesis by (rule that [rotated]) simp
  qed
  have al: "?b AND 0xFFF = 0" using page_aligned_v2p [OF PGROUNDDOWN_aligned] by (simp add: page_aligned_def)
  have id: "?b AND NOT 0xFFF = ?b"
  proof -
    have "?b = (?b AND 0xFFF) OR (?b AND NOT 0xFFF)" by (simp only: bit.conj_disj_distrib [symmetric]) simp
    then show ?thesis using al by simp
  qed
  have "k AND NOT 0xFFF = 0" "k AND PTE_P = 0" using k by (auto simp: PTE_W_def PTE_P_def)
  moreover have "?b AND PTE_P = 0" using page_aligned_and [OF page_aligned_v2p [OF PGROUNDDOWN_aligned]] by (simp add: PTE_P_def)
  ultimately have "kernel_pte d va AND NOT 0xFFF = ?b" "kernel_pte d va AND PTE_P = PTE_P"
    using id by (simp_all add: e bit.conj_disj_distrib2 PTE_P_def)
  moreover have "PGROUNDDOWN va + (va AND 0xFFF) = va"
  proof -
    have "(va AND NOT 0xFFF) + (va AND 0xFFF) = (va AND NOT 0xFFF) OR (va AND 0xFFF)"
      by (rule disjunctive_add) (auto simp: bit_simps)
    also have "\<dots> = va" by (simp only: bit.conj_disj_distrib [symmetric]) simp
    finally show ?thesis by (simp add: PGROUNDDOWN_def PGSIZE_def)
  qed
  ultimately show "present (kernel_pte d va)" "p2v (PTE_ADDR (kernel_pte d va)) + (va AND 0xFFF) = va"
    by (simp_all add: present_def PTE_ADDR_def p2v_def PTE_P_def)
qed

text \<open>C12. \<^verbatim>\<open>setupkvm\<close> builds the kernel's half of an address space: given 65 free pages it returns a well-formed page
  table whose mapping is, at every virtual address, the one \<^verbatim>\<open>kmap\<close> describes; the addresses from \<^verbatim>\<open>KERNBASE\<close> up to the
  top of physical memory read the physical byte at that address; no entry is accessible to user code; and no memory outside the free
  list is changed.\<close>

theorem setupkvm_maps_kernel:
  assumes "pool s (x # xs)" and "64 \<le> length xs"
    and "page_aligned (kdata s)" and "KERNLINK < kdata s" and "kdata s < p2v PHYSTOP"
  shows "\<exists>t ys. setupkvm s = Ok x t \<and> pt_inv t x ys \<and>
    (\<forall>va. vpte (pmem t) x va = kernel_pte (kdata s) va \<and> vpte (pmem t) x va AND PTE_U = 0 \<and>
       (KERNBASE \<le> va \<and> va < KERNBASE + PHYSTOP \<longrightarrow> vread x (pmem t) va = Some (pmem t va))) \<and>
    (\<forall>a. \<not> in_pages (x # xs) a \<longrightarrow> pmem t a = pmem s a)"
proof -
  from setupkvm_ok [OF assms] obtain t ys where t: "setupkvm s = Ok x t" "pt_inv t x ys" and v: "vpte (pmem t) x = kernel_pte (kdata s)"
    and o: "\<forall>a. \<not> in_pages (x # xs) a \<longrightarrow> pmem t a = pmem s a" by blast
  have "vread x (pmem t) va = Some (pmem t va)" if "KERNBASE \<le> va" "va < KERNBASE + PHYSTOP" for va
    using kernel_pte_direct [OF that] by (simp add: vread_def vaddr_vpte v)
  then show ?thesis using t v o kernel_pte_no_user by (intro exI [of _ t] exI [of _ ys]) simp
qed

lemma boot_pool:
  "\<exists>s :: kmem. pool s (rev (pages 0x80200000 150)) \<and> kdata s = 0x80108000"
proof -
  let ?s = "\<lparr>pmem = (\<lambda>_. 0), freelist = 0, kend = 0x80110000, kdata = 0x80108000, kpgdir = 0\<rparr> :: kmem"
  have "page_ok ?s (0x80200000 + of_nat i * PGSIZE)" if "i < 150" for i
  proof -
    let ?p = "0x80200000 + of_nat i * PGSIZE :: uint"
    have u: "unat ?p = unat (0x80200000 :: uint) + 4096 * i" using that by (intro unat_pages [of _ 150]) simp_all
    have "4096 dvd unat ?p" unfolding u by simp
    then have "?p mod PGSIZE = 0" by (simp add: page_aligned_unat [symmetric] PGSIZE_def mod_4096_and page_aligned_def)
    moreover have "unat (?p - 0x80000000) = unat ?p - unat (0x80000000 :: uint)"
      using u that by (intro unat_sub) (simp add: word_le_nat_alt)
    ultimately show ?thesis using u that by (simp add: page_ok_def v2p_def KERNBASE_def PHYSTOP_def word_less_nat_alt word_le_nat_alt)
  qed
  moreover have "pool ?s []" by (simp add: pool_def)
  ultimately obtain t :: kmem where "pool t (rev (pages 0x80200000 150) @ [])"
    using freerange_from_pool [of ?s "[]" "0x80200000" 150 "0x80296000"] by auto
  then have "pool (t\<lparr>kdata := 0x80108000\<rparr>) (rev (pages 0x80200000 150))" by (simp add: pool_def page_ok_def)
  then show ?thesis by (intro exI [of _ "t\<lparr>kdata := 0x80108000\<rparr>"]) simp
qed

lemma boot_kernel:
  "\<exists>(s :: kmem) x xs. pool s (x # xs) \<and> length xs = 149 \<and> page_aligned (kdata s) \<and> KERNLINK < kdata s \<and> kdata s < p2v PHYSTOP"
proof -
  from boot_pool obtain s :: kmem where s: "pool s (rev (pages 0x80200000 150))" "kdata s = 0x80108000" by blast
  obtain x xs where x: "rev (pages 0x80200000 150) = x # xs" "length xs = 149"
    using length_rev [of "pages 0x80200000 150"] by (cases "rev (pages 0x80200000 150)") (simp_all add: pages_def del: length_rev)
  show ?thesis using s x by (intro exI [of _ s] exI [of _ x] exI [of _ xs])
    (simp add: page_aligned_def KERNLINK_def EXTMEM_def p2v_def PHYSTOP_def KERNBASE_def)
qed

theorem setupkvm_maps_kernel_witness:
  "\<exists>(s :: kmem) x t. setupkvm s = Ok x t \<and> vread x (pmem t) 0x80100004 = Some (pmem t 0x80100004) \<and> vpte (pmem t) x 0x1000 = 0"
proof -
  from boot_kernel obtain s :: kmem and x xs where a: "pool s (x # xs)" "length xs = 149" "page_aligned (kdata s)" "KERNLINK < kdata s"
    "kdata s < p2v PHYSTOP" by blast
  then have "64 \<le> length xs" by simp
  from setupkvm_maps_kernel [OF a(1) this a(3-5)] obtain t where t: "setupkvm s = Ok x t" "vpte (pmem t) x 0x1000 = kernel_pte (kdata s) 0x1000"
    "KERNBASE \<le> 0x80100004 \<and> 0x80100004 < KERNBASE + PHYSTOP \<longrightarrow> vread x (pmem t) 0x80100004 = Some (pmem t 0x80100004)" by blast
  then show ?thesis
    by (intro exI [of _ s] exI [of _ x] exI [of _ t]) (simp add: kernel_pte_def vpn_def KERNBASE_def PHYSTOP_def DEVSPACE_def)
qed

text \<open>C38. \<^verbatim>\<open>mappages\<close> on a range with no present entry: it returns, keeps the page table well-formed, and touches only the table's own pages and
  pages it takes from the free list. When it succeeds the mapping has changed exactly on the pages of the range, to consecutive frames with
  the given permissions; it fails only when the free list has fewer pages than the range needs new tables.\<close>

theorem mappages_maps:
  assumes "pt_inv s pd xs" and "0 < unat len" and "unat va + unat len \<le> 2 ^ 32"
    and "\<And>u. vpn va \<le> vpn u \<Longrightarrow> vpn u < vpn va + npages va len \<Longrightarrow> \<not> present (vpte (pmem s) pd u)"
  shows "\<exists>ok t ys. mappages pd va len pa perm s = Ok ok t \<and> pt_inv t pd ys \<and>
    (\<forall>a. \<not> own (pmem s) pd a \<and> \<not> in_pages xs a \<longrightarrow> pmem t a = pmem s a) \<and>
    (ok \<longrightarrow> (\<forall>u. vpte (pmem t) pd u =
       (if vpn va \<le> vpn u \<and> vpn u < vpn va + npages va len then (pa + of_nat (vpn u - vpn va) * PGSIZE) OR perm OR PTE_P
        else vpte (pmem s) pd u))) \<and>
    (\<not> ok \<longrightarrow> length xs < card (dirs (vpn va) (npages va len) - tabs (pmem s) pd))"
proof -
  from mappages_spec [OF assms] obtain ok t ys where "mappages pd va len pa perm s = Ok ok t" "pt_ext pd s xs t ys"
    "ok \<longrightarrow> vpte (pmem t) pd = mapped (vpn va) (npages va len) pa perm (vpte (pmem s) pd)"
    "\<not> ok \<longrightarrow> length xs < card (dirs (vpn va) (npages va len) - tabs (pmem s) pd)" by blast
  then show ?thesis by (intro exI [of _ ok] exI [of _ t] exI [of _ ys]) (simp add: pt_ext_def mapped_def)
qed

theorem mappages_maps_witness:
  "\<exists>(s :: kmem) pd s' t. setupkvm s = Ok pd s' \<and> mappages pd 0x1000 0x2000 0x300000 (PTE_W OR PTE_U) s' = Ok True t \<and>
     vpte (pmem t) pd 0x2004 = 0x301000 OR (PTE_W OR PTE_U) OR PTE_P \<and> vpte (pmem t) pd 0x3000 = vpte (pmem s') pd 0x3000"
proof -
  from boot_kernel obtain s :: kmem and x xs where a: "pool s (x # xs)" "length xs = 149" "page_aligned (kdata s)" "KERNLINK < kdata s"
    "kdata s < p2v PHYSTOP" by blast
  then have "64 \<le> length xs" by simp
  from setupkvm_ok [OF a(1) this a(3-5)] obtain s' ys zs where s': "setupkvm s = Ok x s'" "xs = zs @ ys" "length zs \<le> 64" "pt_inv s' x ys"
    "vpte (pmem s') x = kernel_pte (kdata s)" by blast
  have n: "npages 0x1000 0x2000 = 2" "vpn 0x1000 = 1" by (simp_all add: npages_def vpn_def)
  have free: "\<not> present (vpte (pmem s') x u)" if "vpn u < 3" for u
    using that unfolding s'(5) by (simp add: kernel_pte_def kernel_vpns)
  obtain ok t where t: "mappages x 0x1000 0x2000 0x300000 (PTE_W OR PTE_U) s' = Ok ok t"
    "ok \<longrightarrow> (\<forall>u. vpte (pmem t) x u = (if 1 \<le> vpn u \<and> vpn u < 1 + 2 then (0x300000 + of_nat (vpn u - 1) * PGSIZE) OR (PTE_W OR PTE_U) OR PTE_P
        else vpte (pmem s') x u))"
    "\<not> ok \<longrightarrow> length ys < card (dirs 1 2 - tabs (pmem s') x)"
    using mappages_maps [OF s'(4), of "0x2000" "0x1000" "0x300000" "PTE_W OR PTE_U"] free unfolding n by auto
  have "dirs 1 2 \<subseteq> {0}"
  proof
    fix j assume "j \<in> dirs 1 2"
    then obtain va where "j = PDX va" "unat va div 4096 < 3" by (auto simp: dirs_def vpn_def)
    then have "unat va < 12288" by linarith
    then have "unat j = 0" using \<open>j = PDX va\<close> by (simp add: unat_PDX)
    then show "j \<in> {0}" by (simp add: unat_eq_zero)
  qed
  then have "card (dirs 1 2 - tabs (pmem s') x) \<le> 1" using card_mono [of "{0}" "dirs 1 2 - tabs (pmem s') x"] by auto
  then have ok: "ok" using t(3) a(2) s'(2,3) by (cases ok) auto
  have "vpn 0x2004 = 2" "vpn 0x3000 = 3" by (simp_all add: vpn_def)
  then have "vpte (pmem t) x 0x2004 = 0x301000 OR (PTE_W OR PTE_U) OR PTE_P" "vpte (pmem t) x 0x3000 = vpte (pmem s') x 0x3000"
    using t(2) ok by (simp_all add: PGSIZE_def)
  then show ?thesis using s'(1) t(1) ok by (intro exI [of _ s] exI [of _ x] exI [of _ s'] exI [of _ t]) simp
qed

end
