(* ===== verification/Vm_Copy.thy ===== *)
theory Vm_Copy
  imports Page_Table
begin

text \<open>
  \<^verbatim>\<open>copyuvm\<close>, the heart of \<^verbatim>\<open>fork\<close>: with enough free pages it builds a page table whose user half has the
  contents of the parent's, in pages of its own, and leaves everything outside the free list alone.
\<close>

section \<open>Pages\<close>

lemma memmove_page:
  assumes "page_aligned p" and "page_aligned q" and "p \<noteq> q" and "unat k < 4096"
  shows "memmove p q PGSIZE m (p + k) = m (q + k)"
    and "\<not> in_page p a \<Longrightarrow> memmove p q PGSIZE m a = m a"
proof -
  obtain x y where xy: "unat p = 4096 * x" "unat q = 4096 * y" using assms(1,2) by (auto simp: page_aligned_unat elim!: dvdE)
  have ne: "x \<noteq> y" using xy assms(3) by (auto simp: word_unat_eq_iff)
  have up: "\<not> (q < p \<and> q + PGSIZE > p)"
  proof
    assume c: "q < p \<and> q + PGSIZE > p"
    then have "y < x" using xy by (simp add: word_less_nat_alt)
    then have "unat q + 4096 \<le> unat p" using xy by simp
    moreover have "unat (q + PGSIZE) \<le> unat q + 4096" by (simp add: unat_word_ariths PGSIZE_def)
    ultimately show False using c by (simp add: word_less_nat_alt)
  qed
  have far: "4096 \<le> unat (p - q)"
  proof (cases "y < x")
    case True
    then show ?thesis using xy by (simp add: unat_sub_if')
  next
    case False
    then have "unat p < unat q" using xy ne by simp
    then have "unat (p - q) = 2 ^ 32 + unat p - unat q" using unat_uint_less [of q] by (simp add: unat_sub_if' word_le_nat_alt)
    moreover have "unat q + 4096 \<le> 2 ^ 32" by (rule page_end [OF assms(2)])
    ultimately show ?thesis by simp
  qed
  have eq: "memmove p q PGSIZE m = (\<lambda>a. if unat (a - p) < 4096 then m (q + (a - p)) else m a)"
    using copy_up_eq [of 4096 p q m] far up by (simp add: memmove_def PGSIZE_def del: copy_up.simps) argo
  then show "memmove p q PGSIZE m (p + k) = m (q + k)" using assms(4) by simp
  show "memmove p q PGSIZE m a = m a" if "\<not> in_page p a"
  proof -
    have "\<not> unat (a - p) < 4096"
    proof
      assume l: "unat (a - p) < 4096"
      have "unat (p + (a - p)) = unat p + unat (a - p)" using page_end [OF assms(1)] l by (intro unat_add_small) linarith
      then show False using that l by (simp add: in_page_def)
    qed
    then show ?thesis by (simp add: eq)
  qed
qed

lemma in_page_offset: "page_aligned p \<Longrightarrow> unat k < 4096 \<Longrightarrow> in_page p (p + k)"
proof -
  assume "page_aligned p" "unat k < 4096"
  then have "unat (p + k) = unat p + unat k" using page_end by (intro unat_add_small) fastforce
  then show ?thesis using \<open>unat k < 4096\<close> by (simp add: in_page_def)
qed

lemma unat_page_offset: "unat (va AND 0xFFF :: uint) < 4096"
proof -
  have "va AND 0xFFF = take_bit 12 va" by (simp add: take_bit_eq_mask mask_eq_exp_minus_1)
  then have "unat (va AND 0xFFF) = unat va mod 4096" by (simp only: unsigned_take_bit_eq) (simp add: take_bit_eq_mod)
  then show ?thesis by simp
qed

text \<open>Changes elsewhere do not disturb a page table.\<close>

lemma pt_inv_frame:
  assumes "pt_inv s pd xs" and "\<And>a. own (pmem s) pd a \<or> in_pages xs a \<Longrightarrow> m a = pmem s a"
  shows "pt_inv (s\<lparr>pmem := m\<rparr>) pd xs" and "vpte m pd = vpte (pmem s) pd" and "tabs m pd = tabs (pmem s) pd"
    and "own m pd = own (pmem s) pd"
proof -
  have pd: "page_aligned pd" using pt_inv_dir [OF assms(1)] by simp
  have pde: "pde m pd j = pde (pmem s) pd j" if "unat j < 1024" for j
    unfolding pde_def using assms(2) by (intro load_cong_page pd that) (simp add: own_def)
  have tab: "pgtab m pd j = pgtab (pmem s) pd j" if "unat j < 1024" for j using pde [OF that] by (simp add: pgtab_def)
  show "tabs m pd = tabs (pmem s) pd" using pde by (auto simp: tabs_def)
  show "own m pd = own (pmem s) pd" using pde tab by (auto simp: own_def fun_eq_iff)
  have "load32 m (pgtab (pmem s) pd j + 4 * k) = load32 (pmem s) (pgtab (pmem s) pd j + 4 * k)"
    if "unat j < 1024" "unat k < 1024" "present (pde (pmem s) pd j)" for j k
    using assms(2) that by (intro load_cong_page pt_inv_table(2) [OF assms(1)]) (auto simp: own_def)
  then show "vpte m pd = vpte (pmem s) pd" using pde tab by (auto simp: vpte_def fun_eq_iff)
  have pl: "pool s xs" using assms(1) by (simp add: pt_inv_def)
  have "pool (s\<lparr>pmem := m\<rparr>) xs"
    by (rule pool_frame [OF pl]) (simp_all add: assms(2))
  moreover have "page_ok (s\<lparr>pmem := m\<rparr>) pd" "pd \<notin> set xs" using assms(1) by (simp_all add: pt_inv_def)
  moreover have "page_ok (s\<lparr>pmem := m\<rparr>) (pgtab m pd j) \<and> pgtab m pd j \<noteq> pd \<and> pgtab m pd j \<notin> set xs"
    if "unat j < 1024" "present (pde m pd j)" for j
    using pt_inv_table [OF assms(1) that(1)] that pde tab by simp
  moreover have "pgtab m pd j \<noteq> pgtab m pd k"
    if "unat j < 1024" "unat k < 1024" "present (pde m pd j)" "present (pde m pd k)" "j \<noteq> k" for j k
  proof -
    have "present (pde (pmem s) pd j)" "present (pde (pmem s) pd k)" using that pde by simp_all
    then have "pgtab (pmem s) pd j \<noteq> pgtab (pmem s) pd k" using assms(1) that(1,2,5) unfolding pt_inv_def by blast
    then show ?thesis using tab that by simp
  qed
  ultimately show "pt_inv (s\<lparr>pmem := m\<rparr>) pd xs" unfolding pt_inv_def by simp
qed

lemma pt_inv_alloc:
  assumes "pt_inv s pd (x # xs)"
  defines "t \<equiv> s\<lparr>freelist := load32 (pmem s) x\<rparr>"
  shows "kalloc s = Ok x t" and "pt_inv t pd xs" and "x \<noteq> 0" and "page_ok s x" and "page_aligned x"
    and "in_page x a \<Longrightarrow> \<not> own (pmem s) pd a \<and> \<not> in_pages xs a"
proof -
  have pl: "pool s (x # xs)" using assms(1) by (simp add: pt_inv_def)
  show "kalloc s = Ok x t" using pool_tl [OF pl] by (simp add: t_def)
  show x: "page_ok s x" "page_aligned x" "x \<noteq> 0" using pl by (auto simp: pool_def dest: page_ok_aligned)
  show "pt_inv t pd xs" using assms(1) pool_tl [OF pl] by (auto simp: pt_inv_def t_def)
  show "\<not> own (pmem s) pd a \<and> \<not> in_pages xs a" if a: "in_page x a"
  proof -
    have "\<not> in_page y a" if "page_aligned y" "y \<noteq> x" for y using in_page_disjoint [of x y a] x a that by auto
    moreover have "page_aligned pd" "pd \<noteq> x" using pt_inv_dir [OF assms(1)] by auto
    moreover have "page_aligned (pgtab (pmem s) pd j)" "pgtab (pmem s) pd j \<noteq> x" if "unat j < 1024" "present (pde (pmem s) pd j)" for j
      using pt_inv_table [OF assms(1) that] by auto
    moreover have "page_aligned y" "y \<noteq> x" if "y \<in> set xs" for y
      using pl that by (auto simp: pool_def dest: page_ok_aligned)
    ultimately show ?thesis unfolding own_def in_pages_def by blast
  qed
qed

section \<open>The copy loop\<close>

definition frame_of :: "mem \<Rightarrow> uint \<Rightarrow> uint \<Rightarrow> uint" where
  "frame_of m pd va = p2v (PTE_ADDR (vpte m pd va))"

text \<open>The parent: every page below \<open>len\<close> is mapped, to a page outside the free list.\<close>

definition user_mem :: "'a kmem_scheme \<Rightarrow> uint \<Rightarrow> nat \<Rightarrow> uint list \<Rightarrow> bool" where
  "user_mem s pd len X \<longleftrightarrow>
     pt_inv s pd X \<and>
     (\<forall>va. unat va < len \<longrightarrow> present (vpte (pmem s) pd va) \<and> page_aligned (frame_of (pmem s) pd va) \<and>
        frame_of (pmem s) pd va \<notin> set X)"

text \<open>The page of \<open>va\<close> has been copied into a page of its own.\<close>

definition copied :: "mem \<Rightarrow> uint \<Rightarrow> uint list \<Rightarrow> uint \<Rightarrow> 'a kmem_scheme \<Rightarrow> uint list \<Rightarrow> uint \<Rightarrow> bool" where
  "copied m0 pd X d s xs va \<longleftrightarrow>
     present (vpte (pmem s) d va) \<and> page_aligned (frame_of (pmem s) d va) \<and> frame_of (pmem s) d va \<in> set X \<and>
     (\<forall>a. in_page (frame_of (pmem s) d va) a \<longrightarrow> \<not> own (pmem s) d a \<and> \<not> in_pages xs a) \<and>
     (\<forall>k. unat k < 4096 \<longrightarrow> pmem s (frame_of (pmem s) d va + k) = m0 (frame_of m0 pd va + k))"

text \<open>The state of the loop at address \<open>i\<close>: \<open>m0\<close> and \<open>X\<close> are the memory and the free list at the start of \<^verbatim>\<open>copyuvm\<close>, \<open>K\<close> the
  kernel half.\<close>

definition copying :: "mem \<Rightarrow> uint list \<Rightarrow> uint \<Rightarrow> nat \<Rightarrow> (uint \<Rightarrow> uint) \<Rightarrow> uint \<Rightarrow> 'a kmem_scheme \<Rightarrow> uint list \<Rightarrow> nat \<Rightarrow> bool" where
  "copying m0 X pd len K d s xs i \<longleftrightarrow>
     pt_inv s d xs \<and> set xs \<subseteq> set X \<and>
     (\<forall>a. \<not> in_pages X a \<longrightarrow> pmem s a = m0 a) \<and> (\<forall>a. own (pmem s) d a \<longrightarrow> in_pages X a) \<and>
     (\<forall>va. i \<le> unat va \<and> unat va < 2 ^ 31 \<longrightarrow> vpte (pmem s) d va = 0) \<and>
     (\<forall>va. unat va < i \<and> unat va < len \<longrightarrow> copied m0 pd X d s xs va) \<and>
     (\<forall>va. 2 ^ 31 \<le> unat va \<longrightarrow> vpte (pmem s) d va = K va)"

definition enough :: "nat \<Rightarrow> uint \<Rightarrow> 'a kmem_scheme \<Rightarrow> uint list \<Rightarrow> nat \<Rightarrow> bool" where
  "enough len d s xs i \<longleftrightarrow>
     (len - i + 4095) div 4096 + card (dirs 0 ((len + 4095) div 4096) - tabs (pmem s) d) \<le> length xs"

lemma vpte_vpn: "vpn va = vpn va' \<Longrightarrow> vpte m pd va = vpte m pd va'"
  by (simp add: vpn_eq vpte_def)

lemma user_entry:
  assumes "page_aligned x"
  shows "PTE_ADDR (v2p x OR (PTE_W OR PTE_U) OR PTE_P) = v2p x" "present (v2p x OR (PTE_W OR PTE_U) OR PTE_P)"
proof -
  have "v2p x OR (PTE_W OR PTE_U) OR PTE_P = v2p x OR PTE_P OR PTE_W OR PTE_U" by (simp add: ac_simps)
  then show "PTE_ADDR (v2p x OR (PTE_W OR PTE_U) OR PTE_P) = v2p x" "present (v2p x OR (PTE_W OR PTE_U) OR PTE_P)"
    using pde_table [OF assms] by simp_all
qed

lemma own_not_free:
  assumes "pt_inv s pd xs" and "own (pmem s) pd a"
  shows "\<not> in_pages xs a"
proof
  assume "in_pages xs a"
  then obtain y where y: "y \<in> set xs" "in_page y a" by (auto simp: in_pages_def)
  have al: "page_aligned y" using assms(1) y(1) by (auto simp: pt_inv_def pool_def dest: page_ok_aligned)
  from assms(2) consider "in_page pd a" | j where "unat j < 1024" "present (pde (pmem s) pd j)" "in_page (pgtab (pmem s) pd j) a"
    by (auto simp: own_def)
  then show False
  proof cases
    case 1
    moreover have "page_aligned pd" "pd \<noteq> y" using pt_inv_dir [OF assms(1)] y(1) by auto
    ultimately show False using in_page_disjoint [OF al] y(2) by blast
  next
    case 2
    note t = pt_inv_table [OF assms(1) 2(1,2)]
    have "pgtab (pmem s) pd j \<noteq> y" using t(4) y(1) by auto
    then show False using in_page_disjoint [OF al t(2)] y(2) 2(3) by blast
  qed
qed

text \<open>Reading the parent's table after changes inside the free pages.\<close>

lemma walk_parent:
  assumes "pt_inv s0 pd X" and "\<And>a. \<not> in_pages X a \<Longrightarrow> pmem s a = pmem s0 a" and "present (vpte (pmem s0) pd va)"
  shows "\<exists>p. walkpgdir pd va False s = Ok p s \<and> p \<noteq> 0 \<and> rd p s = vpte (pmem s0) pd va"
proof -
  have same: "pmem s a = pmem s0 a" if "own (pmem s0) pd a" for a using own_not_free [OF assms(1) that] assms(2) by blast
  have pd: "page_aligned pd" using pt_inv_dir [OF assms(1)] by simp
  have pde: "pde (pmem s) pd (PDX va) = pde (pmem s0) pd (PDX va)"
    unfolding pde_def using same by (intro load_cong_page pd PDX_less) (simp add: own_def)
  have pr: "present (pde (pmem s0) pd (PDX va))" using assms(3) by (auto simp: vpte_def split: if_splits)
  note t = pt_inv_table [OF assms(1) PDX_less pr]
  let ?p = "pgtab (pmem s0) pd (PDX va) + 4 * PTX va"
  have "load32 (pmem s) ?p = load32 (pmem s0) ?p"
  proof (intro load_cong_page t(2) PTX_less same)
    show "own (pmem s0) pd a" if "in_page (pgtab (pmem s0) pd (PDX va)) a" for a
      using that pr PDX_less [of va] unfolding own_def by blast
  qed
  then have "rd ?p s = vpte (pmem s0) pd va" using pr by (simp add: rd_def vpte_def)
  moreover have "walkpgdir pd va False s = Ok ?p s"
    using pr pde by (simp add: walkpgdir_def Let_def rd_def present_def pde_def pgtab_def)
  moreover have "?p \<noteq> 0" using entry_nonzero [OF t(2) page_ok_nonzero [OF t(1)] PTX_less] .
  ultimately show ?thesis by blast
qed

text \<open>One page: allocate, copy, map.\<close>

lemma map_page:
  assumes "pt_inv s d xs" and "page_aligned va" and "\<not> present (vpte (pmem s) d va)"
    and "card ({PDX va} - tabs (pmem s) d) \<le> length xs"
  shows "\<exists>t ys. mappages d va PGSIZE pa perm s = Ok True t \<and> pt_ext d s xs t ys \<and>
    tabs (pmem t) d = insert (PDX va) (tabs (pmem s) d) \<and>
    (\<forall>u. vpte (pmem t) d u = (if vpn u = vpn va then pa OR perm OR PTE_P else vpte (pmem s) d u))"
proof -
  obtain k where k: "unat va = 4096 * k" using assms(2) by (auto simp: page_aligned_unat elim: dvdE)
  have "unat (va + PGSIZE - 1) = unat va + 4095"
  proof -
    have "va + PGSIZE - 1 = va + 4095" by (simp add: PGSIZE_def)
    moreover have "unat (va + 4095) = unat va + 4095" using page_end [OF assms(2)] by (subst unat_add_small) simp_all
    ultimately show ?thesis by (simp only:)
  qed
  then have "vpn (va + PGSIZE - 1) = vpn va" using k by (simp add: vpn_def)
  then have n: "npages va PGSIZE = 1" by (simp add: npages_def)
  have sz: "0 < unat PGSIZE" "unat va + unat PGSIZE \<le> 2 ^ 32" using page_end [OF assms(2)] by (simp_all add: PGSIZE_def)
  have np: "\<not> present (vpte (pmem s) d u)" if "vpn va \<le> vpn u" "vpn u < vpn va + npages va PGSIZE" for u
    using that n assms(3) vpte_vpn [of u va "pmem s" d] by simp
  have d1: "dirs (vpn va) (npages va PGSIZE) = {PDX va}" unfolding n by (rule dirs_1)
  from mappages_spec [OF assms(1) sz np, of pa perm] obtain ok t ys where r: "mappages d va PGSIZE pa perm s = Ok ok t"
    and e: "pt_ext d s xs t ys" and good: "ok \<longrightarrow> vpte (pmem t) d = mapped (vpn va) (npages va PGSIZE) pa perm (vpte (pmem s) d) \<and>
            tabs (pmem t) d = tabs (pmem s) d \<union> dirs (vpn va) (npages va PGSIZE)"
    and bad: "\<not> ok \<longrightarrow> length xs < card (dirs (vpn va) (npages va PGSIZE) - tabs (pmem s) d)" by blast
  have ok: ok using bad assms(4) unfolding d1 by (cases ok) auto
  have "vpte (pmem t) d u = (if vpn u = vpn va then pa OR perm OR PTE_P else vpte (pmem s) d u)" for u
    using good ok unfolding n by (auto simp: mapped_def)
  moreover have "tabs (pmem t) d = insert (PDX va) (tabs (pmem s) d)" using good ok unfolding d1 by simp
  ultimately show ?thesis using r e ok by (intro exI [of _ t] exI [of _ ys]) simp
qed

lemma frame_aligned_entry: "page_aligned x \<Longrightarrow> p2v (PTE_ADDR (v2p x OR (PTE_W OR PTE_U) OR PTE_P)) = x"
  using user_entry(1) by simp

lemma copied_mono:
  assumes "copied m0 pd X d s xs va" and "vpte (pmem t) d va = vpte (pmem s) d va"
    and "\<And>a. \<not> own (pmem s) d a \<Longrightarrow> \<not> in_pages xs a \<Longrightarrow> pmem t a = pmem s a"
    and "\<And>a. own (pmem t) d a \<or> in_pages ys a \<Longrightarrow> own (pmem s) d a \<or> in_pages xs a"
  shows "copied m0 pd X d t ys va"
proof -
  have f: "frame_of (pmem t) d va = frame_of (pmem s) d va" using assms(2) by (simp add: frame_of_def)
  let ?f = "frame_of (pmem s) d va"
  have al: "page_aligned ?f" and fr: "\<forall>a. in_page ?f a \<longrightarrow> \<not> own (pmem s) d a \<and> \<not> in_pages xs a"
    and eq: "\<forall>k. unat k < 4096 \<longrightarrow> pmem s (?f + k) = m0 (frame_of m0 pd va + k)"
    using assms(1) by (simp_all add: copied_def)
  have "pmem t (?f + k) = m0 (frame_of m0 pd va + k)" if "unat k < 4096" for k
    using assms(3) fr eq that in_page_offset [OF al that] by simp
  moreover have "\<not> own (pmem t) d a \<and> \<not> in_pages ys a" if "in_page ?f a" for a using assms(4) fr that by blast
  ultimately show ?thesis using assms(1,2) f by (simp add: copied_def)
qed

lemma copy_step:
  assumes par: "user_mem s0 pd len X" and len: "len \<le> 2 ^ 31" and cp: "copying (pmem s0) X pd len K d s xs i"
    and en: "enough len d s xs i" and i: "4096 dvd i" "i < len"
  shows "\<exists>t ys. copyuvm_from pd d len i s = copyuvm_from pd d len (i + 4096) t \<and>
    copying (pmem s0) X pd len K d t ys (i + 4096) \<and> enough len d t ys (i + 4096) \<and> (\<exists>m f. t = s\<lparr>pmem := m, freelist := f\<rparr>)"
proof -
  define va :: uint where "va = of_nat i"
  have uva: "unat va = i" using i(2) len by (simp add: va_def unat_of_nat_uint)
  have al: "page_aligned va" using i(1) uva by (simp add: page_aligned_unat)
  let ?D = "dirs 0 ((len + 4095) div 4096)"
  let ?g = "frame_of (pmem s0) pd va"
  have pt: "pt_inv s0 pd X" and pr: "present (vpte (pmem s0) pd va)" and g: "page_aligned ?g" "?g \<notin> set X"
    using par i(2) uva by (simp_all add: user_mem_def)
  have inv: "pt_inv s d xs" and sub: "set xs \<subseteq> set X" and out: "\<And>a. \<not> in_pages X a \<Longrightarrow> pmem s a = pmem s0 a"
    and ow: "\<And>a. own (pmem s) d a \<Longrightarrow> in_pages X a" and todo: "\<And>u. i \<le> unat u \<Longrightarrow> unat u < 2 ^ 31 \<Longrightarrow> vpte (pmem s) d u = 0"
    and done_: "\<And>u. unat u < i \<Longrightarrow> unat u < len \<Longrightarrow> copied (pmem s0) pd X d s xs u"
    and ker: "\<And>u. 2 ^ 31 \<le> unat u \<Longrightarrow> vpte (pmem s) d u = K u"
    using cp by (simp_all add: copying_def)
  have rounds: "(len - i + 4095) div 4096 = Suc ((len - (i + 4096) + 4095) div 4096)"
  proof -
    have "len - i + 4095 = (len - i - 1) + 4096" using i(2) by simp
    then have "(len - i + 4095) div 4096 = Suc ((len - i - 1) div 4096)" by simp
    moreover have "(len - i - 1) div 4096 = (len - (i + 4096) + 4095) div 4096"
      by (cases "len - i \<ge> 4096") (auto simp: Suc_diff_Suc)
    ultimately show ?thesis by (simp only:)
  qed
  obtain x xs' where xs: "xs = x # xs'" using en rounds by (cases xs) (auto simp: enough_def)
  note al1 = pt_inv_alloc [OF inv [unfolded xs]]
  obtain p where w: "walkpgdir pd va False s = Ok p s" "p \<noteq> 0" "rd p s = vpte (pmem s0) pd va"
    using walk_parent [OF pt out pr] by blast
  have xg: "x \<noteq> ?g" using g(2) sub xs by auto
  let ?m = "memmove x ?g PGSIZE (pmem s)"
  define s1 where "s1 = s\<lparr>freelist := load32 (pmem s) x\<rparr>"
  define s2 where "s2 = s1\<lparr>pmem := ?m\<rparr>"
  note mv = memmove_page [OF al1(5) g(1) xg]
  have fr2: "pmem s2 a = pmem s a" if "\<not> in_page x a" for a
    using mv(2) [of 0 a] that by (simp add: s2_def)
  have same: "?m a = pmem s1 a" if "own (pmem s1) d a \<or> in_pages xs' a" for a
    using that al1(6) [of a] fr2 [of a] by (auto simp: s1_def s2_def)
  have i2: "pt_inv s2 d xs'" and v2: "vpte (pmem s2) d = vpte (pmem s) d" and t2: "tabs (pmem s2) d = tabs (pmem s) d"
    and o2: "own (pmem s2) d = own (pmem s) d"
    using pt_inv_frame [of s1 d xs' ?m] al1(2) same by (simp_all add: s1_def s2_def)
  have np: "\<not> present (vpte (pmem s2) d va)" using todo [of va] uva i(2) len v2 by simp
  have vD: "PDX va \<in> ?D"
    unfolding dirs_def using uva i(2) by (intro image_eqI [of _ _ va]) (auto simp: vpn_def div_less_iff_less_mult)
  have cD: "card (?D - tabs (pmem s) d) \<le> length xs'" using en rounds xs by (simp add: enough_def)
  have "card ({PDX va} - tabs (pmem s2) d) \<le> card (?D - tabs (pmem s) d)" using vD t2 by (intro card_mono) auto
  then have "card ({PDX va} - tabs (pmem s2) d) \<le> length xs'" using cD by simp
  from map_page [OF i2 al np this, of "v2p x" "PTE_W OR PTE_U"] obtain t ys where
    mp: "mappages d va PGSIZE (v2p x) (PTE_W OR PTE_U) s2 = Ok True t" and e: "pt_ext d s2 xs' t ys"
    and tt: "tabs (pmem t) d = insert (PDX va) (tabs (pmem s2) d)"
    and vt: "\<forall>u. vpte (pmem t) d u = (if vpn u = vpn va then v2p x OR (PTE_W OR PTE_U) OR PTE_P else vpte (pmem s2) d u)"
    by blast
  have tinv: "pt_inv t d ys" and tfr: "\<And>a. \<not> own (pmem s) d a \<Longrightarrow> \<not> in_pages xs' a \<Longrightarrow> pmem t a = pmem s2 a"
    using e o2 by (simp_all add: pt_ext_def)
  have town: "\<And>a. own (pmem t) d a \<or> in_pages ys a \<Longrightarrow> own (pmem s) d a \<or> in_pages xs' a"
    using e unfolding pt_ext_def o2 by blast
  have ysx: "set ys \<subseteq> set xs'" using e by (auto simp: pt_ext_def)
  have vpi: "vpn va = i div 4096" using uva by (simp add: vpn_def)
  have mono: "pmem t a = pmem s a" if "\<not> own (pmem s) d a" "\<not> in_pages xs a" for a
    using tfr [of a] fr2 [of a] that by (auto simp: xs in_pages_def)
  have xX: "x \<in> set X" "set xs' \<subseteq> set X" using sub xs by auto
  have "copying (pmem s0) X pd len K d t ys (i + 4096)"
    unfolding copying_def
  proof (intro conjI allI impI)
    show "pt_inv t d ys" by (rule tinv)
    show "set ys \<subseteq> set X" using ysx xX by blast
    show "pmem t a = pmem s0 a" if "\<not> in_pages X a" for a
      using that mono [of a] ow [of a] out [of a] sub by (auto simp: in_pages_def)
    show "in_pages X a" if "own (pmem t) d a" for a
      using town [of a] that ow [of a] xX by (auto simp: in_pages_def)
    show "vpte (pmem t) d u = 0" if "i + 4096 \<le> unat u \<and> unat u < 2 ^ 31" for u
    proof -
      have "vpn u \<noteq> vpn va" using that vpi i(1) by (auto simp: vpn_def elim!: dvdE)
      then show ?thesis using vt v2 todo [of u] that by simp
    qed
    show "vpte (pmem t) d u = K u" if "2 ^ 31 \<le> unat u" for u
    proof -
      have "unat u div 4096 \<ge> 2 ^ 31 div 4096" using that by (rule div_le_mono)
      moreover have "i div 4096 < 2 ^ 31 div 4096" using i len by (auto elim!: dvdE)
      ultimately have "vpn u \<noteq> vpn va" using vpi by (simp add: vpn_def)
      then show ?thesis using vt v2 ker [OF that] by simp
    qed
    show "copied (pmem s0) pd X d t ys u" if u: "unat u < i + 4096 \<and> unat u < len" for u
    proof (cases "unat u < i")
      case True
      have "vpn u \<noteq> vpn va" using True vpi i(1) by (auto simp: vpn_def div_less_iff_less_mult elim!: dvdE)
      then have "vpte (pmem t) d u = vpte (pmem s) d u" using vt v2 by simp
      moreover have "own (pmem s) d a \<or> in_pages xs a" if "own (pmem t) d a \<or> in_pages ys a" for a
        using town [of a] that by (auto simp: xs in_pages_def)
      ultimately show ?thesis using copied_mono [OF done_, of u t ys] True u mono by blast
    next
      case False
      have vu: "vpn u = vpn va" using False u vpi i(1) by (auto simp: vpn_def elim!: dvdE)
      then have pte: "vpte (pmem t) d u = v2p x OR (PTE_W OR PTE_U) OR PTE_P" using vt by simp
      then have f: "frame_of (pmem t) d u = x" using frame_aligned_entry [OF al1(5)] by (simp add: frame_of_def)
      have g0: "frame_of (pmem s0) pd u = ?g" using vpte_vpn [OF vu] by (simp add: frame_of_def)
      have "pmem t (x + k) = pmem s0 (?g + k)" if k: "unat k < 4096" for k
      proof -
        have "pmem t (x + k) = pmem s2 (x + k)"
          using al1(6) in_page_offset [OF al1(5) k] by (intro tfr) auto
        also have "\<dots> = pmem s (?g + k)" using mv(1) [OF k] by (simp add: s2_def)
        also have "\<not> in_pages X (?g + k)"
        proof
          assume "in_pages X (?g + k)"
          then obtain y where y: "y \<in> set X" "in_page y (?g + k)" by (auto simp: in_pages_def)
          have "page_aligned y" using pt y(1) by (auto simp: pt_inv_def pool_def dest: page_ok_aligned)
          then show False using in_page_disjoint [OF g(1) _ _ in_page_offset [OF g(1) k]] y g(2) by metis
        qed
        then have "pmem s (?g + k) = pmem s0 (?g + k)" by (rule out)
        finally show ?thesis .
      qed
      moreover have "\<not> own (pmem t) d a \<and> \<not> in_pages ys a" if "in_page x a" for a
        using town [of a] al1(6) [OF that] by blast
      ultimately show ?thesis
        using pte user_entry(2) [OF al1(5)] al1(5) xX(1) by (simp add: copied_def f g0)
    qed
  qed
  moreover have "enough len d t ys (i + 4096)"
  proof -
    have "?D - tabs (pmem s) d = (?D - tabs (pmem t) d) \<union> (tabs (pmem t) d - tabs (pmem s) d)"
      using tt t2 vD by auto
    moreover have "(?D - tabs (pmem t) d) \<inter> (tabs (pmem t) d - tabs (pmem s) d) = {}" by blast
    ultimately have "card (?D - tabs (pmem s) d) = card (?D - tabs (pmem t) d) + card (tabs (pmem t) d - tabs (pmem s) d)"
      by (simp add: card_Un_disjoint)
    moreover have "length xs' = length ys + card (tabs (pmem t) d - tabs (pmem s) d)" using e t2 by (simp add: pt_ext_def)
    moreover have "length xs = Suc (length xs')" by (simp add: xs)
    ultimately show ?thesis using en unfolding enough_def rounds by linarith
  qed
  moreover have "copyuvm_from pd d len i s = copyuvm_from pd d len (i + 4096) t"
  proof -
    have p1: "rd p s AND PTE_P \<noteq> 0" using pr w(3) by (simp add: present_def)
    have "p2v (PTE_ADDR (rd p s)) = ?g" by (simp add: frame_of_def w(3))
    then show ?thesis
      using i(2) w(1,2) p1 al1(1,3) mp
      by (subst copyuvm_from.simps) (simp add: va_def Let_def s1_def s2_def)
  qed
  moreover have "\<exists>m f. t = s\<lparr>pmem := m, freelist := f\<rparr>"
  proof -
    obtain m f where "t = s2\<lparr>pmem := m, freelist := f\<rparr>" using e by (auto simp: pt_ext_def)
    then have "t = s\<lparr>pmem := m, freelist := f\<rparr>" by (simp add: s2_def s1_def)
    then show ?thesis by blast
  qed
  ultimately show ?thesis by blast
qed

lemma copy_loop:
  assumes "user_mem s0 pd len X" and "len \<le> 2 ^ 31" and "copying (pmem s0) X pd len K d s xs i"
    and "enough len d s xs i" and "4096 dvd i"
  shows "\<exists>t ys j. copyuvm_from pd d len i s = Ok d t \<and> copying (pmem s0) X pd len K d t ys j \<and> len \<le> j \<and>
    (\<exists>m f. t = s\<lparr>pmem := m, freelist := f\<rparr>)"
  using assms(3-5)
proof (induction "len - i" arbitrary: i s xs rule: less_induct)
  case less
  show ?case
  proof (cases "i < len")
    case False
    then have "copyuvm_from pd d len i s = Ok d s" by (subst copyuvm_from.simps) simp
    moreover have "\<exists>m f. s = s\<lparr>pmem := m, freelist := f\<rparr>" by (intro exI [of _ "pmem s"] exI [of _ "freelist s"]) simp
    ultimately show ?thesis using less.prems(1) False by (intro exI [of _ s] exI [of _ xs] exI [of _ i]) auto
  next
    case True
    from copy_step [OF assms(1,2) less.prems True] obtain t ys where st: "copyuvm_from pd d len i s = copyuvm_from pd d len (i + 4096) t"
      and cp: "copying (pmem s0) X pd len K d t ys (i + 4096)" and en: "enough len d t ys (i + 4096)"
      and fr: "\<exists>m f. t = s\<lparr>pmem := m, freelist := f\<rparr>" by blast
    have "len - (i + 4096) < len - i" "4096 dvd i + 4096" using True less.prems(3) by auto
    from less.hyps [OF this(1) cp en this(2)] obtain u zs j where u: "copyuvm_from pd d len (i + 4096) t = Ok d u"
      "copying (pmem s0) X pd len K d u zs j" "len \<le> j" "\<exists>m f. u = t\<lparr>pmem := m, freelist := f\<rparr>" by blast
    have "\<exists>m f. u = s\<lparr>pmem := m, freelist := f\<rparr>"
    proof -
      from fr u(4) obtain m f m' f' where "t = s\<lparr>pmem := m, freelist := f\<rparr>" "u = t\<lparr>pmem := m', freelist := f'\<rparr>" by blast
      then have "u = s\<lparr>pmem := m', freelist := f'\<rparr>" by simp
      then show ?thesis by blast
    qed
    then show ?thesis using st u(1-3) by (intro exI [of _ u] exI [of _ zs] exI [of _ j]) simp
  qed
qed

lemma card_dirs: "card (dirs v n) \<le> n"
proof -
  have "dirs v n \<subseteq> (\<lambda>p. of_nat (p div 1024)) ` {v..<v + n}"
  proof
    fix j assume "j \<in> dirs v n"
    then obtain va where va: "j = PDX va" "v \<le> vpn va" "vpn va < v + n" by (auto simp: dirs_def)
    have "j = of_nat (vpn va div 1024)" using va(1) by (simp add: unat_PDX_vpn [symmetric])
    then show "j \<in> (\<lambda>p. of_nat (p div 1024)) ` {v..<v + n}" using va by auto
  qed
  then have "card (dirs v n) \<le> card ((\<lambda>p. of_nat (p div 1024) :: uint) ` {v..<v + n})" by (intro card_mono) auto
  also have "\<dots> \<le> card {v..<v + n}" by (rule card_image_le) simp
  finally show ?thesis by simp
qed

lemma kernel_pte_low: "unat va < 2 ^ 31 \<Longrightarrow> kernel_pte d va = 0"
proof -
  assume "unat va < 2 ^ 31"
  then have "vpn va < 524288" by (simp add: vpn_def)
  then show ?thesis by (simp add: kernel_pte_def kernel_vpns)
qed

lemma vread_copied:
  assumes "copied (pmem s0) pd X d t ys va" and "present (vpte (pmem s0) pd va)"
  shows "vread d (pmem t) va = vread pd (pmem s0) va"
proof -
  have "pmem t (frame_of (pmem t) d va + (va AND 0xFFF)) = pmem s0 (frame_of (pmem s0) pd va + (va AND 0xFFF))"
    using assms(1) unat_page_offset [of va] by (simp add: copied_def)
  then show ?thesis using assms by (simp add: vread_def vaddr_vpte copied_def frame_of_def)
qed

lemma vpte_parent:
  assumes "user_mem s pd len X" and "unat va < len" and "\<And>a. \<not> in_pages X a \<Longrightarrow> m a = pmem s a"
  shows "vpte m pd va = vpte (pmem s) pd va"
proof -
  have pt: "pt_inv s pd X" and pr: "present (vpte (pmem s) pd va)" using assms(1,2) by (simp_all add: user_mem_def)
  have "m a = pmem s a" if "own (pmem s) pd a" for a using own_not_free [OF pt that] assms(3) by blast
  moreover have pd: "page_aligned pd" using pt_inv_dir [OF pt] by simp
  ultimately have pde: "pde m pd (PDX va) = pde (pmem s) pd (PDX va)"
    unfolding pde_def by (intro load_cong_page PDX_less) (simp_all add: own_def)
  have pp: "present (pde (pmem s) pd (PDX va))" using pr by (auto simp: vpte_def split: if_splits)
  have "load32 m (pgtab (pmem s) pd (PDX va) + 4 * PTX va) = load32 (pmem s) (pgtab (pmem s) pd (PDX va) + 4 * PTX va)"
  proof (intro load_cong_page PTX_less pt_inv_table(2) [OF pt PDX_less pp])
    fix a assume "in_page (pgtab (pmem s) pd (PDX va)) a"
    then have "own (pmem s) pd a" using pp PDX_less [of va] unfolding own_def by blast
    then show "m a = pmem s a" using own_not_free [OF pt] assms(3) by blast
  qed
  then show ?thesis using pde by (simp add: vpte_def pgtab_def)
qed

lemma vread_parent:
  assumes "user_mem s pd len X" and "unat va < len" and "\<And>a. \<not> in_pages X a \<Longrightarrow> m a = pmem s a"
  shows "vread pd m va = vread pd (pmem s) va"
proof -
  have pt: "pt_inv s pd X" and pr: "present (vpte (pmem s) pd va)" and g: "page_aligned (frame_of (pmem s) pd va)" "frame_of (pmem s) pd va \<notin> set X"
    using assms(1,2) by (simp_all add: user_mem_def)
  let ?a = "frame_of (pmem s) pd va + (va AND 0xFFF)"
  have "\<not> in_pages X ?a"
  proof
    assume "in_pages X ?a"
    then obtain y where y: "y \<in> set X" "in_page y ?a" by (auto simp: in_pages_def)
    have "page_aligned y" using pt y(1) by (auto simp: pt_inv_def pool_def dest: page_ok_aligned)
    then show False using in_page_disjoint [OF g(1) _ _ in_page_offset [OF g(1) unat_page_offset]] y g(2) by metis
  qed
  then have "m ?a = pmem s ?a" by (rule assms(3))
  then show ?thesis using vpte_parent [OF assms] pr by (simp add: vread_def vaddr_vpte frame_of_def)
qed

lemma copyuvm_spec:
  assumes "user_mem s pd (unat len) (x # X)" and "unat len \<le> 2 ^ 31"
    and "page_aligned (kdata s)" and "KERNLINK < kdata s" and "kdata s < p2v PHYSTOP"
    and "64 + 2 * ((unat len + 4095) div 4096) \<le> length X"
  shows "\<exists>t. copyuvm pd len s = Ok x t \<and>
    (\<forall>va. unat va < unat len \<longrightarrow> vread x (pmem t) va = vread pd (pmem s) va \<and> vread pd (pmem t) va = vread pd (pmem s) va \<and>
       frame_of (pmem t) x va \<in> set (x # X) \<and> frame_of (pmem s) pd va \<notin> set (x # X)) \<and>
    (\<forall>va. 2 ^ 31 \<le> unat va \<longrightarrow> vpte (pmem t) x va = kernel_pte (kdata s) va) \<and>
    (\<forall>a. \<not> in_pages (x # X) a \<longrightarrow> pmem t a = pmem s a) \<and> (\<exists>m f. t = s\<lparr>pmem := m, freelist := f\<rparr>)"
proof -
  have pl: "pool s (x # X)" using assms(1) by (simp add: user_mem_def pt_inv_def)
  then have x: "x \<noteq> 0" by (auto simp: pool_def)
  have "64 \<le> length X" using assms(6) by simp
  from setupkvm_ok [OF pl this assms(3-5)] obtain s1 ys zs where su: "setupkvm s = Ok x s1" and ys: "X = zs @ ys" "length zs \<le> 64"
    and inv: "pt_inv s1 x ys" and v: "vpte (pmem s1) x = kernel_pte (kdata s)"
    and out: "\<forall>a. \<not> in_pages (x # X) a \<longrightarrow> pmem s1 a = pmem s a" and ow: "\<forall>a. own (pmem s1) x a \<or> in_pages ys a \<longrightarrow> in_pages (x # X) a"
    and f1: "\<exists>m f. s1 = s\<lparr>pmem := m, freelist := f\<rparr>" by blast
  have cp: "copying (pmem s) (x # X) pd (unat len) (kernel_pte (kdata s)) x s1 ys 0"
    using inv v out ow ys(1) kernel_pte_low by (auto simp: copying_def)
  let ?N = "(unat len + 4095) div 4096"
  have "card (dirs 0 ?N - tabs (pmem s1) x) \<le> ?N"
    using card_mono [of "dirs 0 ?N" "dirs 0 ?N - tabs (pmem s1) x"] card_dirs [of 0 ?N] by simp
  then have en: "enough (unat len) x s1 ys 0" using assms(6) ys by (simp add: enough_def)
  from copy_loop [OF assms(1,2) cp en dvd_0_right] obtain t zs' j where c: "copyuvm_from pd x (unat len) 0 s1 = Ok x t"
    and cpt: "copying (pmem s) (x # X) pd (unat len) (kernel_pte (kdata s)) x t zs' j" and j: "unat len \<le> j"
    and f2: "\<exists>m f. t = s1\<lparr>pmem := m, freelist := f\<rparr>" by blast
  have "\<exists>m f. t = s\<lparr>pmem := m, freelist := f\<rparr>"
  proof -
    from f1 f2 obtain m f m' f' where "s1 = s\<lparr>pmem := m, freelist := f\<rparr>" "t = s1\<lparr>pmem := m', freelist := f'\<rparr>" by blast
    then have "t = s\<lparr>pmem := m', freelist := f'\<rparr>" by simp
    then show ?thesis by blast
  qed
  moreover have "copyuvm pd len s = Ok x t" using su c x by (simp add: copyuvm_def)
  moreover have o: "\<forall>a. \<not> in_pages (x # X) a \<longrightarrow> pmem t a = pmem s a" using cpt by (simp add: copying_def)
  moreover have "vread x (pmem t) va = vread pd (pmem s) va \<and> vread pd (pmem t) va = vread pd (pmem s) va \<and>
       frame_of (pmem t) x va \<in> set (x # X) \<and> frame_of (pmem s) pd va \<notin> set (x # X)" if l: "unat va < unat len" for va
  proof -
    have cd: "copied (pmem s) pd (x # X) x t zs' va" using cpt l j by (simp add: copying_def)
    have u: "present (vpte (pmem s) pd va)" "frame_of (pmem s) pd va \<notin> set (x # X)" using assms(1) l by (simp_all add: user_mem_def)
    have "vread pd (pmem t) va = vread pd (pmem s) va" using vread_parent [OF assms(1) l] o by blast
    then show ?thesis using vread_copied [OF cd u(1)] u(2) cd by (simp add: copied_def)
  qed
  moreover have "\<forall>va. 2 ^ 31 \<le> unat va \<longrightarrow> vpte (pmem t) x va = kernel_pte (kdata s) va" using cpt by (simp add: copying_def)
  ultimately show ?thesis by blast
qed

text \<open>C13. \<^verbatim>\<open>copyuvm\<close> gives a forked process its own copy of its parent's memory: with enough free pages it returns a new page table
  through which every user address below the size reads the byte the parent has there; the parent still reads the same bytes; each
  of the child's pages comes from the free list, so none is a page of the parent or of anyone else; the kernel half is the kernel's mapping;
  and no memory outside the free list is changed.\<close>

theorem copyuvm_copies:
  assumes "user_mem s pd (unat len) (x # X)" and "unat len \<le> 2 ^ 31"
    and "page_aligned (kdata s)" and "KERNLINK < kdata s" and "kdata s < p2v PHYSTOP"
    and "64 + 2 * ((unat len + 4095) div 4096) \<le> length X"
  shows "\<exists>t. copyuvm pd len s = Ok x t \<and>
    (\<forall>va. unat va < unat len \<longrightarrow> vread x (pmem t) va = vread pd (pmem s) va \<and> vread pd (pmem t) va = vread pd (pmem s) va \<and>
       frame_of (pmem t) x va \<in> set (x # X) \<and> frame_of (pmem s) pd va \<notin> set (x # X)) \<and>
    (\<forall>va. 2 ^ 31 \<le> unat va \<longrightarrow> vpte (pmem t) x va = kernel_pte (kdata s) va) \<and>
    (\<forall>a. \<not> in_pages (x # X) a \<longrightarrow> pmem t a = pmem s a)"
  using copyuvm_spec [OF assms] by blast

text \<open>A process of one page, built by \<^verbatim>\<open>setupkvm\<close>, \<^verbatim>\<open>kalloc\<close> and \<^verbatim>\<open>mappages\<close> on the memory of a freshly booted kernel.\<close>

lemma one_page_process:
  "\<exists>(s :: kmem) pd x X. user_mem s pd 4096 (x # X) \<and> 67 \<le> length X \<and> page_aligned (kdata s) \<and> KERNLINK < kdata s \<and> kdata s < p2v PHYSTOP"
proof -
  from boot_kernel obtain s :: kmem and pd xs where a: "pool s (pd # xs)" "length xs = 149" "page_aligned (kdata s)" "KERNLINK < kdata s"
    "kdata s < p2v PHYSTOP" by blast
  then have "64 \<le> length xs" by simp
  from setupkvm_ok [OF a(1) this a(3-5)] obtain s1 ys zs m f where s1: "xs = zs @ ys" "length zs \<le> 64" "pt_inv s1 pd ys"
    "vpte (pmem s1) pd = kernel_pte (kdata s)" "s1 = s\<lparr>pmem := m, freelist := f\<rparr>" by blast
  obtain g ws where ys: "ys = g # ws" "84 \<le> length ws" using a(2) s1(1,2) by (cases ys) auto
  define s2 where "s2 = s1\<lparr>freelist := load32 (pmem s1) g\<rparr>"
  note al = pt_inv_alloc [OF s1(3) [unfolded ys], folded s2_def]
  have "vpn 0 = 0" by (simp add: vpn_def)
  have np: "\<not> present (vpte (pmem s2) pd 0)" using s1(4) kernel_pte_low [of 0] by (simp add: s2_def)
  have "card ({PDX 0} - tabs (pmem s2) pd) \<le> card {PDX 0}" by (rule card_mono) auto
  then have c: "card ({PDX 0} - tabs (pmem s2) pd) \<le> length ws" using ys(2) by simp
  from map_page [OF al(2) _ np c, of "v2p g" "PTE_W OR PTE_U"] obtain t vs m' f' us where t: "pt_inv t pd vs" "t = s2\<lparr>pmem := m', freelist := f'\<rparr>"
      "ws = us @ vs" "length ws = length vs + card (tabs (pmem t) pd - tabs (pmem s2) pd)" "tabs (pmem t) pd = insert (PDX 0) (tabs (pmem s2) pd)"
      "\<forall>u. vpte (pmem t) pd u = (if vpn u = vpn 0 then v2p g OR (PTE_W OR PTE_U) OR PTE_P else vpte (pmem s2) pd u)"
    by (auto simp: pt_ext_def page_aligned_def)
  have "card (tabs (pmem t) pd - tabs (pmem s2) pd) \<le> card {PDX 0}" unfolding t(5) by (rule card_mono) auto
  then obtain x X where vs: "vs = x # X" "67 \<le> length X" using t(4) ys(2) by (cases vs) auto
  have "distinct ys" using s1(3) by (simp add: pt_inv_def pool_def)
  then have g: "g \<notin> set vs" using ys(1) t(3) by auto
  have e: "vpte (pmem t) pd va = v2p g OR (PTE_W OR PTE_U) OR PTE_P" if "unat va < 4096" for va
    using t(6) that by (simp add: vpn_def)
  have "p2v (v2p g) = g" by (simp add: p2v_def v2p_def)
  then have "user_mem t pd 4096 vs"
    using t(1) e user_entry [OF al(5)] al(5) g by (simp add: user_mem_def frame_of_def)
  moreover have "kdata t = kdata s" by (simp add: t(2) s2_def s1(5))
  ultimately show ?thesis using vs a(3-5) by (intro exI [of _ t] exI [of _ pd] exI [of _ x] exI [of _ X]) simp
qed

theorem copyuvm_copies_witness:
  "\<exists>(s :: kmem) pd x t. copyuvm pd 4096 s = Ok x t \<and> vread x (pmem t) 0x123 = vread pd (pmem s) 0x123 \<and> vread x (pmem t) 0x123 \<noteq> None \<and>
     frame_of (pmem t) x 0x123 \<noteq> frame_of (pmem t) pd 0x123"
proof -
  from one_page_process obtain s :: kmem and pd x X where u: "user_mem s pd 4096 (x # X)" "67 \<le> length X"
    "page_aligned (kdata s)" "KERNLINK < kdata s" "kdata s < p2v PHYSTOP" by blast
  have n: "unat (4096 :: uint) = 4096" "unat (0x123 :: uint) = 0x123" by simp_all
  from copyuvm_copies [of s pd 4096 x X, unfolded n, OF u(1) _ u(3-5)] u(2) obtain t where t: "copyuvm pd 4096 s = Ok x t"
    "\<forall>va. unat va < 4096 \<longrightarrow> vread x (pmem t) va = vread pd (pmem s) va \<and> vread pd (pmem t) va = vread pd (pmem s) va \<and>
       frame_of (pmem t) x va \<in> set (x # X) \<and> frame_of (pmem s) pd va \<notin> set (x # X)"
    "\<forall>a. \<not> in_pages (x # X) a \<longrightarrow> pmem t a = pmem s a" by auto
  have v: "vread x (pmem t) 0x123 = vread pd (pmem s) 0x123" and f: "frame_of (pmem t) x 0x123 \<in> set (x # X)" "frame_of (pmem s) pd 0x123 \<notin> set (x # X)"
    using t(2) n(2) by simp_all
  have pr: "present (vpte (pmem s) pd 0x123)" using u(1) n(2) by (simp add: user_mem_def)
  have "vpte (pmem t) pd 0x123 = vpte (pmem s) pd 0x123" 
  proof (rule vpte_parent [OF u(1)])
    show "unat (0x123 :: uint) < 4096" by simp
    show "\<And>a. \<not> in_pages (x # X) a \<Longrightarrow> pmem t a = pmem s a" using t(3) by blast
  qed
  then have "frame_of (pmem t) pd 0x123 = frame_of (pmem s) pd 0x123" by (simp add: frame_of_def)
  moreover have "vread pd (pmem s) 0x123 \<noteq> None" using pr by (simp add: vread_def vaddr_vpte)
  moreover have "frame_of (pmem t) x 0x123 \<noteq> frame_of (pmem s) pd 0x123" using f by metis
  ultimately show ?thesis using t(1) v by (intro exI [of _ s] exI [of _ pd] exI [of _ x] exI [of _ t]) (simp only: simp_thms not_False_eq_True)
qed

end
