(* ===== verification/Proc.thy ===== *)
theory Proc
  imports File Vm
begin

text \<open>
  Process creation and termination (\<^verbatim>\<open>proc.c\<close>): \<^verbatim>\<open>allocproc\<close>, \<^verbatim>\<open>userinit\<close>, \<^verbatim>\<open>growproc\<close>, \<^verbatim>\<open>fork\<close>,
  \<^verbatim>\<open>exit\<close>, \<^verbatim>\<open>wait\<close>, \<^verbatim>\<open>wait2\<close>, \<^verbatim>\<open>forkret\<close>. The state gains the addresses of the assembly labels
  \<^verbatim>\<open>trapret\<close> and \<^verbatim>\<open>forkret\<close> and the static variable \<^verbatim>\<open>first\<close> of \<^verbatim>\<open>forkret\<close>. The trap frame is kept in the
  process entry, where \<^verbatim>\<open>p->tf\<close> points.
\<close>

section \<open>State\<close>

record proc_st = file_st +
  a_trapret :: uint
  a_forkret :: uint
  forkret_first :: bool

definition KSTACKSIZE :: uint where "KSTACKSIZE = 4096"
definition SEG_UCODE :: uint where "SEG_UCODE = 4"
definition SEG_UDATA :: uint where "SEG_UDATA = 5"
definition DPL_USER :: uint where "DPL_USER = 3"
definition FL_IF :: uint where "FL_IF = 0x200"

definition getproc :: "'a sched_scheme \<Rightarrow> nat \<Rightarrow> proc" where
  "getproc s i = ptable s ! i"

definition setproc :: "nat \<Rightarrow> proc \<Rightarrow> 'a sched_scheme \<Rightarrow> 'a sched_scheme" where
  "setproc i p s = s\<lparr>ptable := (ptable s)[i := p]\<rparr>"

text \<open>The current process; a routine of this theory runs only in the context of one.\<close>

definition with_proc :: "'a sched_scheme \<Rightarrow> (nat \<Rightarrow> ('b, 'a sched_scheme) outcome) \<Rightarrow> ('b, 'a sched_scheme) outcome" where
  "with_proc s f = (case curproc s of Some i \<Rightarrow> f i | None \<Rightarrow> Fault ''proc'')"

section \<open>Creation\<close>

definition star :: uint where "star = 42"

definition allocproc :: "'a proc_st_scheme \<Rightarrow> (nat option, 'a proc_st_scheme) outcome" where
  "allocproc s =
     (case List.find (\<lambda>i. state (getproc s i) = UNUSED) [0..<NPROC] of
        None \<Rightarrow> Ok None s
      | Some i \<Rightarrow>
          let s = setproc i ((getproc s i)\<lparr>state := EMBRYO, pid := nextpid s, ctime := ticks s,
                    retime := 0, rutime := 0, stime := 0, fake := replicate 8 star\<rparr>) s;
              s = s\<lparr>nextpid := nextpid s + 1\<rparr> in
          call (kalloc s) (\<lambda>k s.
          let s = setproc i ((getproc s i)\<lparr>kstack := k\<rparr>) s in
          if k = 0 then Ok None (setproc i ((getproc s i)\<lparr>state := UNUSED\<rparr>) s)
          else
            let sp = k + KSTACKSIZE - 76 - 4;
                s = wr sp (a_trapret s) s;
                sp = sp - 20;
                s = setproc i ((getproc s i)\<lparr>pcontext := sp\<rparr>) s;
                s = s\<lparr>pmem := memset sp 0 20 (pmem s)\<rparr>
            in Ok (Some i) (wr (sp + 16) (a_forkret s) s)))"

definition userinit :: "byte list \<Rightarrow> 'a proc_st_scheme \<Rightarrow> (unit, 'a proc_st_scheme) outcome" where
  "userinit initcode s =
     call (allocproc s) (\<lambda>po s.
     let s = s\<lparr>initproc := po\<rparr> in
     case po of
       None \<Rightarrow> Fault ''userinit''
     | Some i \<Rightarrow>
         call (setupkvm s) (\<lambda>pd s.
         let s = setproc i ((getproc s i)\<lparr>pgdir := pd\<rparr>) s in
         if pd = 0 then Panic ''userinit: out of memory?''
         else
           call (inituvm pd initcode s) (\<lambda>_ s.
           let ds = push_bit 3 SEG_UDATA OR DPL_USER;
               frame = \<lparr>tf_eax = 0, tf_eip = 0, tf_esp = PGSIZE, tf_cs = push_bit 3 SEG_UCODE OR DPL_USER,
                        tf_ds = ds, tf_es = ds, tf_ss = ds, tf_eflags = FL_IF, tf_trapno = 0\<rparr>;
               s = setproc i ((getproc s i)\<lparr>sz := PGSIZE, tf := frame,
                     pname := safestrcpy (pname (getproc s i)) (lptr (str ''initcode'')) 16\<rparr>) s in
           call (namei [slash] s) (\<lambda>ip s.
           Ok () (setproc i ((getproc s i)\<lparr>cwd := ip, state := RUNNABLE\<rparr>) s)))))"

definition growproc :: "int \<Rightarrow> 'a proc_st_scheme \<Rightarrow> (int, 'a proc_st_scheme) outcome" where
  "growproc n s =
     with_proc s (\<lambda>i.
     let p = getproc s i in
     call (if n > 0 then allocuvm (pgdir p) (sz p) (sz p + of_int n) s
           else if n < 0 then deallocuvm (pgdir p) (sz p) (sz p + of_int n) s
           else Ok (sz p) s) (\<lambda>sz' s.
     if n \<noteq> 0 \<and> sz' = 0 then Ok (- 1) s
     else if pgdir (getproc s i) = 0 then Panic ''switchuvm: no pgdir''
     else Ok 0 (setproc i ((getproc s i)\<lparr>sz := sz'\<rparr>) s)))"

text \<open>The loop of \<^verbatim>\<open>fork\<close> over the parent's open files.\<close>

fun dup_files :: "nat list \<Rightarrow> nat \<Rightarrow> nat \<Rightarrow> 'a proc_st_scheme \<Rightarrow> (unit, 'a proc_st_scheme) outcome" where
  "dup_files [] i np s = Ok () s"
| "dup_files (fd # fds) i np s =
     (case ofile (getproc s i) ! fd of
        None \<Rightarrow> dup_files fds i np s
      | Some f \<Rightarrow>
          call (filedup f s) (\<lambda>f s.
          dup_files fds i np (setproc np ((getproc s np)\<lparr>ofile := (ofile (getproc s np))[fd := Some f]\<rparr>) s)))"

definition fork :: "'a proc_st_scheme \<Rightarrow> (int, 'a proc_st_scheme) outcome" where
  "fork s =
     with_proc s (\<lambda>i.
     call (allocproc s) (\<lambda>po s.
     case po of
       None \<Rightarrow> Ok (- 1) s
     | Some np \<Rightarrow>
         call (copyuvm (pgdir (getproc s i)) (sz (getproc s i)) s) (\<lambda>d s.
         let s = setproc np ((getproc s np)\<lparr>pgdir := d\<rparr>) s in
         if d = 0 then
           call (kfree (kstack (getproc s np)) s) (\<lambda>_ s.
           Ok (- 1) (setproc np ((getproc s np)\<lparr>kstack := 0, state := UNUSED\<rparr>) s))
         else
           let p = getproc s i;
               s = setproc np ((getproc s np)\<lparr>sz := sz p, parent := Some i, tf := (tf p)\<lparr>tf_eax := 0\<rparr>\<rparr>) s in
           call (dup_files [0..<NOFILE] i np s) (\<lambda>_ s.
           case cwd (getproc s i) of
             None \<Rightarrow> Fault ''idup''
           | Some dp \<Rightarrow>
               call (idup dp s) (\<lambda>dp s.
               let q = (getproc s np)\<lparr>cwd := Some dp, state := RUNNABLE\<rparr>
               in Ok (sint (pid q))
                    (setproc np (q\<lparr>pname := safestrcpy (pname q) (lptr (pname (getproc s i))) 16\<rparr>) s))))))"

section \<open>Termination\<close>

fun close_files :: "nat list \<Rightarrow> nat \<Rightarrow> 'a proc_st_scheme \<Rightarrow> (unit, 'a proc_st_scheme) outcome" where
  "close_files [] i s = Ok () s"
| "close_files (fd # fds) i s =
     (case ofile (getproc s i) ! fd of
        None \<Rightarrow> close_files fds i s
      | Some f \<Rightarrow>
          call (fileclose f s) (\<lambda>_ s.
          close_files fds i (setproc i ((getproc s i)\<lparr>ofile := (ofile (getproc s i))[fd := None]\<rparr>) s)))"

text \<open>\<^verbatim>\<open>wakeup1(proc->parent)\<close>: the channel is the parent's table entry, or the null pointer.\<close>

definition wakeup1_ptr :: "nat option \<Rightarrow> proc list \<Rightarrow> proc list" where
  "wakeup1_ptr po tab =
     map (\<lambda>p. if state p = SLEEPING \<and> pchan p = map_option ChProc po then p\<lparr>state := RUNNABLE\<rparr> else p) tab"

fun pass_children :: "nat list \<Rightarrow> nat \<Rightarrow> 'a sched_scheme \<Rightarrow> 'a sched_scheme" where
  "pass_children [] i s = s"
| "pass_children (k # ks) i s =
     (if parent (getproc s k) = Some i then
        let s = setproc k ((getproc s k)\<lparr>parent := initproc s\<rparr>) s
        in pass_children ks i
             (if state (getproc s k) = ZOMBIE then s\<lparr>ptable := wakeup1_ptr (initproc s) (ptable s)\<rparr> else s)
      else pass_children ks i s)"

text \<open>\<^verbatim>\<open>exit\<close> does not return: its result is the state in which the CPU is back in \<^verbatim>\<open>scheduler\<close>.\<close>

definition exit :: "'a proc_st_scheme \<Rightarrow> (unit, 'a proc_st_scheme) outcome" where
  "exit s =
     with_proc s (\<lambda>i.
     if initproc s = Some i then Panic ''init exiting''
     else
       call (close_files [0..<NOFILE] i s) (\<lambda>_ s.
       case cwd (getproc s i) of
         None \<Rightarrow> Fault ''iput''
       | Some dp \<Rightarrow>
           call (iput dp s) (\<lambda>_ s.
           let s = setproc i ((getproc s i)\<lparr>cwd := None\<rparr>) s;
               s = s\<lparr>ptable := wakeup1_ptr (parent (getproc s i)) (ptable s)\<rparr>;
               s = pass_children [0..<NPROC] i s
           in sched_switch (setproc i ((getproc s i)\<lparr>state := ZOMBIE\<rparr>) s))))"

definition children :: "nat \<Rightarrow> 'a sched_scheme \<Rightarrow> nat list" where
  "children i s = filter (\<lambda>k. parent (getproc s k) = Some i) [0..<NPROC]"

definition find_zombie :: "nat \<Rightarrow> 'a sched_scheme \<Rightarrow> nat option" where
  "find_zombie i s = List.find (\<lambda>k. state (getproc s k) = ZOMBIE) (children i s)"

text \<open>The release of a zombie's resources that \<^verbatim>\<open>wait\<close> and \<^verbatim>\<open>wait2\<close> share, and the end of both when no
  child is a zombie.\<close>

definition reap :: "nat \<Rightarrow> 'a proc_st_scheme \<Rightarrow> (int, 'a proc_st_scheme) outcome" where
  "reap k s =
     (let p = pid (getproc s k) in
      call (kfree (kstack (getproc s k)) s) (\<lambda>_ s.
      call (freevm (pgdir (getproc s k)) (setproc k ((getproc s k)\<lparr>kstack := 0\<rparr>) s)) (\<lambda>_ s.
      Ok (sint p) (setproc k ((getproc s k)\<lparr>state := UNUSED, pid := 0, parent := None,
                     pname := (pname (getproc s k))[0 := 0], killed := False\<rparr>) s))))"

definition wait_more :: "nat \<Rightarrow> 'a proc_st_scheme \<Rightarrow> (int, 'a proc_st_scheme) outcome" where
  "wait_more i s =
     (if children i s = [] \<or> killed (getproc s i) then Ok (- 1) s else Sleep (ChProc i) s)"

definition wait :: "'a proc_st_scheme \<Rightarrow> (int, 'a proc_st_scheme) outcome" where
  "wait s =
     with_proc s (\<lambda>i.
     case find_zombie i s of Some k \<Rightarrow> reap k s | None \<Rightarrow> wait_more i s)"

text \<open>A store of a 32-bit word through a user pointer.\<close>

definition put_user :: "uint \<Rightarrow> uint \<Rightarrow> 'a sched_scheme \<Rightarrow> (unit, 'a sched_scheme) outcome" where
  "put_user va w s =
     with_proc s (\<lambda>i.
     case vwrite_bytes (pgdir (getproc s i)) va
            [ucast w, ucast (drop_bit 8 w), ucast (drop_bit 16 w), ucast (drop_bit 24 w)] (pmem s) of
       None \<Rightarrow> Fault ''page fault''
     | Some m \<Rightarrow> Ok () (s\<lparr>pmem := m\<rparr>))"

definition wait2 :: "uint \<Rightarrow> uint \<Rightarrow> uint \<Rightarrow> 'a proc_st_scheme \<Rightarrow> (int, 'a proc_st_scheme) outcome" where
  "wait2 retime_p rutime_p stime_p s =
     with_proc s (\<lambda>i.
     case find_zombie i s of
       Some k \<Rightarrow>
         call (put_user retime_p (retime (getproc s k)) s) (\<lambda>_ s.
         call (put_user rutime_p (rutime (getproc s k)) s) (\<lambda>_ s.
         call (put_user stime_p (stime (getproc s k)) s) (\<lambda>_ s.
         call (reap k s) (\<lambda>p s.
         Ok p (setproc k ((getproc s k)\<lparr>ctime := 0, retime := 0, rutime := 0, stime := 0, priority := 0\<rparr>) s)))))
     | None \<Rightarrow> wait_more i s)"

section \<open>First scheduling\<close>

definition forkret :: "'a proc_st_scheme \<Rightarrow> (unit, 'a proc_st_scheme) outcome" where
  "forkret s = (if forkret_first s then initlog (s\<lparr>forkret_first := False\<rparr>) else Ok () s)"

end
