(* ===== verification/Syscall.thy ===== *)
theory Syscall
  imports Proc
begin

text \<open>
  System call arguments (\<^verbatim>\<open>syscall.c\<close>): the checks that a user pointer lies inside the process and the
  reads through it. A user address is read through the current page table; a pointer to a string
  that the kernel goes on to use is represented by the bytes of the string.
\<close>

section \<open>User memory\<close>

definition cur_sz :: "nat \<Rightarrow> 'a sched_scheme \<Rightarrow> uint" where
  "cur_sz i s = sz (getproc s i)"

definition get_user :: "uint \<Rightarrow> nat \<Rightarrow> 'a sched_scheme \<Rightarrow> (byte list, 'a sched_scheme) outcome" where
  "get_user va n s =
     with_proc s (\<lambda>i.
     case vread_bytes (pgdir (getproc s i)) (pmem s) va n of
       None \<Rightarrow> Fault ''page fault''
     | Some bs \<Rightarrow> Ok bs s)"

definition put_user_bytes :: "uint \<Rightarrow> byte list \<Rightarrow> 'a sched_scheme \<Rightarrow> (unit, 'a sched_scheme) outcome" where
  "put_user_bytes va bs s =
     with_proc s (\<lambda>i.
     case vwrite_bytes (pgdir (getproc s i)) va bs (pmem s) of
       None \<Rightarrow> Fault ''page fault''
     | Some m \<Rightarrow> Ok () (s\<lparr>pmem := m\<rparr>))"

section \<open>Arguments\<close>

text \<open>The result \<open>None\<close> is the return value \<^verbatim>\<open>-1\<close>.\<close>

definition fetchint :: "uint \<Rightarrow> 'a sched_scheme \<Rightarrow> (uint option, 'a sched_scheme) outcome" where
  "fetchint addr s =
     with_proc s (\<lambda>i.
     if addr \<ge> cur_sz i s \<or> addr + 4 > cur_sz i s then Ok None s
     else call (get_user addr 4 s) (\<lambda>bs s. Ok (Some (get32 0 bs)) s))"

text \<open>The loop of \<^verbatim>\<open>fetchstr\<close> with \<open>n\<close> addresses left below \<^verbatim>\<open>proc->sz\<close>.\<close>

fun fetchstr_from :: "nat \<Rightarrow> uint \<Rightarrow> 'a sched_scheme \<Rightarrow> (byte list option, 'a sched_scheme) outcome" where
  "fetchstr_from 0 va s = Ok None s"
| "fetchstr_from (Suc n) va s =
     call (get_user va 1 s) (\<lambda>bs s.
     if hd bs = 0 then Ok (Some []) s
     else call (fetchstr_from n (va + 1) s) (\<lambda>r s. Ok (map_option ((#) (hd bs)) r) s))"

definition fetchstr :: "uint \<Rightarrow> 'a sched_scheme \<Rightarrow> (byte list option, 'a sched_scheme) outcome" where
  "fetchstr addr s =
     with_proc s (\<lambda>i.
     if addr \<ge> cur_sz i s then Ok None s
     else fetchstr_from (unat (cur_sz i s) - unat addr) addr s)"

definition argint :: "nat \<Rightarrow> 'a sched_scheme \<Rightarrow> (uint option, 'a sched_scheme) outcome" where
  "argint n s = with_proc s (\<lambda>i. fetchint (tf_esp (tf (getproc s i)) + 4 + 4 * of_nat n) s)"

definition argptr :: "nat \<Rightarrow> int \<Rightarrow> 'a sched_scheme \<Rightarrow> (uint option, 'a sched_scheme) outcome" where
  "argptr n len s =
     with_proc s (\<lambda>i.
     call (argint n s) (\<lambda>a s.
     case a of
       None \<Rightarrow> Ok None s
     | Some a \<Rightarrow>
         if a \<ge> cur_sz i s \<or> a + of_int len > cur_sz i s then Ok None s else Ok (Some a) s))"

definition argstr :: "nat \<Rightarrow> 'a sched_scheme \<Rightarrow> (byte list option, 'a sched_scheme) outcome" where
  "argstr n s =
     call (argint n s) (\<lambda>a s.
     case a of None \<Rightarrow> Ok None s | Some a \<Rightarrow> fetchstr a s)"

text \<open>Continue with the value of an argument, or return \<open>r\<close> when its check fails.\<close>

definition arg :: "('b option, 's) outcome \<Rightarrow> int \<Rightarrow> ('b \<Rightarrow> 's \<Rightarrow> (int, 's) outcome) \<Rightarrow> (int, 's) outcome" where
  "arg m r f = call m (\<lambda>a s. case a of None \<Rightarrow> Ok r s | Some x \<Rightarrow> f x s)"

end
