(* ===== verification/Exec.thy ===== *)
theory Exec
  imports Syscall
begin

text \<open>
  \<^verbatim>\<open>exec\<close> (\<^verbatim>\<open>exec.c\<close>, \<^verbatim>\<open>elf.h\<close>): the ELF header and the program headers are read from the file, the
  segments and the stack are built in a new page table, and the process switches to it only when
  everything succeeded. Reading the header structure when \<^verbatim>\<open>readi\<close> has not filled it
  is a \<open>Fault\<close>.
\<close>

section \<open>ELF headers\<close>

definition ELF_MAGIC :: uint where "ELF_MAGIC = 0x464C457F"
definition ELF_PROG_LOAD :: uint where "ELF_PROG_LOAD = 1"
definition MAXARG :: nat where "MAXARG = 32"

record elfhdr =
  e_magic :: uint
  e_entry :: uint
  e_phoff :: uint
  e_phnum :: ushort

definition elfhdr_size :: nat where "elfhdr_size = 52"

definition elfhdr_of :: "byte list \<Rightarrow> elfhdr" where
  "elfhdr_of d = \<lparr>e_magic = get32 0 d, e_entry = get32 24 d, e_phoff = get32 28 d, e_phnum = get16 44 d\<rparr>"

record proghdr =
  ph_type :: uint
  ph_off :: uint
  ph_vaddr :: uint
  ph_filesz :: uint
  ph_memsz :: uint

definition proghdr_size :: nat where "proghdr_size = 32"

definition proghdr_of :: "byte list \<Rightarrow> proghdr" where
  "proghdr_of d =
     \<lparr>ph_type = get32 0 d, ph_off = get32 4 d, ph_vaddr = get32 8 d, ph_filesz = get32 16 d, ph_memsz = get32 20 d\<rparr>"

section \<open>Loading\<close>

text \<open>The label \<^verbatim>\<open>bad\<close>.\<close>

definition exec_bad :: "uint \<Rightarrow> nat option \<Rightarrow> 'a proc_st_scheme \<Rightarrow> (int, 'a proc_st_scheme) outcome" where
  "exec_bad pd ip s =
     call (if pd \<noteq> 0 then freevm pd s else Ok () s) (\<lambda>_ s.
     call (case ip of Some ip \<Rightarrow> iunlockput ip s | None \<Rightarrow> Ok () s) (\<lambda>_ s.
     Ok (- 1) s))"

text \<open>The loop over the program headers; \<open>r\<close> headers are left. The result is the size of the image, or
  \<open>None\<close> for a jump to \<^verbatim>\<open>bad\<close>.\<close>

fun exec_load :: "nat \<Rightarrow> uint \<Rightarrow> uint \<Rightarrow> nat \<Rightarrow> uint \<Rightarrow> 'a proc_st_scheme \<Rightarrow> (uint option, 'a proc_st_scheme) outcome" where
  "exec_load 0 pd off ip len s = Ok (Some len) s"
| "exec_load (Suc r) pd off ip len s =
     call (readi ip off (of_nat proghdr_size) s) (\<lambda>(n, bs) s.
     if n \<noteq> int proghdr_size then Ok None s
     else
       let ph = proghdr_of bs; off' = off + of_nat proghdr_size in
       if ph_type ph \<noteq> ELF_PROG_LOAD then exec_load r pd off' ip len s
       else if ph_memsz ph < ph_filesz ph then Ok None s
       else
         call (allocuvm pd len (ph_vaddr ph + ph_memsz ph) s) (\<lambda>len s.
         if len = 0 then Ok None s
         else
           call (loaduvm pd (ph_vaddr ph) ip (ph_off ph) (ph_filesz ph) s) (\<lambda>ok s.
           if \<not> ok then Ok None s else exec_load r pd off' ip len s)))"

section \<open>The stack\<close>

text \<open>The loop that pushes the argument strings: the new stack pointer and the addresses of the strings.\<close>

fun push_args :: "nat \<Rightarrow> uint \<Rightarrow> byte list list \<Rightarrow> uint \<Rightarrow> 'a kmem_scheme \<Rightarrow> ((uint \<times> uint list) option, 'a kmem_scheme) outcome" where
  "push_args argc pd [] sp s = Ok (Some (sp, [])) s"
| "push_args argc pd (a # as) sp s =
     (if argc \<ge> MAXARG then Ok None s
      else
        let sp = (sp - (of_nat (length a) + 1)) AND NOT 3 in
        call (copyout pd sp (a @ [0]) s) (\<lambda>ok s.
        if \<not> ok then Ok None s
        else
          call (push_args (Suc argc) pd as sp s) (\<lambda>r s.
          Ok (map_option (\<lambda>(sp', us). (sp', sp # us)) r) s)))"

definition word_bytes :: "uint \<Rightarrow> byte list" where
  "word_bytes w = [ucast w, ucast (drop_bit 8 w), ucast (drop_bit 16 w), ucast (drop_bit 24 w)]"

definition ustack :: "uint \<Rightarrow> uint list \<Rightarrow> byte list" where
  "ustack sp us =
     concat (map word_bytes ([0xFFFFFFFF, of_nat (length us), sp - (of_nat (length us) + 1) * 4] @ us @ [0]))"

text \<open>The stack pages and the arguments; the result is the size of the image and the stack pointer.\<close>

definition exec_stack :: "uint \<Rightarrow> uint \<Rightarrow> byte list list \<Rightarrow> 'a cons_st_scheme \<Rightarrow> ((uint \<times> uint) option, 'a cons_st_scheme) outcome" where
  "exec_stack pd len argv s =
     call (allocuvm pd (PGROUNDUP len) (PGROUNDUP len + 2 * PGSIZE) s) (\<lambda>len s.
     if len = 0 then Ok None s
     else
       call (clearpteu pd (len - 2 * PGSIZE) s) (\<lambda>_ s.
       call (push_args 0 pd argv len s) (\<lambda>r s.
       case r of
         None \<Rightarrow> Ok None s
       | Some (sp, us) \<Rightarrow>
           let sp' = sp - (3 + of_nat (length us) + 1) * 4 in
           call (copyout pd sp' (ustack sp us) s) (\<lambda>ok s.
           Ok (if ok then Some (len, sp') else None) s))))"

text \<open>The loop that finds the last element of the path.\<close>

fun last_elem :: "byte list \<Rightarrow> byte list \<Rightarrow> byte list" where
  "last_elem l [] = l"
| "last_elem l (c # cs) = last_elem (if c = slash then cs else l) cs"

definition exec :: "byte list \<Rightarrow> byte list list \<Rightarrow> 'a proc_st_scheme \<Rightarrow> (int, 'a proc_st_scheme) outcome" where
  "exec path argv s =
     with_proc s (\<lambda>i.
     call (namei path s) (\<lambda>ipo s.
     case ipo of
       None \<Rightarrow> Ok (- 1) s
     | Some ip \<Rightarrow>
         call (ilock ip s) (\<lambda>_ s.
         call (readi ip 0 (of_nat elfhdr_size) s) (\<lambda>(n, bs) s.
         if 0 \<le> n \<and> n < int elfhdr_size then exec_bad 0 (Some ip) s
         else if n < 0 then Fault ''elf''
         else
           let elf = elfhdr_of bs in
           if e_magic elf \<noteq> ELF_MAGIC then exec_bad 0 (Some ip) s
           else
             call (setupkvm s) (\<lambda>pd s.
             if pd = 0 then exec_bad 0 (Some ip) s
             else
               call (exec_load (unat (e_phnum elf)) pd (e_phoff elf) ip 0 s) (\<lambda>r s.
               case r of
                 None \<Rightarrow> exec_bad pd (Some ip) s
               | Some len \<Rightarrow>
                   call (iunlockput ip s) (\<lambda>_ s.
                   call (exec_stack pd len argv s) (\<lambda>r s.
                   case r of
                     None \<Rightarrow> exec_bad pd None s
                   | Some (len, sp) \<Rightarrow>
                       let p = getproc s i; oldpgdir = pgdir p;
                           p = p\<lparr>pname := safestrcpy (pname p) (lptr (last_elem path path)) 16, pgdir := pd, sz := len,
                                tf := (tf p)\<lparr>tf_eip := e_entry elf, tf_esp := sp\<rparr>\<rparr>
                       in call (freevm oldpgdir (setproc i p s)) (\<lambda>_ s. Ok 0 s)))))))))"

end
