(* ===== verification/Proc_Frame.thy ===== *)
theory Proc_Frame
  imports Exec
begin

text \<open>
  What the memory and file-system code does to the process table: nothing, except that a \<^verbatim>\<open>wakeup\<close> may
  make sleeping processes runnable. The relation \<open>pkeep\<close> says so of two states, \<open>keeps\<close> of a routine
  run from a state; each routine below \<^verbatim>\<open>proc.c\<close> has its lemma in the collection \<open>frame\<close>.
\<close>

named_theorems frame \<open>routines that leave the process table alone\<close>

section \<open>The relation\<close>

definition woken :: "proc \<Rightarrow> proc \<Rightarrow> bool" where
  "woken p q \<longleftrightarrow> q = p \<or> state p = SLEEPING \<and> q = p\<lparr>state := RUNNABLE\<rparr>"

definition pkeep :: "'a sched_scheme \<Rightarrow> 'a sched_scheme \<Rightarrow> bool" where
  "pkeep s t \<longleftrightarrow>
     list_all2 woken (ptable s) (ptable t) \<and> curproc t = curproc s \<and> initproc t = initproc s \<and>
     nextpid t = nextpid s \<and> ticks t = ticks s"

definition keeps :: "'a sched_scheme \<Rightarrow> ('b, 'a sched_scheme) outcome \<Rightarrow> bool" where
  "keeps s m \<longleftrightarrow> (case m of Ok _ t \<Rightarrow> pkeep s t | Sleep _ t \<Rightarrow> pkeep s t | _ \<Rightarrow> True)"

lemma keeps_simps [simp]:
  "keeps s (Ok a t) = pkeep s t" "keeps s (Sleep c t) = pkeep s t" "keeps s (Panic m)" "keeps s (Fault m)"
  by (simp_all add: keeps_def)

lemma woken_refl [simp]: "woken p p"
  by (simp add: woken_def)

lemma list_all2_woken_refl [simp]: "list_all2 woken tab tab"
  by (simp add: list_all2_refl)

lemma pkeep_refl [simp]: "pkeep s s"
  by (simp add: pkeep_def)

lemma pkeep_trans: "pkeep s t \<Longrightarrow> pkeep t u \<Longrightarrow> pkeep s u"
proof -
  have "woken p q \<Longrightarrow> woken q r \<Longrightarrow> woken p r" for p q r by (auto simp: woken_def)
  then show "pkeep s t \<Longrightarrow> pkeep t u \<Longrightarrow> pkeep s u"
    by (auto simp: pkeep_def elim: list_all2_trans [rotated])
qed

lemma pkeep_same:
  "ptable t = ptable s \<Longrightarrow> curproc t = curproc s \<Longrightarrow> initproc t = initproc s \<Longrightarrow> nextpid t = nextpid s \<Longrightarrow>
   ticks t = ticks s \<Longrightarrow> pkeep s t"
  by (simp add: pkeep_def)

lemma keeps_call:
  assumes "keeps s m" and "\<And>a t. m = Ok a t \<Longrightarrow> pkeep s t \<Longrightarrow> keeps s (f a t)"
  shows "keeps s (call m f)"
  using assms by (cases m) auto

lemma pkeep_wakeup: "pkeep s t \<Longrightarrow> pkeep s (wakeup c t)"
proof -
  have "pkeep t (wakeup c t)"
    by (auto simp: pkeep_def wakeup_def wakeup1_def wakeup1_proc_def woken_def list_all2_conv_all_nth)
  then show "pkeep s t \<Longrightarrow> pkeep s (wakeup c t)" by (blast intro: pkeep_trans)
qed

lemma pkeep_upd [simp]:
  "pkeep s0 (t0\<lparr>pmem := v_pmem\<rparr>) = pkeep s0 t0" "pkeep s0 (t0\<lparr>freelist := v_freelist\<rparr>) = pkeep s0 t0"
  "pkeep s0 (t0\<lparr>kpgdir := v_kpgdir\<rparr>) = pkeep s0 t0" "pkeep s1 (t1\<lparr>memdisk := v_memdisk\<rparr>) = pkeep s1 t1"
  "pkeep s1 (t1\<lparr>diskops := v_diskops\<rparr>) = pkeep s1 t1" "pkeep s1 (t1\<lparr>bufs := v_bufs\<rparr>) = pkeep s1 t1"
  "pkeep s1 (t1\<lparr>lru := v_lru\<rparr>) = pkeep s1 t1" "pkeep s2 (t2\<lparr>logstart := v_logstart\<rparr>) = pkeep s2 t2"
  "pkeep s2 (t2\<lparr>logsize := v_logsize\<rparr>) = pkeep s2 t2" "pkeep s2 (t2\<lparr>logbusy := v_logbusy\<rparr>) = pkeep s2 t2"
  "pkeep s2 (t2\<lparr>logdev := v_logdev\<rparr>) = pkeep s2 t2" "pkeep s2 (t2\<lparr>lh_n := v_lh_n\<rparr>) = pkeep s2 t2"
  "pkeep s2 (t2\<lparr>lh_sector := v_lh_sector\<rparr>) = pkeep s2 t2" "pkeep s3 (t3\<lparr>icache := v_icache\<rparr>) = pkeep s3 t3"
  "pkeep s4 (t4\<lparr>devsw := v_devsw\<rparr>) = pkeep s4 t4" "pkeep s4 (t4\<lparr>crt := v_crt\<rparr>) = pkeep s4 t4"
  "pkeep s4 (t4\<lparr>crtpos := v_crtpos\<rparr>) = pkeep s4 t4" "pkeep s4 (t4\<lparr>uart := v_uart\<rparr>) = pkeep s4 t4"
  "pkeep s4 (t4\<lparr>uartout := v_uartout\<rparr>) = pkeep s4 t4" "pkeep s4 (t4\<lparr>inbuf := v_inbuf\<rparr>) = pkeep s4 t4"
  "pkeep s4 (t4\<lparr>in_r := v_in_r\<rparr>) = pkeep s4 t4" "pkeep s4 (t4\<lparr>in_w := v_in_w\<rparr>) = pkeep s4 t4"
  "pkeep s4 (t4\<lparr>in_e := v_in_e\<rparr>) = pkeep s4 t4" "pkeep s4 (t4\<lparr>history := v_history\<rparr>) = pkeep s4 t4"
  "pkeep s4 (t4\<lparr>historyIndex := v_historyIndex\<rparr>) = pkeep s4 t4" "pkeep s4 (t4\<lparr>cmdCount := v_cmdCount\<rparr>) = pkeep s4 t4"
  "pkeep s4 (t4\<lparr>upCount := v_upCount\<rparr>) = pkeep s4 t4" "pkeep s4 (t4\<lparr>prevCount := v_prevCount\<rparr>) = pkeep s4 t4"
  "pkeep s5 (t5\<lparr>pipes := v_pipes\<rparr>) = pkeep s5 t5" "pkeep s6 (t6\<lparr>ftable := v_ftable\<rparr>) = pkeep s6 t6"
  "pkeep s7 (t7\<lparr>forkret_first := v_forkret_first\<rparr>) = pkeep s7 t7"
  by (simp_all add: pkeep_def)

lemma pkeep_writes [simp]:
  "pkeep s0 (wr x w t0) = pkeep s0 t0" "pkeep s0 (zero_page x t0) = pkeep s0 t0" "pkeep s1 (setb b y t1) = pkeep s1 t1"
  "pkeep s1 (bmodify b f t1) = pkeep s1 t1" "pkeep s1 (mark_dirty b t1) = pkeep s1 t1" "pkeep s3 (seti i z t3) = pkeep s3 t3"
  "pkeep s5 (setp q u t5) = pkeep s5 t5" "pkeep s6 (setf k v t6) = pkeep s6 t6"
  by (simp_all add: wr_def zero_page_def setb_def bmodify_def mark_dirty_def seti_def setp_def setf_def)

lemma keeps_let: "(\<And>x. x = v \<Longrightarrow> keeps s (f x)) \<Longrightarrow> keeps s (let x = v in f x)"
  by simp

lemma pkeep_nth:
  assumes "pkeep s t" and "i < length (ptable s)"
  shows "woken (getproc s i) (getproc t i)"
  using assms by (auto simp: pkeep_def getproc_def list_all2_conv_all_nth)

lemma pkeep_length: "pkeep s t \<Longrightarrow> length (ptable t) = length (ptable s)"
  by (auto simp: pkeep_def dest: list_all2_lengthD)

section \<open>Memory\<close>

lemma keeps_kfree [frame]: "pkeep s t \<Longrightarrow> keeps s (kfree v t)"
  by (auto simp: kfree_def Let_def intro!: keeps_call pkeep_wakeup frame)

lemma keeps_kalloc [frame]: "pkeep s t \<Longrightarrow> keeps s (kalloc t)"
  by (auto simp: kalloc_def Let_def intro!: keeps_call pkeep_wakeup frame)

lemma keeps_walkpgdir [frame]: "pkeep s t \<Longrightarrow> keeps s (walkpgdir pd va al t)"
  by (auto simp: walkpgdir_def Let_def intro!: keeps_call pkeep_wakeup frame)

lemma keeps_mappages_from [frame]: "pkeep s t \<Longrightarrow> keeps s (mappages_from r pd a pa perm t)"
proof (induction r arbitrary: a pa t)
  case 0
  then show ?case
    by (subst mappages_from.simps) (auto simp: Let_def intro!: keeps_call frame)
next
  case (Suc r)
  then show ?case
    by (subst mappages_from.simps) (auto simp: Let_def intro!: keeps_call frame)
qed

lemma keeps_mappages [frame]: "pkeep s t \<Longrightarrow> keeps s (mappages pd va len pa perm t)"
  by (auto simp: mappages_def Let_def intro!: keeps_call pkeep_wakeup frame)

lemma keeps_map_all [frame]: "pkeep s t \<Longrightarrow> keeps s (map_all pd ks t)"
  by (induction pd ks t rule: map_all.induct) (auto intro!: keeps_call frame)

lemma keeps_setupkvm [frame]: "pkeep s t \<Longrightarrow> keeps s (setupkvm t)"
  by (auto simp: setupkvm_def Let_def intro!: keeps_call frame)

lemma keeps_deallocuvm_from [frame]: "pkeep s t \<Longrightarrow> keeps s (deallocuvm_from pd oldsz a t)"
proof (induction pd oldsz a t rule: deallocuvm_from.induct)
  case (1 pd oldsz a t)
  then show ?case
    by (subst deallocuvm_from.simps) (auto simp: Let_def intro!: keeps_call pkeep_wakeup frame split: option.split prod.split)
qed

lemma keeps_deallocuvm [frame]: "pkeep s t \<Longrightarrow> keeps s (deallocuvm pd oldsz newsz t)"
  by (auto simp: deallocuvm_def Let_def intro!: keeps_call pkeep_wakeup frame)

lemma keeps_freevm_from [frame]: "pkeep s t \<Longrightarrow> keeps s (freevm_from r i pd t)"
  by (induction r arbitrary: i t) (auto simp: Let_def intro!: keeps_call frame)

lemma keeps_freevm [frame]: "pkeep s t \<Longrightarrow> keeps s (freevm pd t)"
  by (auto simp: freevm_def Let_def intro!: keeps_call pkeep_wakeup frame)

lemma keeps_clearpteu [frame]: "pkeep s t \<Longrightarrow> keeps s (clearpteu pd a t)"
  by (auto simp: clearpteu_def Let_def intro!: keeps_call pkeep_wakeup frame)

lemma keeps_copyuvm_from [frame]: "pkeep s t \<Longrightarrow> keeps s (copyuvm_from pd d len i t)"
proof (induction pd d len i t rule: copyuvm_from.induct)
  case (1 pd d len i t)
  then show ?case
    by (subst copyuvm_from.simps) (auto simp: Let_def intro!: keeps_call pkeep_wakeup frame split: option.split prod.split)
qed

lemma keeps_copyuvm [frame]: "pkeep s t \<Longrightarrow> keeps s (copyuvm pd len t)"
  by (auto simp: copyuvm_def Let_def intro!: keeps_call pkeep_wakeup frame)

lemma keeps_uva2ka [frame]: "pkeep s t \<Longrightarrow> keeps s (uva2ka pd a t)"
  by (auto simp: uva2ka_def Let_def intro!: keeps_call pkeep_wakeup frame)

lemma keeps_copyout [frame]: "pkeep s t \<Longrightarrow> keeps s (copyout pd va bs t)"
proof (induction pd va bs t rule: copyout.induct)
  case (1 pd va bs t)
  then show ?case
    by (subst copyout.simps) (auto simp: Let_def intro!: keeps_call pkeep_wakeup frame split: option.split prod.split)
qed

section \<open>Buffers and the log\<close>

lemma keeps_iderw [frame]: "pkeep s t \<Longrightarrow> keeps s (iderw b t)"
  by (auto simp: iderw_def Let_def intro!: keeps_call pkeep_wakeup frame)

lemma keeps_bget [frame]: "pkeep s t \<Longrightarrow> keeps s (bget dev sec t)"
  by (auto simp: bget_def Let_def split: option.split intro!: keeps_call pkeep_wakeup frame)

lemma keeps_bread [frame]: "pkeep s t \<Longrightarrow> keeps s (bread dev sec t)"
  by (auto simp: bread_def Let_def intro!: keeps_call pkeep_wakeup frame)

lemma keeps_bwrite [frame]: "pkeep s t \<Longrightarrow> keeps s (bwrite b t)"
  by (auto simp: bwrite_def Let_def intro!: keeps_call pkeep_wakeup frame)

lemma keeps_brelse [frame]: "pkeep s t \<Longrightarrow> keeps s (brelse b t)"
  by (auto simp: brelse_def Let_def intro!: keeps_call pkeep_wakeup frame)

lemma keeps_readsb [frame]: "pkeep s t \<Longrightarrow> keeps s (readsb dev t)"
  by (auto simp: readsb_def Let_def intro!: keeps_call pkeep_wakeup frame)

lemma keeps_write_head [frame]: "pkeep s t \<Longrightarrow> keeps s (write_head t)"
  by (auto simp: write_head_def Let_def intro!: keeps_call pkeep_wakeup frame)

lemma keeps_install_from [frame]: "pkeep s t \<Longrightarrow> keeps s (install_from r k t)"
  by (induction r arbitrary: k t) (auto intro!: keeps_call frame)

lemma keeps_install_trans [frame]: "pkeep s t \<Longrightarrow> keeps s (install_trans t)"
  by (auto simp: install_trans_def Let_def intro!: keeps_call pkeep_wakeup frame)

lemma keeps_begin_trans [frame]: "pkeep s t \<Longrightarrow> keeps s (begin_trans t)"
  by (auto simp: begin_trans_def Let_def intro!: keeps_call pkeep_wakeup frame)

lemma keeps_commit_trans [frame]: "pkeep s t \<Longrightarrow> keeps s (commit_trans t)"
  by (auto simp: commit_trans_def Let_def intro!: keeps_call pkeep_wakeup frame)

lemma keeps_log_write [frame]: "pkeep s t \<Longrightarrow> keeps s (log_write b t)"
  by (auto simp: log_write_def Let_def intro!: keeps_call pkeep_wakeup frame)

section \<open>Inodes\<close>

lemma keeps_bzero [frame]: "pkeep s t \<Longrightarrow> keeps s (bzero dev bno t)"
  by (auto simp: bzero_def Let_def intro!: keeps_call pkeep_wakeup frame)

lemma keeps_balloc_from [frame]: "pkeep s t \<Longrightarrow> keeps s (balloc_from dev sb b t)"
proof (induction dev sb b t rule: balloc_from.induct)
  case (1 dev sb b t)
  then show ?case
    by (subst balloc_from.simps) (auto simp: Let_def intro!: keeps_call pkeep_wakeup frame split: option.split prod.split)
qed

lemma keeps_balloc [frame]: "pkeep s t \<Longrightarrow> keeps s (balloc dev t)"
  by (auto simp: balloc_def Let_def intro!: keeps_call pkeep_wakeup frame)

lemma keeps_bfree [frame]: "pkeep s t \<Longrightarrow> keeps s (bfree dev b t)"
  by (auto simp: bfree_def Let_def intro!: keeps_call pkeep_wakeup frame)

lemma keeps_iget [frame]: "pkeep s t \<Longrightarrow> keeps s (iget dev i t)"
  by (auto simp: iget_def Let_def split: option.split intro!: keeps_call pkeep_wakeup frame)

lemma keeps_ialloc_from [frame]: "pkeep s t \<Longrightarrow> keeps s (ialloc_from dev ty n i t)"
proof (induction dev ty n i t rule: ialloc_from.induct)
  case (1 dev ty n i t)
  then show ?case
    by (subst ialloc_from.simps) (auto simp: Let_def intro!: keeps_call pkeep_wakeup frame split: option.split prod.split)
qed

lemma keeps_ialloc [frame]: "pkeep s t \<Longrightarrow> keeps s (ialloc dev ty t)"
  by (auto simp: ialloc_def Let_def intro!: keeps_call pkeep_wakeup frame)

lemma keeps_iupdate [frame]: "pkeep s t \<Longrightarrow> keeps s (iupdate ip t)"
  by (auto simp: iupdate_def Let_def intro!: keeps_call pkeep_wakeup frame)

lemma keeps_idup [frame]: "pkeep s t \<Longrightarrow> keeps s (idup ip t)"
  by (auto simp: idup_def Let_def intro!: keeps_call pkeep_wakeup frame)

lemma keeps_ilock [frame]: "pkeep s t \<Longrightarrow> keeps s (ilock ip t)"
  by (auto simp: ilock_def Let_def intro!: keeps_call pkeep_wakeup frame)

lemma keeps_iunlock [frame]: "pkeep s t \<Longrightarrow> keeps s (iunlock ip t)"
  by (auto simp: iunlock_def Let_def intro!: keeps_call pkeep_wakeup frame)

lemma keeps_get_addr [frame]: "pkeep s t \<Longrightarrow> keeps s (get_addr i k t)"
  by (auto simp: get_addr_def Let_def intro!: keeps_call pkeep_wakeup frame)

lemma keeps_set_addr [frame]: "pkeep s t \<Longrightarrow> keeps s (set_addr i k a t)"
  by (auto simp: set_addr_def Let_def intro!: keeps_call pkeep_wakeup frame)

lemma keeps_addr_alloc [frame]: "pkeep s t \<Longrightarrow> keeps s (addr_alloc ip k t)"
  by (auto simp: addr_alloc_def Let_def intro!: keeps_call pkeep_wakeup frame)

lemma keeps_entry_alloc [frame]: "pkeep s t \<Longrightarrow> keeps s (entry_alloc ip bp k t)"
  by (auto simp: entry_alloc_def Let_def intro!: keeps_call pkeep_wakeup frame)

lemma keeps_bmap [frame]: "pkeep s t \<Longrightarrow> keeps s (bmap ip bn t)"
  by (auto simp: bmap_def Let_def intro!: keeps_call pkeep_wakeup frame)

lemma keeps_itrunc_direct [frame]: "pkeep s t \<Longrightarrow> keeps s (itrunc_direct r i ip t)"
  by (induction r arbitrary: i t) (auto simp: Let_def intro!: keeps_call frame)

lemma keeps_itrunc_indirect [frame]: "pkeep s t \<Longrightarrow> keeps s (itrunc_indirect r j bp ip t)"
  by (induction r arbitrary: j t) (auto simp: Let_def intro!: keeps_call frame)

lemma keeps_itrunc [frame]: "pkeep s t \<Longrightarrow> keeps s (itrunc ip t)"
  by (auto simp: itrunc_def Let_def intro!: keeps_call pkeep_wakeup frame)

lemma keeps_iput [frame]: "pkeep s t \<Longrightarrow> keeps s (iput ip t)"
  by (auto simp: iput_def Let_def intro!: keeps_call pkeep_wakeup frame)

lemma keeps_iunlockput [frame]: "pkeep s t \<Longrightarrow> keeps s (iunlockput ip t)"
  by (auto simp: iunlockput_def Let_def intro!: keeps_call pkeep_wakeup frame)

section \<open>Console, files and pipes\<close>

lemma pkeep_uartputc [simp]: "pkeep s (uartputc c t) = pkeep s t"
  by (auto simp: uartputc_def Let_def intro!: keeps_call pkeep_wakeup frame)

lemma keeps_cgaputc [frame]: "pkeep s t \<Longrightarrow> keeps s (cgaputc c t)"
  by (auto simp: cgaputc_def Let_def split: prod.split intro!: keeps_call pkeep_wakeup frame)

lemma keeps_consputc [frame]: "pkeep s t \<Longrightarrow> keeps s (consputc c t)"
  by (auto simp: consputc_def Let_def intro!: keeps_call pkeep_wakeup frame)

lemma keeps_consputs [frame]: "pkeep s t \<Longrightarrow> keeps s (consputs cs t)"
  by (induction cs arbitrary: t) (auto intro!: keeps_call frame)

lemma keeps_cprintf [frame]: "pkeep s t \<Longrightarrow> keeps s (cprintf fmt as t)"
  by (auto simp: cprintf_def Let_def split: option.split intro!: keeps_call pkeep_wakeup frame)

lemma keeps_consoleread_from [frame]: "pkeep s t \<Longrightarrow> keeps s (consoleread_from n target t)"
  by (induction n arbitrary: t) (auto simp: Let_def intro!: keeps_call split: option.split bool.split)

lemma keeps_consoleread [frame]: "pkeep s t \<Longrightarrow> keeps s (consoleread ip n t)"
  by (auto simp: consoleread_def Let_def split: option.split intro!: keeps_call pkeep_wakeup frame)

lemma keeps_consolewrite [frame]: "pkeep s t \<Longrightarrow> keeps s (consolewrite ip bs t)"
  by (auto simp: consolewrite_def Let_def intro!: keeps_call pkeep_wakeup frame)

lemma keeps_readi_from [frame]: "pkeep s t \<Longrightarrow> keeps s (readi_from ip off n t)"
proof (induction ip off n t rule: readi_from.induct)
  case (1 ip off n t)
  then show ?case
    by (subst readi_from.simps) (auto simp: Let_def intro!: keeps_call pkeep_wakeup frame split: option.split prod.split)
qed

lemma keeps_readi [frame]: "pkeep s t \<Longrightarrow> keeps s (readi ip off n t)"
  by (auto simp: readi_def Let_def intro!: keeps_call pkeep_wakeup frame)

lemma keeps_writei_from [frame]: "pkeep s t \<Longrightarrow> keeps s (writei_from ip off bs t)"
proof (induction ip off bs t rule: writei_from.induct)
  case (1 ip off bs t)
  then show ?case
    by (subst writei_from.simps) (auto simp: Let_def intro!: keeps_call pkeep_wakeup frame split: option.split prod.split)
qed

lemma keeps_writei [frame]: "pkeep s t \<Longrightarrow> keeps s (writei ip src off n t)"
  by (auto simp: writei_def Let_def intro!: keeps_call pkeep_wakeup frame)

lemma keeps_dirlookup_from [frame]: "pkeep s t \<Longrightarrow> keeps s (dirlookup_from dp name off t)"
proof (induction dp name off t rule: dirlookup_from.induct)
  case (1 dp name off t)
  then show ?case
    by (subst dirlookup_from.simps) (auto simp: Let_def intro!: keeps_call pkeep_wakeup frame split: option.split prod.split)
qed

lemma keeps_dirlookup [frame]: "pkeep s t \<Longrightarrow> keeps s (dirlookup dp name t)"
  by (auto simp: dirlookup_def Let_def intro!: keeps_call pkeep_wakeup frame)

lemma keeps_empty_dirent [frame]: "pkeep s t \<Longrightarrow> keeps s (empty_dirent dp off t)"
proof (induction dp off t rule: empty_dirent.induct)
  case (1 dp off t)
  then show ?case
    by (subst empty_dirent.simps) (auto simp: Let_def intro!: keeps_call pkeep_wakeup frame split: option.split prod.split)
qed

lemma keeps_dirlink [frame]: "pkeep s t \<Longrightarrow> keeps s (dirlink dp name i t)"
  by (auto simp: dirlink_def Let_def split: option.split prod.split intro!: keeps_call pkeep_wakeup frame)

lemma keeps_namex_from [frame]: "pkeep s t \<Longrightarrow> keeps s (namex_from ip path np name t)"
proof (induction ip path np name t rule: namex_from.induct)
  case (1 ip path np name t)
  then show ?case
    by (subst namex_from.simps) (auto simp: Let_def intro!: keeps_call pkeep_wakeup frame split: option.split prod.split)
qed

lemma keeps_namex [frame]: "pkeep s t \<Longrightarrow> keeps s (namex path np name t)"
  by (auto simp: namex_def Let_def split: option.split intro!: keeps_call pkeep_wakeup frame)

lemma keeps_namei [frame]: "pkeep s t \<Longrightarrow> keeps s (namei path t)"
  by (auto simp: namei_def Let_def split: prod.split intro!: keeps_call pkeep_wakeup frame)

lemma keeps_nameiparent [frame]: "pkeep s t \<Longrightarrow> keeps s (nameiparent path t)"
  by (auto simp: nameiparent_def Let_def intro!: keeps_call pkeep_wakeup frame)

lemma keeps_loaduvm_from [frame]: "pkeep s t \<Longrightarrow> keeps s (loaduvm_from pd addr ip offset len i t)"
proof (induction pd addr ip offset len i t rule: loaduvm_from.induct)
  case (1 pd addr ip offset len i t)
  then show ?case
    by (subst loaduvm_from.simps) (auto simp: Let_def intro!: keeps_call pkeep_wakeup frame split: option.split prod.split)
qed

lemma keeps_loaduvm [frame]: "pkeep s t \<Longrightarrow> keeps s (loaduvm pd addr ip offset len t)"
  by (auto simp: loaduvm_def Let_def intro!: keeps_call pkeep_wakeup frame)

lemma keeps_allocuvm_from [frame]: "pkeep s t \<Longrightarrow> keeps s (allocuvm_from pd oldsz newsz a t)"
proof (induction pd oldsz newsz a t rule: allocuvm_from.induct)
  case (1 pd oldsz newsz a t)
  then show ?case
    by (subst allocuvm_from.simps) (auto simp: Let_def intro!: keeps_call pkeep_wakeup frame split: option.split prod.split)
qed

lemma keeps_allocuvm [frame]: "pkeep s t \<Longrightarrow> keeps s (allocuvm pd oldsz newsz t)"
  by (auto simp: allocuvm_def Let_def intro!: keeps_call pkeep_wakeup frame)

lemma keeps_pipeclose [frame]: "pkeep s t \<Longrightarrow> keeps s (pipeclose p w t)"
  by (auto simp: pipeclose_def Let_def intro!: keeps_call pkeep_wakeup frame)

lemma keeps_filealloc [frame]: "pkeep s t \<Longrightarrow> keeps s (filealloc t)"
  by (auto simp: filealloc_def Let_def split: option.split intro!: keeps_call pkeep_wakeup frame)

lemma keeps_filedup [frame]: "pkeep s t \<Longrightarrow> keeps s (filedup f t)"
  by (auto simp: filedup_def Let_def intro!: keeps_call pkeep_wakeup frame)

lemma keeps_fileclose [frame]: "pkeep s t \<Longrightarrow> keeps s (fileclose f t)"
  by (auto simp: fileclose_def Let_def split: ftype.split intro!: keeps_call pkeep_wakeup frame)

section \<open>exec\<close>

lemma keeps_exec_bad [frame]: "pkeep s t \<Longrightarrow> keeps s (exec_bad pd ip t)"
  by (auto simp: exec_bad_def Let_def split: option.split intro!: keeps_call pkeep_wakeup frame)

lemma keeps_exec_load [frame]: "pkeep s t \<Longrightarrow> keeps s (exec_load r pd off ip len t)"
  by (induction r arbitrary: off len t) (auto simp: Let_def intro!: keeps_call frame split: prod.split)

lemma keeps_push_args [frame]: "pkeep s t \<Longrightarrow> keeps s (push_args argc pd as sp t)"
  by (induction argc pd as sp t rule: push_args.induct) (auto simp: Let_def intro!: keeps_call frame)

lemma keeps_exec_stack [frame]: "pkeep s t \<Longrightarrow> keeps s (exec_stack pd len argv t)"
  by (auto simp: exec_stack_def Let_def split: option.split prod.split intro!: keeps_call pkeep_wakeup frame)

end
