(* ===== verification/Sysproc.thy ===== *)
theory Sysproc
  imports Syscall
begin

text \<open>
  The system calls on processes (\<^verbatim>\<open>sysproc.c\<close>). A call that gives up the processor for good or until it is
  scheduled again (\<^verbatim>\<open>exit\<close>, \<^verbatim>\<open>yield\<close>) ends in the state the scheduler sees.
\<close>

definition sys_fork :: "'a proc_st_scheme \<Rightarrow> (int, 'a proc_st_scheme) outcome" where
  "sys_fork s = fork s"

definition sys_exit :: "'a proc_st_scheme \<Rightarrow> (unit, 'a proc_st_scheme) outcome" where
  "sys_exit s = exit s"

definition sys_wait :: "'a proc_st_scheme \<Rightarrow> (int, 'a proc_st_scheme) outcome" where
  "sys_wait s = wait s"

definition sys_wait2 :: "'a proc_st_scheme \<Rightarrow> (int, 'a proc_st_scheme) outcome" where
  "sys_wait2 s =
     arg (argptr 0 4 s) (- 1) (\<lambda>retime_p s.
     arg (argptr 1 4 s) (- 1) (\<lambda>rutime_p s.
     arg (argptr 2 4 s) (- 1) (\<lambda>stime_p s.
     wait2 retime_p rutime_p stime_p s)))"

definition sys_kill :: "'a proc_st_scheme \<Rightarrow> (int, 'a proc_st_scheme) outcome" where
  "sys_kill s = arg (argint 0 s) (- 1) (\<lambda>p s. kill p s)"

definition sys_getpid :: "'a proc_st_scheme \<Rightarrow> (int, 'a proc_st_scheme) outcome" where
  "sys_getpid s = with_proc s (\<lambda>i. Ok (sint (pid (getproc s i))) s)"

definition sys_sbrk :: "'a proc_st_scheme \<Rightarrow> (int, 'a proc_st_scheme) outcome" where
  "sys_sbrk s =
     with_proc s (\<lambda>i.
     arg (argint 0 s) (- 1) (\<lambda>n s.
     let addr = sint (sz (getproc s i)) in
     call (growproc (sint n) s) (\<lambda>r s. Ok (if r < 0 then - 1 else addr) s)))"

text \<open>\<^verbatim>\<open>sys_sleep\<close> from the test of its loop on: \<open>ticks0\<close> is the time at which the call began. The
  comparison is unsigned, as \<^verbatim>\<open>ticks - ticks0\<close> is.\<close>

definition sleep_loop :: "uint \<Rightarrow> uint \<Rightarrow> 'a proc_st_scheme \<Rightarrow> (int, 'a proc_st_scheme) outcome" where
  "sleep_loop ticks0 n s =
     with_proc s (\<lambda>i.
     if ticks s - ticks0 < n then
       if killed (getproc s i) then Ok (- 1) s else Sleep ChTicks s
     else Ok 0 s)"

definition sys_sleep :: "'a proc_st_scheme \<Rightarrow> (int, 'a proc_st_scheme) outcome" where
  "sys_sleep s = arg (argint 0 s) (- 1) (\<lambda>n s. sleep_loop (ticks s) n s)"

definition sys_uptime :: "'a proc_st_scheme \<Rightarrow> (int, 'a proc_st_scheme) outcome" where
  "sys_uptime s = Ok (sint (ticks s)) s"

definition sys_ps :: "'a proc_st_scheme \<Rightarrow> (int, 'a proc_st_scheme) outcome" where
  "sys_ps s = ps s"

definition sys_yield :: "'a proc_st_scheme \<Rightarrow> (int, 'a proc_st_scheme) outcome" where
  "sys_yield s = call (yield s) (\<lambda>_ s. Ok 0 s)"

end
