(* ===== verification/Proc_Life.thy ===== *)
theory Proc_Life
  imports Proc_Frame Sysproc
begin

text \<open>
  The life of a process: what \<^verbatim>\<open>fork\<close>, \<^verbatim>\<open>exec\<close>, \<^verbatim>\<open>exit\<close> and \<^verbatim>\<open>wait\<close> do to the process table, on every
  path that returns. The proofs rest on the frame lemmas of \<open>Proc_Frame\<close> for the memory and
  file-system code that these routines call.
\<close>

section \<open>Entries\<close>

lemma getproc_setproc:
  "k < length (ptable s) \<Longrightarrow> getproc (setproc j p s) k = (if j = k then p else getproc s k)"
  by (simp add: getproc_def setproc_def nth_update_if)

lemma setproc_sel [simp]:
  "length (ptable (setproc j p s)) = length (ptable s)" "curproc (setproc j p s) = curproc s"
  "initproc (setproc j p s) = initproc s" "nextpid (setproc j p s) = nextpid s" "ticks (setproc j p s) = ticks s"
  by (simp_all add: setproc_def)

lemma setproc_setproc [simp]: "setproc j p (setproc j q s) = setproc j p s"
  by (simp add: setproc_def)

lemma woken_awake: "woken p q \<Longrightarrow> state p \<noteq> SLEEPING \<Longrightarrow> q = p"
  by (auto simp: woken_def)

lemma woken_sel:
  "woken p q \<Longrightarrow> parent q = parent p \<and> pid q = pid p \<and> pchan q = pchan p \<and> ofile q = ofile p \<and> cwd q = cwd p"
  by (auto simp: woken_def)

lemma woken_state: "woken p q \<Longrightarrow> state q = SLEEPING \<Longrightarrow> q = p"
  by (auto simp: woken_def)

lemma keeps_Ok: "keeps s m \<Longrightarrow> m = Ok a t \<Longrightarrow> pkeep s t"
  by simp

lemma pkeep_sel: "pkeep s t \<Longrightarrow> curproc t = curproc s \<and> initproc t = initproc s \<and> nextpid t = nextpid s \<and> ticks t = ticks s"
  by (simp add: pkeep_def)

lemma pkeep_entry:
  "pkeep s t \<Longrightarrow> i < length (ptable s) \<Longrightarrow> state (getproc s i) \<noteq> SLEEPING \<Longrightarrow> getproc t i = getproc s i"
  using pkeep_nth woken_awake by blast

lemma with_proc_Some: "curproc s = Some i \<Longrightarrow> with_proc s f = f i"
  by (simp add: with_proc_def)

section \<open>exec\<close>

text \<open>A postcondition of the path that returns.\<close>

definition ends :: "('b \<Rightarrow> 's \<Rightarrow> bool) \<Rightarrow> ('b, 's) outcome \<Rightarrow> bool" where
  "ends P m \<longleftrightarrow> (\<forall>a t. m = Ok a t \<longrightarrow> P a t)"

lemma ends_simps [simp]: "ends P (Ok a t) = P a t" "ends P (Panic e)" "ends P (Fault e)" "ends P (Sleep c t)"
  by (simp_all add: ends_def)

lemma ends_call:
  "keeps s m \<Longrightarrow> (\<And>a t. m = Ok a t \<Longrightarrow> pkeep s t \<Longrightarrow> ends P (f a t)) \<Longrightarrow> ends P (call m f)"
  by (cases m) auto

lemma ends_mono: "ends P m \<Longrightarrow> (\<And>a t. P a t \<Longrightarrow> Q a t) \<Longrightarrow> ends Q m"
  by (simp add: ends_def)

lemma endsD: "ends P m \<Longrightarrow> m = Ok a t \<Longrightarrow> P a t"
  by simp

definition new_image :: "byte list \<Rightarrow> uint \<Rightarrow> uint \<Rightarrow> uint \<Rightarrow> uint \<Rightarrow> proc \<Rightarrow> proc" where
  "new_image path pd len ent sp p =
     p\<lparr>pname := safestrcpy (pname p) (lptr (last_elem path path)) 16, pgdir := pd, sz := len,
       tf := (tf p)\<lparr>tf_eip := ent, tf_esp := sp\<rparr>\<rparr>"

text \<open>How \<^verbatim>\<open>exec\<close> ends: either the table is untouched, or the last step replaced the image.\<close>

definition exec_end :: "nat \<Rightarrow> byte list \<Rightarrow> 'a sched_scheme \<Rightarrow> int \<Rightarrow> 'a sched_scheme \<Rightarrow> bool" where
  "exec_end i path s r t \<longleftrightarrow>
     r = - 1 \<and> pkeep s t \<or>
     (\<exists>(u :: 'a sched_scheme) pd len ent sp. r = 0 \<and> pkeep s u \<and> pkeep (setproc i (new_image path pd len ent sp (getproc u i)) u) t)"

lemma exec_bad_ends: "pkeep s t \<Longrightarrow> ends (exec_end i path s) (exec_bad pd ip t)"
  by (auto simp: exec_bad_def exec_end_def intro!: ends_call frame split: option.split)

lemma exec_stack_ends:
  assumes "pkeep s t"
  shows "ends (exec_end i path s)
    (call (exec_stack pd len argv t) (\<lambda>r t.
       case r of
         None \<Rightarrow> exec_bad pd None t
       | Some (len, sp) \<Rightarrow>
           let p = getproc t i; oldpgdir = pgdir p;
               p = p\<lparr>pname := safestrcpy (pname p) (lptr (last_elem path path)) 16, pgdir := pd, sz := len,
                    tf := (tf p)\<lparr>tf_eip := ent, tf_esp := sp\<rparr>\<rparr>
           in call (freevm oldpgdir (setproc i p t)) (\<lambda>_ t. Ok 0 t)))"
proof (rule ends_call [OF keeps_exec_stack [OF assms]])
  fix r u assume k: "pkeep s u"
  show "ends (exec_end i path s)
    (case r of
       None \<Rightarrow> exec_bad pd None u
     | Some (len, sp) \<Rightarrow>
         let p = getproc u i; oldpgdir = pgdir p;
             p = p\<lparr>pname := safestrcpy (pname p) (lptr (last_elem path path)) 16, pgdir := pd, sz := len,
                  tf := (tf p)\<lparr>tf_eip := ent, tf_esp := sp\<rparr>\<rparr>
         in call (freevm oldpgdir (setproc i p u)) (\<lambda>_ t. Ok 0 t))"
  proof (cases r)
    case None
    then show ?thesis using exec_bad_ends [OF k] by simp
  next
    case (Some x)
    obtain l sp where x: "x = (l, sp)" by (cases x)
    let ?v = "setproc i (new_image path pd l ent sp (getproc u i)) u"
    have "ends (exec_end i path s) (call (freevm (pgdir (getproc u i)) ?v) (\<lambda>_ t. Ok 0 t))"
    proof (rule ends_call [where s = ?v])
      show "keeps ?v (freevm (pgdir (getproc u i)) ?v)" by (rule frame) simp
      show "ends (exec_end i path s) (Ok 0 t)" if "pkeep ?v t" for t
        using k that unfolding ends_simps exec_end_def by blast
    qed
    then show ?thesis by (simp add: Some x Let_def new_image_def)
  qed
qed

lemma exec_ends: "curproc s = Some i \<Longrightarrow> ends (exec_end i path s) (exec path argv s)"
  unfolding exec_def with_proc_Some
  by (auto simp: Let_def split: option.split
      intro!: ends_call [where s = s] frame exec_bad_ends exec_stack_ends)
    (simp add: exec_end_def)


section \<open>wait\<close>

lemma reap_ends:
  assumes "k < length (ptable s)" and "state (getproc s k) = ZOMBIE"
  shows "ends (\<lambda>r t. r = sint (pid (getproc s k)) \<and> curproc t = curproc s \<and>
      state (getproc t k) = UNUSED \<and> pid (getproc t k) = 0 \<and> parent (getproc t k) = None \<and> kstack (getproc t k) = 0 \<and>
      (\<forall>j < length (ptable s). j \<noteq> k \<longrightarrow> woken (getproc s j) (getproc t j))) (reap k s)"
proof -
  have "keeps s (kfree (kstack (getproc s k)) s)" by (rule frame) simp
  then show ?thesis
    unfolding reap_def Let_def
  proof (rule ends_call)
    fix a t assume k: "pkeep s t"
    let ?t = "setproc k ((getproc t k)\<lparr>kstack := 0\<rparr>) t"
    have len: "length (ptable t) = length (ptable s)" using k by (rule pkeep_length)
    have "keeps ?t (freevm (pgdir (getproc t k)) ?t)" by (rule frame) simp
    then show "ends (\<lambda>r t. r = sint (pid (getproc s k)) \<and> curproc t = curproc s \<and>
      state (getproc t k) = UNUSED \<and> pid (getproc t k) = 0 \<and> parent (getproc t k) = None \<and> kstack (getproc t k) = 0 \<and>
      (\<forall>j < length (ptable s). j \<noteq> k \<longrightarrow> woken (getproc s j) (getproc t j)))
      (call (freevm (pgdir (getproc t k)) ?t) (\<lambda>_ t.
         Ok (sint (pid (getproc s k))) (setproc k ((getproc t k)\<lparr>state := UNUSED, pid := 0, parent := None,
                     pname := (pname (getproc t k))[0 := 0], killed := False\<rparr>) t)))"
    proof (rule ends_call)
      fix a u assume u: "pkeep ?t u"
      have lu: "length (ptable u) = length (ptable s)" using pkeep_length [OF u] len by simp
      have kk: "getproc t k = getproc s k" using pkeep_entry [OF k assms(1)] assms(2) by simp
      have "getproc ?t k = (getproc s k)\<lparr>kstack := 0\<rparr>" using kk len assms(1) by (simp add: getproc_setproc)
      then have "getproc u k = (getproc s k)\<lparr>kstack := 0\<rparr>"
        using pkeep_entry [OF u, of k] len assms by simp
      moreover have "woken (getproc s j) (getproc u j)" if "j < length (ptable s)" "j \<noteq> k" for j
        using pkeep_nth [OF k that(1)] pkeep_nth [OF u, of j] len that by (auto simp: getproc_setproc woken_def)
      moreover have "curproc u = curproc s" using pkeep_sel [OF k] pkeep_sel [OF u] by simp
      ultimately show "ends (\<lambda>r t. r = sint (pid (getproc s k)) \<and> curproc t = curproc s \<and>
          state (getproc t k) = UNUSED \<and> pid (getproc t k) = 0 \<and> parent (getproc t k) = None \<and> kstack (getproc t k) = 0 \<and>
          (\<forall>j < length (ptable s). j \<noteq> k \<longrightarrow> woken (getproc s j) (getproc t j)))
        (Ok (sint (pid (getproc s k))) (setproc k ((getproc u k)\<lparr>state := UNUSED, pid := 0, parent := None,
                     pname := (pname (getproc u k))[0 := 0], killed := False\<rparr>) u))"
        using lu assms(1) by (auto simp: getproc_setproc)
    qed
  qed
qed

lemma find_zombie_Some:
  "find_zombie i s = Some k \<Longrightarrow> k < NPROC \<and> parent (getproc s k) = Some i \<and> state (getproc s k) = ZOMBIE"
  by (auto simp: find_zombie_def children_def find_Some_iff dest!: nth_mem)

lemma find_zombie_None:
  "find_zombie i s = None \<Longrightarrow> k < NPROC \<Longrightarrow> parent (getproc s k) = Some i \<Longrightarrow> state (getproc s k) \<noteq> ZOMBIE"
  by (auto simp: find_zombie_def children_def find_None_iff)

lemma children_Nil: "children i s = [] \<longleftrightarrow> (\<forall>k < NPROC. parent (getproc s k) \<noteq> Some i)"
  by (auto simp: children_def filter_empty_conv)


section \<open>exit\<close>

text \<open>Every entry but one is kept.\<close>

definition kept_but :: "nat \<Rightarrow> 'a sched_scheme \<Rightarrow> 'a sched_scheme \<Rightarrow> bool" where
  "kept_but i s t \<longleftrightarrow>
     length (ptable t) = length (ptable s) \<and> curproc t = curproc s \<and> initproc t = initproc s \<and>
     (\<forall>j < length (ptable s). j \<noteq> i \<longrightarrow> woken (getproc s j) (getproc t j))"

lemma woken_trans: "woken p q \<Longrightarrow> woken q r \<Longrightarrow> woken p r"
  by (auto simp: woken_def)

lemma kept_but_trans: "kept_but i s t \<Longrightarrow> kept_but i t u \<Longrightarrow> kept_but i s u"
  by (auto simp: kept_but_def intro: woken_trans)

lemma pkeep_kept_but: "pkeep s t \<Longrightarrow> kept_but i s t"
  by (auto simp: kept_but_def pkeep_length pkeep_sel intro: pkeep_nth)

lemma setproc_kept_but: "kept_but i s (setproc i p s)"
  by (auto simp: kept_but_def getproc_setproc)

lemma close_files_ends:
  "i < length (ptable s) \<Longrightarrow> state (getproc s i) \<noteq> SLEEPING \<Longrightarrow> \<forall>fd \<in> set fds. fd < length (ofile (getproc s i)) \<Longrightarrow>
   ends (\<lambda>_ t. kept_but i s t \<and> (\<exists>ofs. getproc t i = (getproc s i)\<lparr>ofile := ofs\<rparr> \<and>
      length ofs = length (ofile (getproc s i)) \<and>
      (\<forall>fd < length ofs. fd \<in> set fds \<or> ofile (getproc s i) ! fd = None \<longrightarrow> ofs ! fd = None)))
     (close_files fds i s)"
proof (induction fds arbitrary: s)
  case Nil
  show ?case using pkeep_kept_but [OF pkeep_refl] by (auto intro!: exI [of _ "ofile (getproc s i)"])
next
  case (Cons fd fds)
  show ?case
  proof (cases "ofile (getproc s i) ! fd")
    case None
    have imp: "k \<in> set fds \<or> ofile (getproc s i) ! k = None"
      if "k \<in> set (fd # fds) \<or> ofile (getproc s i) ! k = None" for k
      using that None by auto
    have "close_files (fd # fds) i s = close_files fds i s" using None by simp
    moreover have "\<forall>fd \<in> set fds. fd < length (ofile (getproc s i))" using Cons.prems(3) by simp
    ultimately have ih: "ends (\<lambda>_ t. kept_but i s t \<and> (\<exists>ofs. getproc t i = (getproc s i)\<lparr>ofile := ofs\<rparr> \<and>
        length ofs = length (ofile (getproc s i)) \<and>
        (\<forall>k < length ofs. k \<in> set fds \<or> ofile (getproc s i) ! k = None \<longrightarrow> ofs ! k = None))) (close_files (fd # fds) i s)"
      using Cons.IH [OF Cons.prems(1,2)] by simp
    show ?thesis
    proof (rule ends_mono [OF ih], elim conjE exE)
      fix t ofs
      assume "kept_but i s t" "getproc t i = (getproc s i)\<lparr>ofile := ofs\<rparr>" "length ofs = length (ofile (getproc s i))"
        and o: "\<forall>k < length ofs. k \<in> set fds \<or> ofile (getproc s i) ! k = None \<longrightarrow> ofs ! k = None"
      moreover have "\<forall>k < length ofs. k \<in> set (fd # fds) \<or> ofile (getproc s i) ! k = None \<longrightarrow> ofs ! k = None"
        using imp o by blast
      ultimately show "kept_but i s t \<and> (\<exists>ofs. getproc t i = (getproc s i)\<lparr>ofile := ofs\<rparr> \<and>
        length ofs = length (ofile (getproc s i)) \<and>
        (\<forall>k < length ofs. k \<in> set (fd # fds) \<or> ofile (getproc s i) ! k = None \<longrightarrow> ofs ! k = None))"
        by blast
    qed
  next
    case (Some f)
    have "keeps s (fileclose f s)" by (rule frame) simp
    then have "ends (\<lambda>_ t. kept_but i s t \<and> (\<exists>ofs. getproc t i = (getproc s i)\<lparr>ofile := ofs\<rparr> \<and>
      length ofs = length (ofile (getproc s i)) \<and>
      (\<forall>k < length ofs. k \<in> set (fd # fds) \<or> ofile (getproc s i) ! k = None \<longrightarrow> ofs ! k = None)))
      (call (fileclose f s) (\<lambda>_ s. close_files fds i (setproc i ((getproc s i)\<lparr>ofile := (ofile (getproc s i))[fd := None]\<rparr>) s)))"
    proof (rule ends_call)
      fix a t assume k: "pkeep s t"
      let ?t = "setproc i ((getproc t i)\<lparr>ofile := (ofile (getproc t i))[fd := None]\<rparr>) t"
      have e: "getproc t i = getproc s i" using pkeep_entry [OF k Cons.prems(1,2)] .
      have len: "length (ptable t) = length (ptable s)" using k by (rule pkeep_length)
      have e': "getproc ?t i = (getproc s i)\<lparr>ofile := (ofile (getproc s i))[fd := None]\<rparr>"
        using len Cons.prems(1) by (simp add: getproc_setproc e)
      have kb: "kept_but i s ?t" using pkeep_kept_but [OF k] setproc_kept_but by (rule kept_but_trans)
      have ih: "ends (\<lambda>_ u. kept_but i ?t u \<and> (\<exists>ofs. getproc u i = (getproc ?t i)\<lparr>ofile := ofs\<rparr> \<and>
        length ofs = length (ofile (getproc ?t i)) \<and>
        (\<forall>k < length ofs. k \<in> set fds \<or> ofile (getproc ?t i) ! k = None \<longrightarrow> ofs ! k = None))) (close_files fds i ?t)"
        using Cons.prems len by (intro Cons.IH) (simp_all add: e')
      show "ends (\<lambda>_ t. kept_but i s t \<and> (\<exists>ofs. getproc t i = (getproc s i)\<lparr>ofile := ofs\<rparr> \<and>
        length ofs = length (ofile (getproc s i)) \<and>
        (\<forall>k < length ofs. k \<in> set (fd # fds) \<or> ofile (getproc s i) ! k = None \<longrightarrow> ofs ! k = None)))
        (close_files fds i ?t)"
        unfolding ends_def
      proof (intro allI impI)
        fix a u assume "close_files fds i ?t = Ok a u"
        from endsD [OF ih this] obtain ofs where o: "getproc u i = (getproc s i)\<lparr>ofile := ofs\<rparr>"
          "length ofs = length (ofile (getproc s i))"
          "\<forall>k < length ofs. k \<in> set fds \<or> (ofile (getproc s i))[fd := None] ! k = None \<longrightarrow> ofs ! k = None"
          and kb': "kept_but i ?t u" by (auto simp: e')
        have "ofs ! k = None" if "k < length ofs" "k \<in> set (fd # fds) \<or> ofile (getproc s i) ! k = None" for k
          using o(2,3) that by (cases "k = fd") auto
        with o kept_but_trans [OF kb kb'] show "kept_but i s u \<and> (\<exists>ofs. getproc u i = (getproc s i)\<lparr>ofile := ofs\<rparr> \<and>
          length ofs = length (ofile (getproc s i)) \<and>
          (\<forall>k < length ofs. k \<in> set (fd # fds) \<or> ofile (getproc s i) ! k = None \<longrightarrow> ofs ! k = None))"
          by blast
      qed
    qed
    then show ?thesis using Some by simp
  qed
qed

text \<open>The loop that hands the children to \<^verbatim>\<open>init\<close>.\<close>

lemma wakeup1_ptr_woken: "k < length tab \<Longrightarrow> woken (tab ! k) (wakeup1_ptr po tab ! k)"
  by (auto simp: wakeup1_ptr_def woken_def)

lemma wakeup1_ptr_awake:
  "k < length tab \<Longrightarrow> \<not> (state (wakeup1_ptr po tab ! k) = SLEEPING \<and> pchan (wakeup1_ptr po tab ! k) = map_option ChProc po)"
  by (auto simp: wakeup1_ptr_def)

lemma length_wakeup1_ptr [simp]: "length (wakeup1_ptr po tab) = length tab"
  by (simp add: wakeup1_ptr_def)

definition handed :: "nat \<Rightarrow> nat option \<Rightarrow> nat set \<Rightarrow> nat \<Rightarrow> proc \<Rightarrow> proc \<Rightarrow> bool" where
  "handed i ini K k p q \<longleftrightarrow>
     (\<exists>r. woken p r \<and> q = (if k \<in> K \<and> parent p = Some i then r\<lparr>parent := ini\<rparr> else r))"

lemma pass_children_entry:
  assumes "initproc s \<noteq> Some i"
  shows "length (ptable (pass_children ks i s)) = length (ptable s) \<and> curproc (pass_children ks i s) = curproc s \<and>
    initproc (pass_children ks i s) = initproc s \<and>
    (\<forall>k < length (ptable s). handed i (initproc s) (set ks) k (getproc s k) (getproc (pass_children ks i s) k))"
  using assms
proof (induction ks arbitrary: s)
  case Nil
  then show ?case by (auto simp: handed_def)
next
  case (Cons c ks)
  let ?s1 = "setproc c ((getproc s c)\<lparr>parent := initproc s\<rparr>) s"
  let ?s2 = "if state (getproc ?s1 c) = ZOMBIE then ?s1\<lparr>ptable := wakeup1_ptr (initproc ?s1) (ptable ?s1)\<rparr> else ?s1"
  show ?case
  proof (cases "parent (getproc s c) = Some i")
    case False
    have "handed i (initproc s) (set ks) k (getproc s k) q \<Longrightarrow> handed i (initproc s) (set (c # ks)) k (getproc s k) q" for k q
      using False by (cases "k = c") (auto simp: handed_def)
    with Cons False show ?thesis by simp
  next
    case True
    have s2: "initproc ?s2 = initproc s" "curproc ?s2 = curproc s" "length (ptable ?s2) = length (ptable s)" by simp_all
    have w: "woken (getproc ?s1 k) (getproc ?s2 k)" if "k < length (ptable s)" for k
      using that wakeup1_ptr_woken [of k "ptable ?s1"] by (auto simp: getproc_def)
    have ih: "handed i (initproc s) (set ks) k (getproc ?s2 k) (getproc (pass_children ks i ?s2) k)" if "k < length (ptable s)" for k
      using Cons.IH [of ?s2] Cons.prems s2 that by simp
    have "handed i (initproc s) (set (c # ks)) k (getproc s k) (getproc (pass_children ks i ?s2) k)" if k: "k < length (ptable s)" for k
    proof (cases "k = c")
      case True
      then have "woken ((getproc s k)\<lparr>parent := initproc s\<rparr>) (getproc ?s2 k)" using w [OF k] k by (simp add: getproc_setproc)
      with ih [OF k] have "woken ((getproc s k)\<lparr>parent := initproc s\<rparr>) (getproc (pass_children ks i ?s2) k)"
        using Cons.prems by (auto simp: handed_def woken_def)
      then have "getproc (pass_children ks i ?s2) k = (getproc s k)\<lparr>parent := initproc s\<rparr> \<or>
          state (getproc s k) = SLEEPING \<and> getproc (pass_children ks i ?s2) k = ((getproc s k)\<lparr>state := RUNNABLE\<rparr>)\<lparr>parent := initproc s\<rparr>"
        by (auto simp: woken_def)
      then show ?thesis using True \<open>parent (getproc s c) = Some i\<close> by (auto simp: handed_def woken_def)
    next
      case False
      then have "woken (getproc s k) (getproc ?s2 k)" using w [OF k] k by (simp add: getproc_setproc)
      with ih [OF k] False show ?thesis by (auto simp: handed_def woken_def)
    qed
    moreover have "pass_children (c # ks) i s = pass_children ks i ?s2" using True by (simp add: Let_def)
    ultimately show ?thesis using Cons.IH [of ?s2] Cons.prems s2 by simp
  qed
qed

definition waits :: "nat \<Rightarrow> 'a sched_scheme \<Rightarrow> bool" where
  "waits n s \<longleftrightarrow> state (getproc s n) = SLEEPING \<and> pchan (getproc s n) = Some (ChProc n)"

lemma handed_sleeping: "handed i ini K k p q \<Longrightarrow> state q = SLEEPING \<Longrightarrow> state p = SLEEPING \<and> pchan q = pchan p"
  by (auto simp: handed_def woken_def split: if_splits)

lemma pass_children_awake:
  assumes "initproc s \<noteq> Some i" and "k < length (ptable s)" and "waits k (pass_children ks i s)"
  shows "waits k s"
proof -
  have "handed i (initproc s) (set ks) k (getproc s k) (getproc (pass_children ks i s) k)"
    using pass_children_entry [OF assms(1)] assms(2) by blast
  from handed_sleeping [OF this] assms(3) show ?thesis by (auto simp: waits_def)
qed

lemma pass_children_wakes:
  assumes "initproc s = Some n" and "n \<noteq> i" and "n < length (ptable s)"
    and "k \<in> set ks" and "k < length (ptable s)" and "parent (getproc s k) = Some i" and "state (getproc s k) = ZOMBIE"
  shows "\<not> waits n (pass_children ks i s)"
  using assms
proof (induction ks arbitrary: s)
  case (Cons c ks)
  let ?s1 = "setproc c ((getproc s c)\<lparr>parent := initproc s\<rparr>) s"
  let ?s2 = "if state (getproc ?s1 c) = ZOMBIE then ?s1\<lparr>ptable := wakeup1_ptr (initproc ?s1) (ptable ?s1)\<rparr> else ?s1"
  have ini: "initproc s \<noteq> Some i" using Cons.prems by simp
  show ?case
  proof (cases "k = c")
    case True
    then have p: "pass_children (c # ks) i s = pass_children ks i ?s2" using Cons.prems by (simp add: Let_def)
    have "state (getproc ?s1 c) = ZOMBIE" using True Cons.prems by (simp add: getproc_setproc)
    then have "\<not> waits n ?s2"
      using wakeup1_ptr_awake [of n "ptable ?s1" "Some n"] Cons.prems by (auto simp: waits_def getproc_def)
    then show ?thesis using pass_children_awake [of ?s2 i n ks] ini Cons.prems unfolding p by auto
  next
    case False
    show ?thesis
    proof (cases "parent (getproc s c) = Some i")
      case True
      then have p: "pass_children (c # ks) i s = pass_children ks i ?s2" by (simp add: Let_def)
      have "woken (getproc ?s1 k) (getproc ?s2 k)"
        using Cons.prems wakeup1_ptr_woken [of k "ptable ?s1"] by (auto simp: getproc_def)
      moreover have "getproc ?s1 k = getproc s k" using False Cons.prems by (simp add: getproc_setproc)
      ultimately have "getproc ?s2 k = getproc s k" using woken_awake Cons.prems(7) by fastforce
      then have "\<not> waits n (pass_children ks i ?s2)" using False Cons.prems by (intro Cons.IH) auto
      then show ?thesis unfolding p .
    next
      case False
      with Cons \<open>k \<noteq> c\<close> show ?thesis by simp
    qed
  qed
qed simp

text \<open>The first half of \<^verbatim>\<open>exit\<close>, up to the release of the directory.\<close>

lemma exit_releases:
  assumes "exit s = Ok () t" and "curproc s = Some i" and "i < NPROC" and "length (ptable s) = NPROC"
    and "state (getproc s i) = RUNNING" and "length (ofile (getproc s i)) = NOFILE"
  obtains s3 ofs where "initproc s \<noteq> Some i" and "kept_but i s s3" and "getproc s3 i = (getproc s i)\<lparr>ofile := ofs, cwd := None\<rparr>"
    and "\<forall>fd < NOFILE. ofs ! fd = None"
    and "sched_switch (let s = pass_children [0..<NPROC] i (s3\<lparr>ptable := wakeup1_ptr (parent (getproc s i)) (ptable s3)\<rparr>)
                       in setproc i ((getproc s i)\<lparr>state := ZOMBIE\<rparr>) s) = Ok () t"
proof -
  have ini: "initproc s \<noteq> Some i" using assms(1,2) by (auto simp: exit_def with_proc_def)
  obtain s1 where c: "close_files [0..<NOFILE] i s = Ok () s1" and rest: "(case cwd (getproc s1 i) of
         None \<Rightarrow> Fault ''iput''
       | Some dp \<Rightarrow>
           call (iput dp s1) (\<lambda>_ s.
           let s = setproc i ((getproc s i)\<lparr>cwd := None\<rparr>) s;
               s = s\<lparr>ptable := wakeup1_ptr (parent (getproc s i)) (ptable s)\<rparr>;
               s = pass_children [0..<NPROC] i s
           in sched_switch (setproc i ((getproc s i)\<lparr>state := ZOMBIE\<rparr>) s))) = Ok () t"
    using assms(1,2) ini by (auto simp: exit_def with_proc_def elim: call_OkE)
  from rest obtain dp s2 where i2: "iput dp s1 = Ok () s2" and sw: "(let s = setproc i ((getproc s2 i)\<lparr>cwd := None\<rparr>) s2;
               s = s\<lparr>ptable := wakeup1_ptr (parent (getproc s i)) (ptable s)\<rparr>;
               s = pass_children [0..<NPROC] i s
           in sched_switch (setproc i ((getproc s i)\<lparr>state := ZOMBIE\<rparr>) s)) = Ok () t"
    by (auto split: option.splits elim: call_OkE)
  have run: "state (getproc s i) \<noteq> SLEEPING" using assms(5) by simp
  from endsD [OF close_files_ends c] obtain ofs where kb1: "kept_but i s s1"
    and e1: "getproc s1 i = (getproc s i)\<lparr>ofile := ofs\<rparr>" and ofs: "\<forall>fd < NOFILE. ofs ! fd = None"
    using assms(3,4,6) run by auto
  have l1: "length (ptable s1) = NPROC" using kb1 assms(4) by (simp add: kept_but_def)
  have k2: "pkeep s1 s2" using keeps_iput [OF pkeep_refl, of s1 dp] i2 by simp
  have e2: "getproc s2 i = (getproc s i)\<lparr>ofile := ofs\<rparr>"
    using pkeep_entry [OF k2, of i] l1 assms(3) run e1 by simp
  define s3 where "s3 = setproc i ((getproc s2 i)\<lparr>cwd := None\<rparr>) s2"
  have kb3: "kept_but i s s3"
    unfolding s3_def by (rule kept_but_trans [OF kept_but_trans [OF kb1 pkeep_kept_but [OF k2]] setproc_kept_but])
  then have "length (ptable s3) = NPROC" using assms(4) by (simp add: kept_but_def)
  then have e3: "getproc s3 i = (getproc s i)\<lparr>ofile := ofs, cwd := None\<rparr>"
    using e2 assms(3) by (simp add: s3_def getproc_setproc)
  have "sched_switch (let s = pass_children [0..<NPROC] i (s3\<lparr>ptable := wakeup1_ptr (parent (getproc s i)) (ptable s3)\<rparr>)
                       in setproc i ((getproc s i)\<lparr>state := ZOMBIE\<rparr>) s) = Ok () t"
    using sw e3 by (simp add: Let_def s3_def [symmetric])
  with ini kb3 e3 ofs show ?thesis by (rule that)
qed

text \<open>The second half: the family is handed over, and whoever waits for news of it is woken.\<close>

lemma exit_hands_over:
  assumes "initproc s \<noteq> Some i" and "curproc s = Some i" and "i < NPROC" and "length (ptable s) = NPROC"
    and "state (getproc s i) = RUNNING" and "p < NPROC" and "p \<noteq> i" and "parent (getproc s i) = Some p"
  defines "s5 \<equiv> pass_children [0..<NPROC] i (s\<lparr>ptable := wakeup1_ptr (Some p) (ptable s)\<rparr>)"
  shows "length (ptable s5) = NPROC" and "curproc s5 = Some i" and "getproc s5 i = getproc s i" and "\<not> waits p s5"
    and "\<And>k. k < NPROC \<Longrightarrow> parent (getproc s5 k) = (if parent (getproc s k) = Some i then initproc s else parent (getproc s k))"
    and "\<And>n k. initproc s = Some n \<Longrightarrow> n < NPROC \<Longrightarrow> k < NPROC \<Longrightarrow> parent (getproc s k) = Some i \<Longrightarrow> state (getproc s k) = ZOMBIE \<Longrightarrow>
       \<not> waits n s5"
proof -
  define s4 where "s4 = s\<lparr>ptable := wakeup1_ptr (Some p) (ptable s)\<rparr>"
  have w: "woken (getproc s k) (getproc s4 k)" if "k < NPROC" for k
    using wakeup1_ptr_woken [of k "ptable s" "Some p"] that assms(4) by (simp add: s4_def getproc_def)
  have e4: "getproc s4 i = getproc s i" using w [OF assms(3)] woken_awake assms(5) by fastforce
  have l4: "length (ptable s4) = NPROC" using assms(4) by (simp add: s4_def wakeup1_ptr_def)
  note pc = pass_children_entry [of s4 i "[0..<NPROC]"]
  have h5: "handed i (initproc s) {0..<NPROC} k (getproc s4 k) (getproc s5 k)" if "k < NPROC" for k
    using pc assms(1) l4 that unfolding s5_def s4_def by simp
  show "length (ptable s5) = NPROC" "curproc s5 = Some i"
    using pc assms(1,2) l4 unfolding s5_def s4_def by simp_all
  show "parent (getproc s5 k) = (if parent (getproc s k) = Some i then initproc s else parent (getproc s k))" if "k < NPROC" for k
    using h5 [OF that] woken_sel [OF w [OF that]] that by (auto simp: handed_def dest!: woken_sel)
  show "getproc s5 i = getproc s i"
    using h5 [OF assms(3)] e4 assms(5,7,8) woken_awake by (fastforce simp: handed_def)
  have "\<not> waits p s4" using wakeup1_ptr_awake [of p "ptable s" "Some p"] assms(4,6) by (auto simp: waits_def s4_def getproc_def)
  then show "\<not> waits p s5" using pass_children_awake [of s4 i p "[0..<NPROC]"] assms(1,6) l4 unfolding s5_def s4_def by auto
  show "\<not> waits n s5" if "initproc s = Some n" "n < NPROC" "k < NPROC" "parent (getproc s k) = Some i" "state (getproc s k) = ZOMBIE" for n k
  proof -
    have "getproc s4 k = getproc s k" using w [OF that(3)] that(5) woken_awake by fastforce
    then show ?thesis
      unfolding s5_def s4_def [symmetric] using that assms(1) l4 by (intro pass_children_wakes [where k = k]) (auto simp: s4_def)
  qed
qed

text \<open>C14. \<^verbatim>\<open>exit\<close> leaves a zombie and no orphans: the process has closed all its files and left its directory, none of
  its children names it as parent any more (they are \<^verbatim>\<open>init\<close>'s now, all other family ties are as before), and neither its own
  parent nor, when a dead child was handed over, \<^verbatim>\<open>init\<close> is left sleeping in \<^verbatim>\<open>wait\<close>.\<close>

theorem exit_leaves_zombie:
  assumes "exit s = Ok () t" and "curproc s = Some i" and "i < NPROC" and "length (ptable s) = NPROC"
    and "state (getproc s i) = RUNNING" and "length (ofile (getproc s i)) = NOFILE"
    and "parent (getproc s i) = Some p" and "p < NPROC" and "p \<noteq> i"
  shows "curproc t = None \<and> state (getproc t i) = ZOMBIE \<and> pid (getproc t i) = pid (getproc s i) \<and>
    (\<forall>fd < NOFILE. ofile (getproc t i) ! fd = None) \<and> cwd (getproc t i) = None \<and>
    (\<forall>k < NPROC. parent (getproc t k) = (if parent (getproc s k) = Some i then initproc s else parent (getproc s k))) \<and>
    (\<forall>k < NPROC. parent (getproc t k) \<noteq> Some i) \<and> \<not> waits p t \<and>
    (\<forall>n k. initproc s = Some n \<and> n < NPROC \<and> k < NPROC \<and> parent (getproc s k) = Some i \<and> state (getproc s k) = ZOMBIE \<longrightarrow>
       \<not> waits n t)"
proof -
  from exit_releases [OF assms(1-6)] obtain s3 ofs where ini: "initproc s \<noteq> Some i" and kb: "kept_but i s s3"
    and e3: "getproc s3 i = (getproc s i)\<lparr>ofile := ofs, cwd := None\<rparr>" and ofs: "\<forall>fd < NOFILE. ofs ! fd = None"
    and sw: "sched_switch (let s = pass_children [0..<NPROC] i (s3\<lparr>ptable := wakeup1_ptr (parent (getproc s i)) (ptable s3)\<rparr>)
                       in setproc i ((getproc s i)\<lparr>state := ZOMBIE\<rparr>) s) = Ok () t" by blast
  define s5 where "s5 = pass_children [0..<NPROC] i (s3\<lparr>ptable := wakeup1_ptr (Some p) (ptable s3)\<rparr>)"
  have s3: "initproc s3 = initproc s" "curproc s3 = Some i" "length (ptable s3) = NPROC" using kb assms(2,4) by (simp_all add: kept_but_def)
  have p3: "state (getproc s3 i) = RUNNING" "parent (getproc s3 i) = Some p" using e3 assms(5,7) by simp_all
  note h = exit_hands_over [OF _ s3(2) assms(3) s3(3) p3(1) assms(8,9) p3(2), folded s5_def, unfolded s3(1), OF ini]
  have par3: "parent (getproc s3 k) = parent (getproc s k)" if "k < NPROC" for k
    using kb e3 that assms(4) woken_sel by (cases "k = i") (auto simp: kept_but_def)
  have z3: "state (getproc s3 k) = ZOMBIE" if "k < NPROC" "state (getproc s k) = ZOMBIE" for k
  proof -
    have "k \<noteq> i" using that(2) assms(5) by auto
    then have "woken (getproc s k) (getproc s3 k)" using kb that(1) assms(4) by (simp add: kept_but_def)
    then show ?thesis using woken_awake that(2) by fastforce
  qed
  have t: "t = (setproc i ((getproc s5 i)\<lparr>state := ZOMBIE\<rparr>) s5)\<lparr>curproc := None\<rparr>"
    using sw h(2) assms(7) by (auto simp: Let_def s5_def [symmetric] sched_switch_def split: if_splits)
  have et: "getproc t k = (if k = i then (getproc s5 i)\<lparr>state := ZOMBIE\<rparr> else getproc s5 k)" if "k < NPROC" for k
    using that h(1) by (simp add: t getproc_def setproc_def nth_update_if)
  have wt: "\<not> waits k s5 \<Longrightarrow> \<not> waits k t" if "k < NPROC" for k using et [OF that] by (auto simp: waits_def split: if_splits)
  have "parent (getproc t k) = (if parent (getproc s k) = Some i then initproc s else parent (getproc s k))" if "k < NPROC" for k
    using et [OF that] h(5) [OF that] par3 [OF that] by auto
  moreover have "\<not> waits n t" if "initproc s = Some n" "n < NPROC" "k < NPROC" "parent (getproc s k) = Some i" "state (getproc s k) = ZOMBIE" for n k
    using wt [OF that(2)] h(6) [OF that(1,2,3)] par3 [OF that(3)] z3 [OF that(3,5)] that(4) by simp
  ultimately show ?thesis
    using ini et [OF assms(3)] e3 h(3) ofs wt [OF assms(8) h(4)] by (auto simp: t)
qed

lemma close_files_none: "\<forall>fd \<in> set fds. ofile (getproc s i) ! fd = None \<Longrightarrow> close_files fds i s = Ok () s"
  by (induction fds) auto

text \<open>A process with no open files whose directory has other users always gets through \<^verbatim>\<open>exit\<close>.\<close>

lemma exit_returns:
  assumes "curproc s = Some i" and "i < NPROC" and "length (ptable s) = NPROC" and "initproc s \<noteq> Some i"
    and "\<forall>fd < NOFILE. ofile (getproc s i) ! fd = None" and "cwd (getproc s i) = Some dp" and "iref (geti s dp) \<noteq> 1"
  shows "\<exists>t. exit s = Ok () t"
proof -
  define s2 where "s2 = seti dp ((geti s dp)\<lparr>iref := iref (geti s dp) - 1\<rparr>) s"
  have ip: "iput dp s = Ok () s2" using assms(7) by (simp add: iput_def s2_def)
  define s4 where "s4 = (let s = setproc i ((getproc s2 i)\<lparr>cwd := None\<rparr>) s2 in s\<lparr>ptable := wakeup1_ptr (parent (getproc s i)) (ptable s)\<rparr>)"
  have s4: "initproc s4 \<noteq> Some i" "curproc s4 = Some i" "length (ptable s4) = NPROC"
    using assms(1,3,4) by (simp_all add: s4_def s2_def seti_def setproc_def Let_def wakeup1_ptr_def)
  have c: "close_files [0..<NOFILE] i s = Ok () s" using assms(5) by (intro close_files_none) simp
  have "exit s = sched_switch (let s = pass_children [0..<NPROC] i s4 in setproc i ((getproc s i)\<lparr>state := ZOMBIE\<rparr>) s)"
    using assms(1,4,6) c ip by (simp add: exit_def with_proc_def s4_def Let_def)
  moreover have "length (ptable (pass_children [0..<NPROC] i s4)) = NPROC" "curproc (pass_children [0..<NPROC] i s4) = Some i"
    using pass_children_entry [OF s4(1), of "[0..<NPROC]"] s4 by simp_all
  ultimately show ?thesis using assms(2) by (simp add: sched_switch_def Let_def setproc_def)
qed

text \<open>A small system: \<^verbatim>\<open>init\<close> waits, its child 1 runs and has a sleeping child 2 of its own.\<close>

definition demo_inode :: inode where
  "demo_inode = \<lparr>idev = 1, inum = 1, iref = 3, iflags = {I_VALID}, itype = 1, imajor = 0, iminor = 0, inlink = 1, isize = 0, addrs = replicate 12 0\<rparr>"

definition demo_table :: "proc list" where
  "demo_table =
     [proc0\<lparr>state := SLEEPING, pid := 1, pchan := Some (ChProc 0), cwd := Some 0\<rparr>,
      proc0\<lparr>state := RUNNING, pid := 2, parent := Some 0, cwd := Some 0\<rparr>,
      proc0\<lparr>state := SLEEPING, pid := 3, pchan := Some ChTicks, parent := Some 1, cwd := Some 0\<rparr>] @ replicate 61 proc0"

definition demo_st :: proc_st where
  "demo_st =
     \<lparr>pmem = (\<lambda>_. 0), freelist = 0x80200000, kend = 0x80110000, kdata = 0x80108000, kpgdir = 0,
      ptable = demo_table, nextpid = 4, ticks = 0, initproc = Some 0, curproc = Some 1,
      memdisk = (\<lambda>_. []), disksize = 0, diskops = [], bufs = [], lru = [],
      logstart = 0, logsize = 0, logbusy = False, logdev = 0, lh_n = 0, lh_sector = [], icache = demo_inode # replicate 49 (demo_inode\<lparr>iref := 0\<rparr>),
      devsw = [], crt = [], crtpos = 0, uart = False, uartout = [], inbuf = [], in_r = 0, in_w = 0, in_e = 0,
      history = [], historyIndex = 0, cmdCount = 0, upCount = 0, prevCount = 0,
      pipes = (\<lambda>_. \<lparr>pdata = [], nread = 0, nwrite = 0, readopen = False, writeopen = False\<rparr>), ftable = [],
      a_trapret = 0x80106000, a_forkret = 0x80104000, forkret_first = False\<rparr>"

lemma demo_st:
  "ptable demo_st = demo_table" "curproc demo_st = Some 1" "initproc demo_st = Some 0" "length demo_table = NPROC"
  "getproc demo_st 0 = proc0\<lparr>state := SLEEPING, pid := 1, pchan := Some (ChProc 0), cwd := Some 0\<rparr>"
  "getproc demo_st 1 = proc0\<lparr>state := RUNNING, pid := 2, parent := Some 0, cwd := Some 0\<rparr>"
  "getproc demo_st 2 = proc0\<lparr>state := SLEEPING, pid := 3, pchan := Some ChTicks, parent := Some 1, cwd := Some 0\<rparr>"
  "geti demo_st 0 = demo_inode"
  by (simp_all add: demo_st_def demo_table_def getproc_def geti_def NPROC_def numeral_2_eq_2)

lemma demo_unused: "2 < k \<Longrightarrow> k < NPROC \<Longrightarrow> getproc demo_st k = proc0"
  by (simp add: demo_st_def demo_table_def getproc_def NPROC_def nth_append)

theorem exit_leaves_zombie_witness:
  "\<exists>t. exit demo_st = Ok () t \<and> state (getproc t 1) = ZOMBIE \<and> parent (getproc t 2) = Some 0 \<and> \<not> waits 0 t"
proof -
  have "\<forall>fd < NOFILE. ofile (getproc demo_st 1) ! fd = None" unfolding demo_st by (simp add: proc0_def)
  then obtain t where t: "exit demo_st = Ok () t"
    using exit_returns [of demo_st 1 0] demo_st by (auto simp: NPROC_def demo_inode_def)
  have "state (getproc t 1) = ZOMBIE \<and> parent (getproc t 2) = Some 0 \<and> \<not> waits 0 t"
    using exit_leaves_zombie [OF t demo_st(2), of 0] demo_st by (simp add: NPROC_def proc0_def)
  with t show ?thesis by blast
qed



section \<open>fork\<close>

text \<open>The fresh entry that \<^verbatim>\<open>allocproc\<close> makes of an unused one.\<close>

definition fresh_proc :: "uint \<Rightarrow> uint \<Rightarrow> uint \<Rightarrow> uint \<Rightarrow> proc \<Rightarrow> proc" where
  "fresh_proc ident now k sp p =
     p\<lparr>state := EMBRYO, pid := ident, ctime := now, retime := 0, rutime := 0, stime := 0, fake := replicate 8 star,
       kstack := k, pcontext := sp\<rparr>"

lemma allocproc_ends:
  assumes "length (ptable s) = NPROC"
  shows "ends (\<lambda>po t. \<forall>np. po = Some np \<longrightarrow>
      np < NPROC \<and> state (getproc s np) = UNUSED \<and> (\<forall>j < np. state (getproc s j) \<noteq> UNUSED) \<and> kept_but np s t \<and>
      nextpid t = nextpid s + 1 \<and> (\<exists>k sp. getproc t np = fresh_proc (nextpid s) (ticks s) k sp (getproc s np)))
    (allocproc s)"
proof (cases "List.find (\<lambda>i. state (getproc s i) = UNUSED) [0..<NPROC]")
  case None
  then show ?thesis by (simp add: allocproc_def)
next
  case (Some np)
  then have np: "np < NPROC" "state (getproc s np) = UNUSED" "\<forall>j < np. state (getproc s j) \<noteq> UNUSED"
    by (auto simp: find_Some_iff)
  let ?p = "(getproc s np)\<lparr>state := EMBRYO, pid := nextpid s, ctime := ticks s, retime := 0, rutime := 0, stime := 0,
              fake := replicate 8 star\<rparr>"
  let ?s = "(setproc np ?p s)\<lparr>nextpid := nextpid s + 1\<rparr>"
  have kb: "kept_but np s ?s" using setproc_kept_but [of np s ?p] by (simp add: kept_but_def getproc_def)
  have e: "getproc ?s np = ?p" using np assms by (simp add: getproc_def setproc_def)
  have "ends (\<lambda>po t. \<forall>np. po = Some np \<longrightarrow>
      np < NPROC \<and> state (getproc s np) = UNUSED \<and> (\<forall>j < np. state (getproc s j) \<noteq> UNUSED) \<and> kept_but np s t \<and>
      nextpid t = nextpid s + 1 \<and> (\<exists>k sp. getproc t np = fresh_proc (nextpid s) (ticks s) k sp (getproc s np)))
    (call (kalloc ?s) (\<lambda>k s.
          let s = setproc np ((getproc s np)\<lparr>kstack := k\<rparr>) s in
          if k = 0 then Ok None (setproc np ((getproc s np)\<lparr>state := UNUSED\<rparr>) s)
          else
            let sp = k + KSTACKSIZE - 76 - 4;
                s = wr sp (a_trapret s) s;
                sp = sp - 20;
                s = setproc np ((getproc s np)\<lparr>pcontext := sp\<rparr>) s;
                s = s\<lparr>pmem := memset sp 0 20 (pmem s)\<rparr>
            in Ok (Some np) (wr (sp + 16) (a_forkret s) s)))"
  proof (rule ends_call [OF keeps_kalloc [OF pkeep_refl]])
    fix k t assume k: "pkeep ?s t"
    have l: "length (ptable t) = NPROC" using pkeep_length [OF k] assms by simp
    have et: "getproc t np = ?p" using pkeep_entry [OF k, of np] e np assms by simp
    have kt: "kept_but np s t" using kept_but_trans [OF kb pkeep_kept_but [OF k]] .
    have nx: "nextpid t = nextpid s + 1" using pkeep_sel [OF k] by simp
    have g: "getproc (wr x w u) j = getproc u j" "getproc (u\<lparr>pmem := m\<rparr>) j = getproc u j"
      "kept_but np s (wr x w u) = kept_but np s u" "kept_but np s (u\<lparr>pmem := m\<rparr>) = kept_but np s u"
      "length (ptable (wr x w u)) = length (ptable u)" "nextpid (wr x w u) = nextpid u"
      for x w m j and u :: "'a proc_st_scheme"
      by (simp_all add: wr_def getproc_def kept_but_def)
    have sp: "kept_but np s (setproc np q u) = kept_but np s u"
      if "length (ptable u) = NPROC" for q and u :: "'a proc_st_scheme"
      using that assms by (auto simp: kept_but_def getproc_setproc)
    show "ends (\<lambda>po t. \<forall>np. po = Some np \<longrightarrow>
      np < NPROC \<and> state (getproc s np) = UNUSED \<and> (\<forall>j < np. state (getproc s j) \<noteq> UNUSED) \<and> kept_but np s t \<and>
      nextpid t = nextpid s + 1 \<and> (\<exists>k sp. getproc t np = fresh_proc (nextpid s) (ticks s) k sp (getproc s np)))
      (let s = setproc np ((getproc t np)\<lparr>kstack := k\<rparr>) t in
          if k = 0 then Ok None (setproc np ((getproc s np)\<lparr>state := UNUSED\<rparr>) s)
          else
            let sp = k + KSTACKSIZE - 76 - 4;
                s = wr sp (a_trapret s) s;
                sp = sp - 20;
                s = setproc np ((getproc s np)\<lparr>pcontext := sp\<rparr>) s;
                s = s\<lparr>pmem := memset sp 0 20 (pmem s)\<rparr>
            in Ok (Some np) (wr (sp + 16) (a_forkret s) s))"
      using np l et kt nx by (auto simp: Let_def g sp getproc_setproc fresh_proc_def)
  qed
  then show ?thesis by (simp add: allocproc_def Some Let_def setproc_def)
qed

lemma dup_files_ends:
  "np < length (ptable s) \<Longrightarrow> i < length (ptable s) \<Longrightarrow> i \<noteq> np \<Longrightarrow> state (getproc s i) \<noteq> SLEEPING \<Longrightarrow>
   state (getproc s np) \<noteq> SLEEPING \<Longrightarrow> distinct fds \<Longrightarrow>
   ends (\<lambda>_ t. kept_but np s t \<and> nextpid t = nextpid s \<and> (\<exists>ofs. getproc t np = (getproc s np)\<lparr>ofile := ofs\<rparr> \<and>
      length ofs = length (ofile (getproc s np)) \<and>
      (\<forall>fd < length ofs. ofs ! fd = (if fd \<in> set fds \<and> ofile (getproc s i) ! fd \<noteq> None then ofile (getproc s i) ! fd
                                    else ofile (getproc s np) ! fd))))
     (dup_files fds i np s)"
proof (induction fds arbitrary: s)
  case Nil
  show ?case using pkeep_kept_but [OF pkeep_refl] by (auto intro!: exI [of _ "ofile (getproc s np)"])
next
  case (Cons fd fds)
  show ?case
  proof (cases "ofile (getproc s i) ! fd")
    case None
    have eq: "(if k \<in> set (fd # fds) \<and> ofile (getproc s i) ! k \<noteq> None then ofile (getproc s i) ! k else x) =
        (if k \<in> set fds \<and> ofile (getproc s i) ! k \<noteq> None then ofile (getproc s i) ! k else x)" for k x
      using None by auto
    have "dup_files (fd # fds) i np s = dup_files fds i np s" using None by simp
    then show ?thesis using Cons.IH [OF Cons.prems(1-5)] Cons.prems(6) unfolding eq by simp
  next
    case (Some f)
    have "keeps s (filedup f s)" by (rule frame) simp
    then have "ends (\<lambda>_ t. kept_but np s t \<and> nextpid t = nextpid s \<and> (\<exists>ofs. getproc t np = (getproc s np)\<lparr>ofile := ofs\<rparr> \<and>
      length ofs = length (ofile (getproc s np)) \<and>
      (\<forall>k < length ofs. ofs ! k = (if k \<in> set (fd # fds) \<and> ofile (getproc s i) ! k \<noteq> None then ofile (getproc s i) ! k
                                    else ofile (getproc s np) ! k))))
      (call (filedup f s) (\<lambda>f s. dup_files fds i np (setproc np ((getproc s np)\<lparr>ofile := (ofile (getproc s np))[fd := Some f]\<rparr>) s)))"
    proof (rule ends_call)
      fix f' t assume k: "pkeep s t" and fd: "filedup f s = Ok f' t"
      have f: "f' = f" using fd by (auto simp: filedup_def split: if_splits)
      let ?t = "setproc np ((getproc t np)\<lparr>ofile := (ofile (getproc t np))[fd := Some f']\<rparr>) t"
      have e: "getproc t np = getproc s np" "getproc t i = getproc s i"
        using pkeep_entry [OF k] Cons.prems by blast+
      have len: "length (ptable t) = length (ptable s)" using k by (rule pkeep_length)
      have e': "getproc ?t np = (getproc s np)\<lparr>ofile := (ofile (getproc s np))[fd := Some f]\<rparr>" "getproc ?t i = getproc s i"
        using len Cons.prems(1-3) by (simp_all add: getproc_setproc e f)
      have kb: "kept_but np s ?t" using pkeep_kept_but [OF k] setproc_kept_but by (rule kept_but_trans)
      have ih: "ends (\<lambda>_ u. kept_but np ?t u \<and> nextpid u = nextpid ?t \<and> (\<exists>ofs. getproc u np = (getproc ?t np)\<lparr>ofile := ofs\<rparr> \<and>
        length ofs = length (ofile (getproc ?t np)) \<and>
        (\<forall>k < length ofs. ofs ! k = (if k \<in> set fds \<and> ofile (getproc ?t i) ! k \<noteq> None then ofile (getproc ?t i) ! k
                                    else ofile (getproc ?t np) ! k)))) (dup_files fds i np ?t)"
        using Cons.prems len by (intro Cons.IH) (simp_all add: e')
      show "ends (\<lambda>_ t. kept_but np s t \<and> nextpid t = nextpid s \<and> (\<exists>ofs. getproc t np = (getproc s np)\<lparr>ofile := ofs\<rparr> \<and>
        length ofs = length (ofile (getproc s np)) \<and>
        (\<forall>k < length ofs. ofs ! k = (if k \<in> set (fd # fds) \<and> ofile (getproc s i) ! k \<noteq> None then ofile (getproc s i) ! k
                                    else ofile (getproc s np) ! k))))
        (dup_files fds i np ?t)"
      proof (rule ends_mono [OF ih], elim conjE exE)
        fix u ofs
        assume kb': "kept_but np ?t u" and nx: "nextpid u = nextpid ?t" and o: "getproc u np = (getproc ?t np)\<lparr>ofile := ofs\<rparr>"
          "length ofs = length (ofile (getproc ?t np))"
          "\<forall>k < length ofs. ofs ! k = (if k \<in> set fds \<and> ofile (getproc ?t i) ! k \<noteq> None then ofile (getproc ?t i) ! k
                                    else ofile (getproc ?t np) ! k)"
        have "ofs ! k = (if k \<in> set (fd # fds) \<and> ofile (getproc s i) ! k \<noteq> None then ofile (getproc s i) ! k
                                    else ofile (getproc s np) ! k)" if "k < length ofs" for k
          using o(2,3) that Some by (cases "k = fd") (auto simp: e')
        moreover have "nextpid u = nextpid s" using nx pkeep_sel [OF k] by simp
        ultimately show "kept_but np s u \<and> nextpid u = nextpid s \<and> (\<exists>ofs. getproc u np = (getproc s np)\<lparr>ofile := ofs\<rparr> \<and>
          length ofs = length (ofile (getproc s np)) \<and>
          (\<forall>k < length ofs. ofs ! k = (if k \<in> set (fd # fds) \<and> ofile (getproc s i) ! k \<noteq> None then ofile (getproc s i) ! k
                                    else ofile (getproc s np) ! k)))"
          using o(1,2) kept_but_trans [OF kb kb'] by (intro conjI exI [of _ ofs]) (simp_all add: e')
      qed
    qed
    then show ?thesis using Some by simp
  qed
qed

text \<open>The entry of a child, made in the slot \<open>slot\<close> by the parent \<open>p\<close> in entry \<open>i\<close>.\<close>

definition child_of :: "nat \<Rightarrow> proc \<Rightarrow> uint \<Rightarrow> proc \<Rightarrow> proc \<Rightarrow> bool" where
  "child_of i p ident slot c \<longleftrightarrow>
     state c = RUNNABLE \<and> pid c = ident \<and> parent c = Some i \<and> sz c = sz p \<and> tf c = (tf p)\<lparr>tf_eax := 0\<rparr> \<and> cwd c = cwd p \<and>
     pname c = safestrcpy (pname slot) (lptr (pname p)) 16 \<and> killed c = killed slot \<and>
     stime c = 0 \<and> retime c = 0 \<and> rutime c = 0 \<and> length (ofile c) = length (ofile slot) \<and>
     (\<forall>fd < min NOFILE (length (ofile c)). ofile c ! fd = (if ofile p ! fd \<noteq> None then ofile p ! fd else ofile slot ! fd))"

definition forked :: "nat \<Rightarrow> 'a sched_scheme \<Rightarrow> int \<Rightarrow> 'a sched_scheme \<Rightarrow> bool" where
  "forked i s r t \<longleftrightarrow>
     (\<exists>np < NPROC. np \<noteq> i \<and> state (getproc s np) = UNUSED \<and> (\<forall>j < np. state (getproc s j) \<noteq> UNUSED) \<and>
        r = sint (nextpid s) \<and> kept_but np s t \<and> nextpid t = nextpid s + 1 \<and>
        child_of i (getproc s i) (nextpid s) (getproc s np) (getproc t np))"

lemma fork_tail:
  assumes "np < NPROC" and "i < NPROC" and "i \<noteq> np" and "length (ptable t) = NPROC" and "state (getproc t i) = RUNNING"
    and "state (getproc t np) = EMBRYO"
  shows "ends (\<lambda>r u. r = sint (pid (getproc t np)) \<and> kept_but np t u \<and> nextpid u = nextpid t \<and>
      (\<exists>ofs. getproc u np = (getproc t np)\<lparr>ofile := ofs, cwd := cwd (getproc t i), state := RUNNABLE,
               pname := safestrcpy (pname (getproc t np)) (lptr (pname (getproc t i))) 16\<rparr> \<and>
             length ofs = length (ofile (getproc t np)) \<and>
             (\<forall>fd < length ofs. ofs ! fd = (if fd < NOFILE \<and> ofile (getproc t i) ! fd \<noteq> None then ofile (getproc t i) ! fd
                                    else ofile (getproc t np) ! fd))))
    (call (dup_files [0..<NOFILE] i np t) (\<lambda>_ s.
           case cwd (getproc s i) of
             None \<Rightarrow> Fault ''idup''
           | Some dp \<Rightarrow>
               call (idup dp s) (\<lambda>dp s.
               let q = (getproc s np)\<lparr>cwd := Some dp, state := RUNNABLE\<rparr>
               in Ok (sint (pid q))
                    (setproc np (q\<lparr>pname := safestrcpy (pname q) (lptr (pname (getproc s i))) 16\<rparr>) s))))"
    (is "ends ?P (call ?m ?f)")
proof -
  have "?P r u" if "call ?m ?f = Ok r u" for r u
  proof -
    from that obtain v where d: "dup_files [0..<NOFILE] i np t = Ok () v" and f: "?f () v = Ok r u" by (auto elim: call_OkE)
    from endsD [OF dup_files_ends d] obtain ofs where kb: "kept_but np t v" and nx: "nextpid v = nextpid t"
      and ev: "getproc v np = (getproc t np)\<lparr>ofile := ofs\<rparr>" and ofs: "length ofs = length (ofile (getproc t np))"
      "\<forall>fd < length ofs. ofs ! fd = (if fd < NOFILE \<and> ofile (getproc t i) ! fd \<noteq> None then ofile (getproc t i) ! fd
                                    else ofile (getproc t np) ! fd)"
      using assms by auto
    have ei: "getproc v i = getproc t i" using kb assms woken_awake by (fastforce simp: kept_but_def)
    have lv: "length (ptable v) = NPROC" using kb assms by (simp add: kept_but_def)
    from f ei obtain dp where dp: "cwd (getproc t i) = Some dp" by (auto split: option.splits)
    let ?v = "seti dp ((geti v dp)\<lparr>iref := iref (geti v dp) + 1\<rparr>) v"
    have g: "getproc ?v j = getproc v j" "length (ptable ?v) = NPROC" "kept_but np t ?v = kept_but np t v" "nextpid ?v = nextpid v" for j
      using lv by (simp_all add: getproc_def seti_def kept_but_def)
    have u: "u = setproc np ((getproc v np)\<lparr>cwd := Some dp, state := RUNNABLE,
        pname := safestrcpy (pname (getproc v np)) (lptr (pname (getproc v i))) 16\<rparr>) ?v"
      and r: "r = sint (pid (getproc t np))"
      using f dp ei ev by (simp_all add: idup_def Let_def g)
    have "kept_but np t u" using kept_but_trans [of np t ?v u] setproc_kept_but [of np ?v] kb g(3) by (simp add: u)
    moreover have "getproc u np = (getproc t np)\<lparr>ofile := ofs, cwd := cwd (getproc t i), state := RUNNABLE,
               pname := safestrcpy (pname (getproc t np)) (lptr (pname (getproc t i))) 16\<rparr>"
      using assms(1) g(2) by (simp add: u getproc_setproc ev ei dp)
    moreover have "nextpid u = nextpid t" using nx g(4) by (simp add: u)
    ultimately show ?thesis using r ofs by blast
  qed
  then show ?thesis by (simp add: ends_def)
qed

lemma fork_ends:
  assumes "curproc s = Some i" and "i < NPROC" and "length (ptable s) = NPROC" and "state (getproc s i) = RUNNING"
  shows "ends (\<lambda>r t. r = - 1 \<or> forked i s r t) (fork s)"
proof -
  have "r = - 1 \<or> forked i s r t" if "fork s = Ok r t" for r t
  proof -
    from that assms(1) obtain po s1 where a: "allocproc s = Ok po s1" and rest: "(case po of
       None \<Rightarrow> Ok (- 1) s1
     | Some np \<Rightarrow>
         call (copyuvm (pgdir (getproc s1 i)) (sz (getproc s1 i)) s1) (\<lambda>d s.
         let s = setproc np ((getproc s np)\<lparr>pgdir := d\<rparr>) s in
         if d = 0 then
           call (kfree (kstack (getproc s np)) s) (\<lambda>_ s.
           Ok (- 1) (setproc np ((getproc s np)\<lparr>kstack := 0, state := UNUSED\<rparr>) s))
         else
           let p = getproc s i;
               s = setproc np ((getproc s np)\<lparr>sz := sz p, parent := Some i, tf := (tf p)\<lparr>tf_eax := 0\<rparr>\<rparr>) s in
           call (dup_files [0..<NOFILE] i np s) (\<lambda>_ s.
           case cwd (getproc s i) of
             None \<Rightarrow> Fault ''idup''
           | Some dp \<Rightarrow>
               call (idup dp s) (\<lambda>dp s.
               let q = (getproc s np)\<lparr>cwd := Some dp, state := RUNNABLE\<rparr>
               in Ok (sint (pid q))
                    (setproc np (q\<lparr>pname := safestrcpy (pname q) (lptr (pname (getproc s i))) 16\<rparr>) s))))) = Ok r t"
      by (auto simp: fork_def with_proc_def elim!: call_OkE)
    show ?thesis
    proof (cases po)
      case None
      with rest show ?thesis by simp
    next
      case (Some np)
      from endsD [OF allocproc_ends [OF assms(3)] a] Some obtain k sp where
        np: "np < NPROC" "state (getproc s np) = UNUSED" "\<forall>j < np. state (getproc s j) \<noteq> UNUSED" and kb1: "kept_but np s s1"
        and nx1: "nextpid s1 = nextpid s + 1" and e1: "getproc s1 np = fresh_proc (nextpid s) (ticks s) k sp (getproc s np)"
        by auto
      have ne: "i \<noteq> np" using np(2) assms(4) by auto
      have l1: "length (ptable s1) = NPROC" using kb1 assms(3) by (simp add: kept_but_def)
      have i1: "getproc s1 i = getproc s i" using kb1 ne assms woken_awake by (fastforce simp: kept_but_def)
      from rest Some obtain d s2 where c: "copyuvm (pgdir (getproc s1 i)) (sz (getproc s1 i)) s1 = Ok d s2" by (auto elim: call_OkE)
      have k2: "pkeep s1 s2" using keeps_copyuvm [OF pkeep_refl] c by (metis keeps_simps(1))
      have l2: "length (ptable s2) = NPROC" using pkeep_length [OF k2] l1 by simp
      have e2: "getproc s2 np = getproc s1 np" "getproc s2 i = getproc s i"
        using pkeep_entry [OF k2] np e1 i1 l1 assms(2,4) by (simp_all add: fresh_proc_def)
      show ?thesis
      proof (cases "d = 0")
        case True
        with rest Some c show ?thesis by (auto simp: Let_def elim: call_OkE)
      next
        case False
        define s3 where "s3 = setproc np ((getproc s1 np)\<lparr>pgdir := d, sz := sz (getproc s i), parent := Some i,
                     tf := (tf (getproc s i))\<lparr>tf_eax := 0\<rparr>\<rparr>) s2"
        have e3: "getproc s3 np = (getproc s1 np)\<lparr>pgdir := d, sz := sz (getproc s i), parent := Some i,
                     tf := (tf (getproc s i))\<lparr>tf_eax := 0\<rparr>\<rparr>" "getproc s3 i = getproc s i"
          using l2 np(1) assms(2) ne by (simp_all add: s3_def getproc_setproc e2)
        have st3: "state (getproc s3 np) = EMBRYO" "pid (getproc s3 np) = nextpid s" "ofile (getproc s3 np) = ofile (getproc s np)"
          "length (ptable s3) = NPROC" using l2 by (simp_all add: e3(1) e1 fresh_proc_def) (simp add: s3_def)
        have t: "call (dup_files [0..<NOFILE] i np s3) (\<lambda>_ s.
           case cwd (getproc s i) of
             None \<Rightarrow> Fault ''idup''
           | Some dp \<Rightarrow>
               call (idup dp s) (\<lambda>dp s.
               let q = (getproc s np)\<lparr>cwd := Some dp, state := RUNNABLE\<rparr>
               in Ok (sint (pid q))
                    (setproc np (q\<lparr>pname := safestrcpy (pname q) (lptr (pname (getproc s i))) 16\<rparr>) s))) = Ok r t"
          using rest False ne l2 np(1) assms(2)
          by (simp add: s3_def Some c Let_def getproc_setproc e2)
        have kb3: "kept_but np s s3"
          unfolding s3_def using kept_but_trans [OF kept_but_trans [OF kb1 pkeep_kept_but [OF k2]] setproc_kept_but] .
        have nx3: "nextpid s3 = nextpid s + 1" using nx1 pkeep_sel [OF k2] by (simp add: s3_def)
        from endsD [OF fork_tail [OF np(1) assms(2) ne st3(4) _ st3(1)] t, unfolded e3(2) st3 nx3] assms(4)
        obtain ofs where r: "r = sint (nextpid s)" and kbt: "kept_but np s3 t" and nxt: "nextpid t = nextpid s + 1"
          and et: "getproc t np = (getproc s3 np)\<lparr>ofile := ofs, cwd := cwd (getproc s i), state := RUNNABLE,
               pname := safestrcpy (pname (getproc s3 np)) (lptr (pname (getproc s i))) 16\<rparr>"
          and ofs: "length ofs = length (ofile (getproc s np))"
            "\<forall>fd < length ofs. ofs ! fd = (if fd < NOFILE \<and> ofile (getproc s i) ! fd \<noteq> None then ofile (getproc s i) ! fd
                                    else ofile (getproc s np) ! fd)"
          by blast
        have "kept_but np s t" using kb3 kbt by (rule kept_but_trans)
        moreover have "child_of i (getproc s i) (nextpid s) (getproc s np) (getproc t np)"
          using ofs by (simp add: child_of_def et e3 e1 fresh_proc_def)
        ultimately show ?thesis using np ne r nxt unfolding forked_def by blast
      qed
    qed
  qed
  then show ?thesis by (simp add: ends_def)
qed

text \<open>The memory of the new kernel stack, and \<^verbatim>\<open>allocproc\<close> when there is a page for it.\<close>

definition stack_mem :: "'a proc_st_scheme \<Rightarrow> uint \<Rightarrow> mem" where
  "stack_mem s k =
     store32 (memset (k + KSTACKSIZE - 100) 0 20 (store32 (pmem s) (k + KSTACKSIZE - 80) (a_trapret s))) (k + KSTACKSIZE - 84) (a_forkret s)"

lemma allocproc_ok:
  assumes "List.find (\<lambda>i. state (getproc s i) = UNUSED) [0..<NPROC] = Some i" and "freelist s = k" and "k \<noteq> 0" and "i < length (ptable s)"
  shows "allocproc s = Ok (Some i) (s\<lparr>pmem := stack_mem s k, freelist := load32 (pmem s) k,
    ptable := (ptable s)[i := fresh_proc (nextpid s) (ticks s) k (k + KSTACKSIZE - 100) (getproc s i)], nextpid := nextpid s + 1\<rparr>)"
  using assms by (cases s) (simp add: allocproc_def Let_def kalloc_def setproc_def getproc_def wr_def fresh_proc_def stack_mem_def)

lemma kill_from_first:
  "n < length tab \<Longrightarrow> pid (tab ! n) = k \<Longrightarrow> \<forall>j < n. pid (tab ! j) \<noteq> k \<Longrightarrow>
   kill_from k tab = Some (tab[n := (tab ! n)\<lparr>killed := True, state := (if state (tab ! n) = SLEEPING then RUNNABLE else state (tab ! n))\<rparr>])"
proof (induction tab arbitrary: n)
  case (Cons p tab)
  show ?case
  proof (cases n)
    case 0
    with Cons.prems show ?thesis by simp
  next
    case (Suc m)
    have "pid p \<noteq> k" using Cons.prems(3) Suc by (auto dest: spec [of _ 0])
    moreover have "\<forall>j < m. pid (tab ! j) \<noteq> k" using Cons.prems(3) Suc by (auto dest: spec [of _ "Suc _"])
    ultimately show ?thesis using Cons.IH [of m] Cons.prems Suc by simp
  qed
qed simp

lemma less_3: "(j :: nat) < 3 \<longleftrightarrow> j = 0 \<or> j = 1 \<or> j = 2"
  by auto

lemma find_first:
  assumes "n < m" and "P n" and "\<forall>j < n. \<not> P j"
  shows "List.find P [0..<m] = Some n"
proof -
  show ?thesis unfolding find_Some_iff using assms by (intro exI [of _ n]) simp
qed

text \<open>C39. Killing process 0 hits an unused entry, whose process id is 0, and succeeds; the mark stays, so that the next process
  that \<^verbatim>\<open>allocproc\<close> creates is already killed.\<close>

theorem kill_zero_dooms_child:
  assumes "kill 0 s = Ok k t" and "np < NPROC" and "length (ptable s) = NPROC"
    and "state (getproc s np) = UNUSED" and "pid (getproc s np) = 0"
    and "\<forall>j < np. state (getproc s j) \<noteq> UNUSED \<and> pid (getproc s j) \<noteq> 0"
    and "allocproc t = Ok (Some q) u"
  shows "k = 0 \<and> q = np \<and> pid (getproc u q) = nextpid s \<and> killed (getproc u q)"
proof -
  have "kill_from 0 (ptable s) = Some ((ptable s)[np := (getproc s np)\<lparr>killed := True, state := UNUSED\<rparr>])"
    using kill_from_first [of np "ptable s" 0] assms(2-6) by (simp add: getproc_def)
  then have k: "k = 0" and t: "t = setproc np ((getproc s np)\<lparr>killed := True, state := UNUSED\<rparr>) s"
    using assms(1) by (simp_all add: kill_def setproc_def)
  have e: "getproc t np = (getproc s np)\<lparr>killed := True, state := UNUSED\<rparr>" "\<forall>j < NPROC. j \<noteq> np \<longrightarrow> getproc t j = getproc s j"
    using assms(2,3) by (simp_all add: t getproc_setproc)
  have "length (ptable t) = NPROC" "nextpid t = nextpid s" using assms(3) by (simp_all add: t)
  then obtain kst sp where q: "q < NPROC" "state (getproc t q) = UNUSED" "\<forall>j < q. state (getproc t j) \<noteq> UNUSED"
    "getproc u q = fresh_proc (nextpid s) (ticks t) kst sp (getproc t q)"
    using endsD [OF allocproc_ends assms(7)] by auto
  have "\<not> np < q" using q(3) e(1) by auto
  moreover have "\<not> q < np" using q(1,2) e(2) assms(6) by auto
  ultimately have "q = np" by simp
  then show ?thesis using q(4) e(1) k by (simp add: fresh_proc_def)
qed

theorem kill_zero_dooms_child_witness:
  "\<exists>t u. kill 0 demo_st = Ok 0 t \<and> allocproc t = Ok (Some 3) u \<and> pid (getproc u 3) = 4 \<and> killed (getproc u 3)"
proof -
  have f: "kill_from 0 demo_table = Some (demo_table[3 := proc0\<lparr>killed := True\<rparr>])"
    using kill_from_first [of 3 demo_table 0] by (auto simp: demo_table_def proc0_def less_3)
  define t where "t = demo_st\<lparr>ptable := demo_table[3 := proc0\<lparr>killed := True\<rparr>]\<rparr>"
  have k: "kill 0 demo_st = Ok 0 t" using f by (simp add: kill_def demo_st(1) t_def)
  have l: "\<forall>j < 3. state (getproc demo_st j) \<noteq> UNUSED \<and> pid (getproc demo_st j) \<noteq> 0"
    using demo_st by (auto simp: less_3)
  have "List.find (\<lambda>i. state (getproc t i) = UNUSED) [0..<NPROC] = Some 3"
  proof (rule find_first)
    show "3 < NPROC" "state (getproc t 3) = UNUSED" by (simp_all add: NPROC_def t_def getproc_def demo_table_def proc0_def)
    show "\<forall>j < 3. state (getproc t j) \<noteq> UNUSED" using l by (auto simp: t_def getproc_def demo_st(1))
  qed
  moreover have "freelist t = 0x80200000" "3 < length (ptable t)" using demo_st by (simp_all add: t_def NPROC_def) (simp add: demo_st_def)
  ultimately obtain u where u: "allocproc t = Ok (Some 3) u" using allocproc_ok [of t 3] by auto
  have "getproc demo_st 3 = proc0" by (rule demo_unused) (simp_all add: NPROC_def)
  then show ?thesis
    using kill_zero_dooms_child [OF k, of 3 3 u] l u k demo_st by (auto simp: NPROC_def proc0_def demo_st_def)
qed

end
