(* ===== verification/Proc_Fork.thy ===== *)
theory Proc_Fork
  imports Proc_Life Vm_Copy
begin

text \<open>
  \<^verbatim>\<open>fork\<close> as a whole: the process table (\<open>Proc_Life\<close>) and the copied memory (\<open>Vm_Copy\<close>) together. With enough free pages and a
  free entry \<^verbatim>\<open>fork\<close> returns, and the child reads at every user address what its parent reads, from pages of its own.
\<close>

section \<open>The kernel stack\<close>

lemma stack_mem_frame:
  assumes "page_aligned k" and "\<not> in_page k a"
  shows "stack_mem s k a = pmem s a"
proof -
  have o: "k + KSTACKSIZE - 80 = k + 4 * 1004" "k + KSTACKSIZE - 84 = k + 4 * 1003" "k + KSTACKSIZE - 100 = k + 4 * 999"
    by (simp_all add: KSTACKSIZE_def)
  have u: "unat (k + 4 * 999) = unat k + 3996" using unat_entry [OF assms(1), of 999] by simp
  have "(k + 4 * 999) mod 4 = 0"
    using entry_aligned [OF assms(1), of 999] by (simp add: aligned4_unat word_unat_eq_iff unat_mod dvd_eq_mod_eq_0)
  then have "memset (k + 4 * 999) 0 20 m a = m a" for m
    using stosl_other [of "k + 4 * 999" 5 a 0 m] u page_end [OF assms(1)] assms(2) by (auto simp: memset_def Let_def in_page_def)
  moreover have "store32 m (k + 4 * 1003) w a = m a" "store32 m (k + 4 * 1004) w a = m a" for m w
    by (rule store_entry_frame [OF assms(1) _ assms(2)], simp)+
  ultimately show ?thesis unfolding stack_mem_def o by (simp only:)
qed

section \<open>Shared files\<close>

lemma dup_files_ok:
  assumes "\<forall>fd \<in> set fds. \<forall>f. ofile (getproc s i) ! fd = Some f \<longrightarrow> 1 \<le> fref (getf s f)"
    and "i < length (ptable s)" and "np < length (ptable s)" and "i \<noteq> np"
  shows "\<exists>tab ft. dup_files fds i np s = Ok () (s\<lparr>ptable := tab, ftable := ft\<rparr>) \<and> length tab = length (ptable s) \<and>
    tab ! i = getproc s i \<and> pgdir (tab ! np) = pgdir (getproc s np) \<and> pid (tab ! np) = pid (getproc s np)"
  using assms
proof (induction fds arbitrary: s)
  case Nil
  then show ?case by (intro exI [of _ "ptable s"] exI [of _ "ftable s"]) (simp add: getproc_def)
next
  case (Cons fd fds)
  show ?case
  proof (cases "ofile (getproc s i) ! fd")
    case None
    with Cons show ?thesis by simp
  next
    case (Some f)
    define u where "u = setf f ((getf s f)\<lparr>fref := fref (getf s f) + 1\<rparr>) s"
    define q where "q = (getproc u np)\<lparr>ofile := (ofile (getproc u np))[fd := Some f]\<rparr>"
    define v where "v = setproc np q u"
    have pos: "1 \<le> fref (getf s f)" using Cons.prems(1) Some by simp
    have st: "dup_files (fd # fds) i np s = dup_files fds i np v"
      using Some pos by (simp add: filedup_def u_def v_def q_def)
    have gu: "getproc u k = getproc s k" "ptable u = ptable s" for k by (simp_all add: u_def setf_def getproc_def)
    have gv: "getproc v i = getproc s i" "getproc v np = q" "length (ptable v) = length (ptable s)"
      using Cons.prems(2-4) gu by (simp_all add: v_def getproc_setproc)
    have "1 \<le> fref (getf v g)" if "1 \<le> fref (getf s g)" for g
      using that pos by (cases "f < length (ftable s)"; cases "f = g") (auto simp: v_def u_def setproc_def setf_def getf_def list_update_beyond)
    then have "\<forall>fd \<in> set fds. \<forall>f. ofile (getproc v i) ! fd = Some f \<longrightarrow> 1 \<le> fref (getf v f)" using Cons.prems(1) gv(1) by simp
    from Cons.IH [OF this] Cons.prems(2-4) gv obtain tab ft where r: "dup_files fds i np v = Ok () (v\<lparr>ptable := tab, ftable := ft\<rparr>)"
      "length tab = length (ptable s)" "tab ! i = getproc s i" "pgdir (tab ! np) = pgdir q" "pid (tab ! np) = pid q" by auto
    have "v\<lparr>ptable := tab, ftable := ft\<rparr> = s\<lparr>ptable := tab, ftable := ft\<rparr>" by (simp add: v_def u_def setproc_def setf_def)
    then show ?thesis using st r gu by (intro exI [of _ tab] exI [of _ ft]) (simp add: q_def)
  qed
qed

section \<open>The whole call\<close>

text \<open>The resources \<^verbatim>\<open>fork\<close> needs: the free pages \<open>k # x # X\<close> (the child's kernel stack, its page directory, tables and memory) and
  references that the file table knows.\<close>

definition can_fork :: "nat \<Rightarrow> uint \<Rightarrow> uint \<Rightarrow> uint list \<Rightarrow> 'a proc_st_scheme \<Rightarrow> bool" where
  "can_fork i k x X s \<longleftrightarrow>
     (let p = getproc s i in
      curproc s = Some i \<and> i < NPROC \<and> length (ptable s) = NPROC \<and> state p = RUNNING \<and>
      user_mem s (pgdir p) (unat (sz p)) (k # x # X) \<and> unat (sz p) \<le> 2 ^ 31 \<and>
      64 + 2 * ((unat (sz p) + 4095) div 4096) \<le> length X \<and>
      page_aligned (kdata s) \<and> KERNLINK < kdata s \<and> kdata s < p2v PHYSTOP \<and>
      cwd p \<noteq> None \<and> (\<forall>fd < NOFILE. \<forall>f. ofile p ! fd = Some f \<longrightarrow> 1 \<le> fref (getf s f)))"

lemma alloc_user_mem:
  assumes "user_mem s pd len (k # xs)" and "\<And>a. \<not> in_page k a \<Longrightarrow> m a = pmem s a"
    and "pmem t = m" and "freelist t = load32 (pmem s) k" and "kend t = kend s"
  shows "user_mem t pd len xs" and "unat va < len \<Longrightarrow> vread pd m va = vread pd (pmem s) va"
proof -
  have inv: "pt_inv s pd (k # xs)" using assms(1) by (simp add: user_mem_def)
  note al = pt_inv_alloc [OF inv]
  let ?s = "s\<lparr>freelist := load32 (pmem s) k\<rparr>"
  have same: "m a = pmem ?s a" if "own (pmem ?s) pd a \<or> in_pages xs a" for a
    using al(6) [of a] that assms(2) [of a] by auto
  note fr = pt_inv_frame [OF al(2) same]
  have "pt_inv t pd xs" using fr(1) assms(3-5) by (simp add: pt_inv_def pool_def page_ok_def)
  then show "user_mem t pd len xs"
    using assms(1,3) fr(2) by (simp add: user_mem_def frame_of_def)
  show "vread pd m va = vread pd (pmem s) va" if "unat va < len"
    using vread_parent [OF assms(1) that, of m] assms(2) by (simp add: in_pages_def)
qed

lemma fork_returns:
  assumes "can_fork i k x X s" and "np < NPROC" and "state (getproc s np) = UNUSED" and "\<forall>j < np. state (getproc s j) \<noteq> UNUSED"
  defines "pd \<equiv> pgdir (getproc s i)"
  shows "\<exists>t. fork s = Ok (sint (nextpid s)) t \<and> pgdir (getproc t np) = x \<and>
    (\<forall>va. unat va < unat (sz (getproc s i)) \<longrightarrow> vread x (pmem t) va = vread pd (pmem s) va \<and> vread pd (pmem t) va = vread pd (pmem s) va \<and>
       frame_of (pmem t) x va \<in> set (x # X) \<and> frame_of (pmem s) pd va \<notin> set (x # X))"
proof -
  let ?p = "getproc s i"
  have h: "curproc s = Some i" "i < NPROC" "length (ptable s) = NPROC" "state ?p = RUNNING" "user_mem s pd (unat (sz ?p)) (k # x # X)"
    "unat (sz ?p) \<le> 2 ^ 31" "64 + 2 * ((unat (sz ?p) + 4095) div 4096) \<le> length X" "page_aligned (kdata s)" "KERNLINK < kdata s"
    "kdata s < p2v PHYSTOP" "cwd ?p \<noteq> None" "\<forall>fd < NOFILE. \<forall>f. ofile ?p ! fd = Some f \<longrightarrow> 1 \<le> fref (getf s f)"
    using assms(1) by (simp_all add: can_fork_def Let_def pd_def)
  have ne: "i \<noteq> np" using h(4) assms(3) by auto
  have pl: "pool s (k # x # X)" using h(5) by (simp add: user_mem_def pt_inv_def)
  have k: "freelist s = k" "k \<noteq> 0" "page_aligned k" using pl by (auto simp: pool_def dest: page_ok_aligned)
  define s1 where "s1 = s\<lparr>pmem := stack_mem s k, freelist := load32 (pmem s) k,
    ptable := (ptable s)[np := fresh_proc (nextpid s) (ticks s) k (k + KSTACKSIZE - 100) (getproc s np)], nextpid := nextpid s + 1\<rparr>"
  have a: "allocproc s = Ok (Some np) s1"
    unfolding s1_def using find_first [OF assms(2,3,4)] k(1,2) h(3) assms(2) by (intro allocproc_ok) simp_all
  have g1: "getproc s1 i = ?p" "getproc s1 np = fresh_proc (nextpid s) (ticks s) k (k + KSTACKSIZE - 100) (getproc s np)" "length (ptable s1) = NPROC"
    using h(3) assms(2) ne by (simp_all add: s1_def getproc_def)
  have um1: "user_mem s1 pd (unat (sz ?p)) (x # X)"
    by (rule alloc_user_mem(1) [OF h(5) stack_mem_frame [OF k(3), of _ s]]) (simp_all add: s1_def)
  have kd: "kdata s1 = kdata s" by (simp add: s1_def)
  from copyuvm_spec [OF um1 h(6)] h(7-10) obtain s2 m f where c: "copyuvm pd (sz ?p) s1 = Ok x s2" and s2: "s2 = s1\<lparr>pmem := m, freelist := f\<rparr>"
    and v: "\<forall>va. unat va < unat (sz ?p) \<longrightarrow> vread x (pmem s2) va = vread pd (pmem s1) va \<and> vread pd (pmem s2) va = vread pd (pmem s1) va \<and>
       frame_of (pmem s2) x va \<in> set (x # X) \<and> frame_of (pmem s1) pd va \<notin> set (x # X)" by (auto simp: kd)
  have x: "x \<noteq> 0" using pl by (auto simp: pool_def)
  have g2: "getproc s2 j = getproc s1 j" "length (ptable s2) = NPROC" for j using g1(3) by (simp_all add: s2 getproc_def)
  define q where "q = (getproc s1 np)\<lparr>pgdir := x, sz := sz ?p, parent := Some i, tf := (tf ?p)\<lparr>tf_eax := 0\<rparr>\<rparr>"
  define s3 where "s3 = setproc np q s2"
  have g3: "getproc s3 i = ?p" "getproc s3 np = q" "length (ptable s3) = NPROC" "pmem s3 = pmem s2" "\<And>f. getf s3 f = getf s f"
    using g2 g1(1) assms(2) h(2) ne by (simp_all add: s3_def getproc_setproc) (simp_all add: setproc_def s2 s1_def getf_def)
  obtain tab ft where d: "dup_files [0..<NOFILE] i np s3 = Ok () (s3\<lparr>ptable := tab, ftable := ft\<rparr>)" and
    tab: "length tab = NPROC" "tab ! i = ?p" "pgdir (tab ! np) = x" "pid (tab ! np) = nextpid s"
    using dup_files_ok [of "[0..<NOFILE]" s3 i np] g3 h(2,12) assms(2) ne by (auto simp: q_def g1(2) fresh_proc_def)
  obtain dp where dp: "cwd ?p = Some dp" using h(11) by blast
  define s4 where "s4 = s3\<lparr>ptable := tab, ftable := ft\<rparr>"
  have g4: "getproc s4 i = ?p" "getproc s4 np = tab ! np" using tab by (simp_all add: s4_def getproc_def)
  define s5 where "s5 = seti dp ((geti s4 dp)\<lparr>iref := iref (geti s4 dp) + 1\<rparr>) s4"
  define t where "t = setproc np ((tab ! np)\<lparr>cwd := Some dp, state := RUNNABLE, pname := safestrcpy (pname (tab ! np)) (lptr (pname ?p)) 16\<rparr>) s5"
  have g5: "idup dp s4 = Ok dp s5" "getproc s5 j = getproc s4 j" for j by (simp_all add: idup_def s5_def seti_def getproc_def)
  have d': "dup_files [0..<NOFILE] i np (setproc np ((getproc s1 np)\<lparr>pgdir := x, sz := sz ?p, parent := Some i, tf := (tf ?p)\<lparr>tf_eax := 0\<rparr>\<rparr>) s2) = Ok () s4"
    using d unfolding s4_def s3_def q_def .
  have s2': "getproc (setproc np r s2) i = ?p" "getproc (setproc np r s2) np = r" for r
    using g2 g1(1) assms(2) h(2) ne by (simp_all add: getproc_setproc)
  have ft: "fork s = Ok (sint (nextpid s)) t"
    unfolding fork_def with_proc_def h(1) option.case a call.simps(1) g1(1) c [unfolded pd_def] Let_def g2(1) s2' setproc_setproc
    by (simp add: x d' g4 dp g5 tab t_def)
  have "pmem t = pmem s2" using g3(4) by (simp add: t_def s5_def setproc_def seti_def s4_def)
  moreover have "pgdir (getproc t np) = x" using tab assms(2) by (simp add: t_def s5_def getproc_def setproc_def seti_def s4_def)
  moreover have "vread pd (pmem s1) va = vread pd (pmem s) va" "frame_of (pmem s1) pd va = frame_of (pmem s) pd va" if "unat va < unat (sz ?p)" for va
  proof -
    have "pmem s1 a = pmem s a" if "\<not> in_pages (k # x # X) a" for a
      using that by (simp add: in_pages_def s1_def stack_mem_frame [OF k(3)])
    then show "vread pd (pmem s1) va = vread pd (pmem s) va" "frame_of (pmem s1) pd va = frame_of (pmem s) pd va"
      using vread_parent [OF h(5) that, of "pmem s1"] vpte_parent [OF h(5) that, of "pmem s1"] by (simp_all add: frame_of_def)
  qed
  ultimately show ?thesis using ft v by (intro exI [of _ t]) simp
qed

text \<open>C3. \<^verbatim>\<open>fork\<close> succeeds when the resources are there, and the child is a copy of its parent: it returns the child's
  process id to the caller, and at every address below the size the child reads the byte its parent reads there, from a page that was
  free and so is no page of the parent; the parent's own memory is as before.\<close>

theorem fork_copies_memory:
  assumes "can_fork i k x X s" and "np < NPROC" and "state (getproc s np) = UNUSED" and "\<forall>j < np. state (getproc s j) \<noteq> UNUSED"
  shows "\<exists>t. fork s = Ok (sint (nextpid s)) t \<and> pgdir (getproc t np) = x \<and>
    (\<forall>va. unat va < unat (sz (getproc s i)) \<longrightarrow>
       vread x (pmem t) va = vread (pgdir (getproc s i)) (pmem s) va \<and>
       vread (pgdir (getproc s i)) (pmem t) va = vread (pgdir (getproc s i)) (pmem s) va \<and>
       frame_of (pmem t) x va \<in> set (x # X) \<and> frame_of (pmem s) (pgdir (getproc s i)) va \<notin> set (x # X))"
  using fork_returns [OF assms] .

text \<open>A running process of one page.\<close>

definition demo_parent :: "kmem \<Rightarrow> uint \<Rightarrow> proc_st" where
  "demo_parent s pd =
     demo_st\<lparr>pmem := pmem s, freelist := freelist s, kend := kend s, kdata := kdata s,
             ptable := demo_table[1 := (demo_table ! 1)\<lparr>pgdir := pd, sz := 4096\<rparr>]\<rparr>"

lemma user_mem_cong:
  "pmem t = pmem s \<Longrightarrow> freelist t = freelist s \<Longrightarrow> kend t = kend s \<Longrightarrow> user_mem t pd n xs = user_mem s pd n xs"
  by (simp add: user_mem_def pt_inv_def pool_def page_ok_def)

lemma demo_parent:
  "\<exists>(s :: kmem) pd k x X. can_fork 1 k x X (demo_parent s pd)"
proof -
  from one_page_process obtain s :: kmem and pd k Y where u: "user_mem s pd 4096 (k # Y)" "67 \<le> length Y"
    "page_aligned (kdata s)" "KERNLINK < kdata s" "kdata s < p2v PHYSTOP" by blast
  obtain x X where Y: "Y = x # X" "66 \<le> length X" using u(2) by (cases Y) auto
  have g: "getproc (demo_parent s pd) 1 = proc0\<lparr>state := RUNNING, pid := 2, parent := Some 0, cwd := Some 0, pgdir := pd, sz := 4096\<rparr>"
    by (simp add: demo_parent_def getproc_def demo_table_def)
  have "user_mem (demo_parent s pd) pd 4096 (k # x # X)"
    using u(1) user_mem_cong [of "demo_parent s pd" s] by (simp add: demo_parent_def Y)
  then have "can_fork 1 k x X (demo_parent s pd)"
    using u Y demo_st(2,4) unfolding can_fork_def Let_def g by (simp add: demo_parent_def NPROC_def proc0_def)
  then show ?thesis by blast
qed

lemma demo_parent_slot:
  "state (getproc (demo_parent s pd) 3) = UNUSED" "\<forall>j < 3. state (getproc (demo_parent s pd) j) \<noteq> UNUSED" "nextpid (demo_parent s pd) = 4"
  "sz (getproc (demo_parent s pd) 1) = 4096"
  by (auto simp: demo_parent_def getproc_def demo_table_def proc0_def less_3) (simp add: demo_st_def)

theorem fork_copies_memory_witness:
  "\<exists>s pd x t. fork (demo_parent s pd) = Ok 4 t \<and> vread x (pmem t) 0x10 = vread pd (pmem s) 0x10 \<and> pgdir (getproc t 3) = x"
proof -
  from demo_parent obtain s :: kmem and pd k x X where c: "can_fork 1 k x X (demo_parent s pd)" by blast
  have p: "pgdir (getproc (demo_parent s pd) 1) = pd" "pmem (demo_parent s pd) = pmem s" by (simp_all add: demo_parent_def getproc_def demo_table_def)
  from fork_copies_memory [OF c _ demo_parent_slot(1,2), unfolded demo_parent_slot p] obtain t where
    t: "fork (demo_parent s pd) = Ok (sint (4 :: uint)) t" "pgdir (getproc t 3) = x"
      "unat (0x10 :: uint) < unat (4096 :: uint) \<longrightarrow> vread x (pmem t) 0x10 = vread pd (pmem s) 0x10" by (auto simp: NPROC_def)
  then show ?thesis by (intro exI [of _ s] exI [of _ pd] exI [of _ x] exI [of _ t]) simp
qed

text \<open>C37. A \<^verbatim>\<open>fork\<close> that succeeds makes one child, in the first unused entry: it has the next process id, which \<^verbatim>\<open>fork\<close> returns,
  the caller as its parent, and the caller's size, directory, name and trap frame except for a zero result register; it shares
  the caller's open files, and its statistics start at zero. The caller is unchanged and every other process is at most woken.\<close>

theorem fork_makes_child:
  assumes "fork s = Ok r t" and "r \<noteq> - 1" and "curproc s = Some i" and "i < NPROC" and "length (ptable s) = NPROC"
    and "state (getproc s i) = RUNNING"
  shows "getproc t i = getproc s i \<and> forked i s r t"
proof -
  have f: "forked i s r t" using endsD [OF fork_ends [OF assms(3-6)] assms(1)] assms(2) by simp
  then obtain np where "np \<noteq> i" "kept_but np s t" by (auto simp: forked_def)
  then have "woken (getproc s i) (getproc t i)" using assms(4,5) by (simp add: kept_but_def)
  with f woken_awake assms(6) show ?thesis by fastforce
qed

theorem fork_makes_child_witness:
  "\<exists>s pd t. fork (demo_parent s pd) = Ok 4 t \<and> getproc t 1 = getproc (demo_parent s pd) 1 \<and> forked 1 (demo_parent s pd) 4 t"
proof -
  from demo_parent obtain s :: kmem and pd k x X where c: "can_fork 1 k x X (demo_parent s pd)" by blast
  have "\<exists>t. fork (demo_parent s pd) = Ok (sint (nextpid (demo_parent s pd))) t"
    using fork_returns [OF c _ demo_parent_slot(1,2)] by (auto simp: NPROC_def)
  then obtain t where t: "fork (demo_parent s pd) = Ok 4 t" by (auto simp: demo_parent_slot)
  have "curproc (demo_parent s pd) = Some 1" "length (ptable (demo_parent s pd)) = NPROC" "state (getproc (demo_parent s pd) 1) = RUNNING"
    using c by (simp_all add: can_fork_def Let_def)
  then have "getproc t 1 = getproc (demo_parent s pd) 1 \<and> forked 1 (demo_parent s pd) 4 t"
    using fork_makes_child [OF t] by (simp add: NPROC_def)
  with t show ?thesis by blast
qed

end
