(* ===== verification/Fs_Blocks.thy ===== *)
theory Fs_Blocks
  imports Dir
begin

text \<open>
  The file system above the buffer cache and the log. Between two accesses to a block the file system is at rest: no buffer
  is held, and the blocks have the contents \<open>fview\<close>. The locale \<open>block_layer\<close> is the contract that \<^verbatim>\<open>fs.c\<close> relies on: reading a
  block returns its contents and releasing it changes nothing, and a block that is changed, logged and released has its
  new contents. It is interpreted on \<^verbatim>\<open>bread\<close>, \<^verbatim>\<open>log_write\<close> and \<^verbatim>\<open>brelse\<close>.
\<close>

section \<open>The interface\<close>

locale block_layer =
  fixes rest :: "'s \<Rightarrow> bool" and view :: "'s \<Rightarrow> nat \<Rightarrow> block" and usable :: "'s \<Rightarrow> nat \<Rightarrow> bool" and space :: "'s \<Rightarrow> nat"
    and same :: "'s \<Rightarrow> 's \<Rightarrow> bool"
    and bd :: "nat \<Rightarrow> 's \<Rightarrow> (nat, 's) outcome" and md :: "nat \<Rightarrow> (block \<Rightarrow> block) \<Rightarrow> 's \<Rightarrow> 's"
    and lg :: "nat \<Rightarrow> 's \<Rightarrow> (unit, 's) outcome" and rel :: "nat \<Rightarrow> 's \<Rightarrow> (unit, 's) outcome" and contents :: "'s \<Rightarrow> nat \<Rightarrow> block"
  assumes read_law: "rest s \<Longrightarrow> usable s k \<Longrightarrow>
      \<exists>b t u. bd k s = Ok b t \<and> contents t b = view s k \<and> same s t \<and> rel b t = Ok () u \<and>
        rest u \<and> view u = view s \<and> space u = space s \<and> same s u"
    and write_law: "rest s \<Longrightarrow> usable s k \<Longrightarrow> 0 < space s \<Longrightarrow> length (f (view s k)) = BSIZE \<Longrightarrow>
      \<exists>b t v u. bd k s = Ok b t \<and> contents t b = view s k \<and> same s t \<and> lg b (md b f t) = Ok () v \<and> rel b v = Ok () u \<and>
        rest u \<and> view u = (view s)(k := f (view s k)) \<and> space s \<le> Suc (space u) \<and> same s u"
    and same_refl: "same s s"
    and same_trans: "same s t \<Longrightarrow> same t u \<Longrightarrow> same s u"
    and same_usable: "same s t \<Longrightarrow> usable t = usable s"
    and view_length: "rest s \<Longrightarrow> usable s k \<Longrightarrow> length (view s k) = BSIZE"
begin

text \<open>Read a block, release it, go on with its contents.\<close>

lemma read_release:
  assumes "rest s" and "usable s k"
  obtains u where "rest u" and "view u = view s" and "space u = space s" and "same s u"
    and "\<And>f. call (bd k s) (\<lambda>b t. call (rel b t) (\<lambda>_ u. f (contents t b) u)) = (f (view s k) u :: ('r, 's) outcome)"
proof -
  from read_law [OF assms] obtain b t u where "bd k s = Ok b t" "contents t b = view s k" "rel b t = Ok () u"
    "rest u" "view u = view s" "space u = space s" "same s u" by blast
  then show ?thesis by (intro that [of u]) simp_all
qed

text \<open>Change a block in a transaction and go on.\<close>

lemma write_release:
  assumes "rest s" and "usable s k" and "0 < space s" and "length (f (view s k)) = BSIZE"
  obtains u where "rest u" and "view u = (view s)(k := f (view s k))" and "space s \<le> Suc (space u)" and "same s u"
    and "\<And>g. call (bd k s) (\<lambda>b t. call (lg b (md b f t)) (\<lambda>_ t. call (rel b t) (\<lambda>_ u. g u))) = (g u :: ('r, 's) outcome)"
proof -
  from write_law [where f = f, OF assms] obtain b t v u where "bd k s = Ok b t" "lg b (md b f t) = Ok () v" "rel b v = Ok () u"
    "rest u" "view u = (view s)(k := f (view s k))" "space s \<le> Suc (space u)" "same s u" by blast
  then show ?thesis by (intro that [of u]) simp_all
qed

end

section \<open>The buffer cache and the log provide it\<close>

definition at_rest :: "'a log_st_scheme \<Rightarrow> bool" where
  "at_rest s \<longleftrightarrow> log_inv s \<and> held s = {}"

text \<open>The contents of the blocks outside the log.\<close>

definition fview :: "'a log_st_scheme \<Rightarrow> nat \<Rightarrow> block" where
  "fview s k = (if k \<in> log_area s then [] else bview s k)"

definition fs_block :: "'a log_st_scheme \<Rightarrow> nat \<Rightarrow> bool" where
  "fs_block s k \<longleftrightarrow> k < disksize s \<and> k \<notin> log_area s"

text \<open>How many more blocks the running transaction may log.\<close>

definition log_space :: "'a log_st_scheme \<Rightarrow> nat" where
  "log_space s = (if logbusy s then min (LOGSIZE - lh_n s) (logsize s - 1 - lh_n s) else 0)"

definition same_fs :: "'a log_st_scheme \<Rightarrow> 'a log_st_scheme \<Rightarrow> bool" where
  "same_fs s t \<longleftrightarrow> log_st.more t = log_st.more s \<and> disksize t = disksize s \<and> log_area t = log_area s \<and> logbusy t = logbusy s"

lemma get_block:
  assumes "at_rest s" and "fs_block s k"
  obtains b t where "bread 1 k s = Ok b t" and "bdata (getb t b) = fview s k" and "log_inv t" and "holds t b k" and "held t = {k}"
    and "settled t k" and "bview t = bview s" and "same_rest s t"
proof -
  have inv: "log_inv s" "held s = {}" "k < disksize s" "k \<notin> log_area s" using assms by (simp_all add: at_rest_def fs_block_def)
  note f = log_inv_facts [OF inv(1)]
  have "card (held s \<union> dirty s) < NBUF" using f(1-3) inv(2) by simp
  then obtain b t where r: "bread 1 k s = Ok b t" using bread_ok [OF log_inv_bio [OF inv(1)] inv(3)] inv(2) by auto
  note b = bread_spec [OF log_inv_bio [OF inv(1)] r] bread_sectors [OF log_inv_bio [OF inv(1)] r] bread_rest [OF log_inv_bio [OF inv(1)] r]
  show ?thesis
    using that [OF r] b bread_log [OF inv(1) r inv(4)] inv by (simp add: fview_def)
qed

lemma put_block:
  assumes "log_inv s" and "holds s b k" and "held s = {k}" and "settled s k"
  obtains u where "brelse b s = Ok () u" and "at_rest u" and "bview u = bview s" and "same_rest s u"
proof -
  have "B_BUSY \<in> flags (getb s b)" using assms(2) by (simp add: holds_def)
  then obtain u where u: "brelse b s = Ok () u" using brelse_Ok by blast
  note r = brelse_log [OF assms(1,2,4) u]
  show ?thesis using that [OF u] r assms(3) by (simp add: at_rest_def)
qed

lemma same_rest_fs: "same_rest s t \<Longrightarrow> same_fs s t"
  by (simp add: same_fs_def same_rest_log log_frame)

lemma same_rest_space: "same_rest s t \<Longrightarrow> log_space t = log_space s"
  by (simp add: log_space_def same_rest_log)

lemma fview_same: "same_rest s t \<Longrightarrow> bview t = bview s \<Longrightarrow> fview t = fview s"
  by (simp add: fview_def fun_eq_iff log_frame)

lemma change_block:
  assumes rest: "at_rest s" and k: "fs_block s k" and sp: "0 < log_space s" and len: "length (f (fview s k)) = BSIZE"
  shows "\<exists>b t v u. bread 1 k s = Ok b t \<and> bdata (getb t b) = fview s k \<and> same_fs s t \<and> log_write b (bmodify b f t) = Ok () v \<and> brelse b v = Ok () u \<and>
     at_rest u \<and> fview u = (fview s)(k := f (fview s k)) \<and> log_space s \<le> Suc (log_space u) \<and> same_fs s u"
proof -
  from get_block [OF rest k] obtain b t where r: "bread 1 k s = Ok b t" "bdata (getb t b) = fview s k" and t: "log_inv t" "holds t b k" "held t = {k}"
    "bview t = bview s" "same_rest s t" by blast
  have k': "k \<notin> log_area s" "k < disksize s" using k by (simp_all add: fs_block_def)
  have v: "fview s k = bview t k" using t(4) k' by (simp add: fview_def)
  have len': "length (f (bview t k)) = BSIZE" using len v by simp
  define m where "m = bmodify b f t"
  note bm = bmodify_sectors [OF log_inv_bio [OF t(1)] t(2), of f, OF len', folded m_def]
  have m: "log_inv m" using bmodify_log [OF t(1,2), of f, OF len'] by (simp add: m_def)
  have hm: "holds m b k" "held m = {k}" using bm(3,4) t(2,3) by simp_all
  have sm: "same_rest s m" using same_rest_trans [OF t(5) bm(8)] .
  have n: "logbusy m" "lh_n m < LOGSIZE" "Suc (lh_n m) < logsize m"
  proof -
    note e = same_rest_log [OF sm]
    show "logbusy m" using sp e(3) by (simp add: log_space_def split: if_splits)
    show "lh_n m < LOGSIZE" "Suc (lh_n m) < logsize m" using sp e(2,5) by (simp_all add: log_space_def split: if_splits)
  qed
  have "card (held m \<union> logged m) < NBUF"
  proof -
    have "card (held m \<union> logged m) \<le> Suc (lh_n m)" using card_Un_le [of "{k}" "logged m"] hm(2) log_inv_facts(2) [OF m] by simp
    moreover have "logsize m \<le> NBUF" using m by (simp add: log_inv_def log_geometry_def)
    ultimately show ?thesis using n(3) by simp
  qed
  from log_write_total [OF m hm(1) n this] obtain w where w: "log_write b m = Ok () w" by blast
  note lw = log_write_inv [OF m hm(1) w] and le = log_write_effect [OF m hm(1) w]
  have hw: "holds w b k" "held w = {k}" using lw(2,3) hm by simp_all
  from put_block [OF lw(1) hw lw(5)] obtain u where u: "brelse b w = Ok () u" "at_rest u" "bview u = bview w" "same_rest w u" by blast
  have area: "log_area w = log_area s" "log_area u = log_area s" using lw(8) log_frame(1) [OF sm] log_frame(1) [OF u(4)] by simp_all
  have "fview u = (fview s)(k := f (fview s k))"
  proof
    fix j
    show "fview u j = ((fview s)(k := f (fview s k))) j"
      using lw(6) [of j] u(3) bm(2) t(4) v k'(1) log_frame(1) [OF sm] by (cases "j = k") (simp_all add: fview_def area)
  qed
  moreover have "same_fs s u"
    using same_rest_log(3,7,8) [OF sm] same_rest_log(3,7,8) [OF u(4)] le(11,15,18) area by (simp add: same_fs_def)
  moreover have "log_space s \<le> Suc (log_space u)"
  proof -
    have "lh_n u \<le> Suc (lh_n s)" "logsize u = logsize s" "logbusy u = logbusy s"
      using lw(12) le(13,15) same_rest_log(2,3,5) [OF sm] same_rest_log(2,3,5) [OF u(4)] by simp_all
    then show ?thesis unfolding log_space_def by (cases "logbusy s") (simp_all add: min_le_iff_disj, linarith)
  qed
  ultimately show ?thesis using r u(1,2) w same_rest_fs [OF t(5)] unfolding m_def by blast
qed

interpretation fsb: block_layer at_rest fview fs_block log_space same_fs "bread 1" bmodify log_write brelse "\<lambda>s b. bdata (getb s b)"
proof
  fix s t u :: "'a log_st_scheme" and k and f :: "block \<Rightarrow> block"
  show "same_fs s s" by (simp add: same_fs_def)
  show "same_fs s t \<Longrightarrow> same_fs t u \<Longrightarrow> same_fs s u" by (simp add: same_fs_def)
  show "same_fs s t \<Longrightarrow> fs_block t = fs_block s" by (simp add: same_fs_def fs_block_def fun_eq_iff)
  show "at_rest s \<Longrightarrow> fs_block s k \<Longrightarrow> length (fview s k) = BSIZE"
    using bview_length [of s k] log_inv_bio [of s] by (simp add: at_rest_def fs_block_def fview_def)
  show "at_rest s \<Longrightarrow> fs_block s k \<Longrightarrow> 0 < log_space s \<Longrightarrow> length (f (fview s k)) = BSIZE \<Longrightarrow>
      \<exists>b t v u. bread 1 k s = Ok b t \<and> bdata (getb t b) = fview s k \<and> same_fs s t \<and> log_write b (bmodify b f t) = Ok () v \<and> brelse b v = Ok () u \<and>
        at_rest u \<and> fview u = (fview s)(k := f (fview s k)) \<and> log_space s \<le> Suc (log_space u) \<and> same_fs s u"
    by (rule change_block)
  show "\<exists>b t u. bread 1 k s = Ok b t \<and> bdata (getb t b) = fview s k \<and> same_fs s t \<and> brelse b t = Ok () u \<and>
      at_rest u \<and> fview u = fview s \<and> log_space u = log_space s \<and> same_fs s u" if rest: "at_rest s" "fs_block s k"
  proof -
    from get_block [OF rest] obtain b t where r: "bread 1 k s = Ok b t" "bdata (getb t b) = fview s k" and t: "log_inv t" "holds t b k" "held t = {k}"
      "settled t k" "bview t = bview s" "same_rest s t" by blast
    from put_block [OF t(1-4)] obtain u where u: "brelse b t = Ok () u" "at_rest u" "bview u = bview t" "same_rest t u" by blast
    have su: "same_rest s u" using same_rest_trans [OF t(6) u(4)] .
    have "same_fs s t" "same_fs s u" "log_space u = log_space s" "fview u = fview s"
      using same_rest_fs [OF t(6)] same_rest_fs [OF su] same_rest_space [OF su] fview_same [OF su] t(5) u(3) by simp_all
    then show ?thesis using r u(1,2) by (intro exI [of _ b] exI [of _ t] exI [of _ u]) blast
  qed
qed

lemma same_fs_icache: "same_fs s t \<Longrightarrow> icache t = icache s"
  by (cases s; cases t; simp add: same_fs_def)

lemma same_fs_geti: "same_fs s t \<Longrightarrow> geti t = geti s"
  by (simp add: geti_def same_fs_icache fun_eq_iff)

section \<open>A mounted disk\<close>

text \<open>After \<^verbatim>\<open>binit\<close>, \<^verbatim>\<open>initlog\<close> and \<^verbatim>\<open>begin_trans\<close> on a disk with an empty log the file system is at rest in a transaction.\<close>

lemma mount:
  fixes s :: "'a log_st_scheme"
  assumes "length (bufs s) = NBUF" and "\<forall>x \<in> set (bufs s). flags x = {} \<and> length (bdata x) = BSIZE"
    and "\<forall>k. length (memdisk s k) = BSIZE" and "length (lh_sector s) = LOGSIZE" and "\<not> logbusy s"
    and sb: "sb_log (memdisk s 1) = (st, n)" and "head_n (memdisk s st) = 0"
    and geo: "1 < disksize s" "0 < n" "n \<le> NBUF" "st + n \<le> disksize s" "disksize s \<le> 2 ^ 32"
  obtains u t where "initlog (binit s) = Ok () u" and "begin_trans u = Ok () t" and "at_rest t" and "log_space t = min LOGSIZE (n - 1)"
    and "log_area t = {st..<st + n}" and "disksize t = disksize s" and "log_st.more t = log_st.more s"
    and "\<And>k. k \<notin> {st..<st + n} \<Longrightarrow> fview t k = memdisk s k"
proof -
  have b: "booted (binit s)" using assms(1-4) by (rule booted_binit)
  have e: "memdisk (binit s) = memdisk s" "disksize (binit s) = disksize s" "log_st.more (binit s) = log_st.more s" "logbusy (binit s) = logbusy s"
    using assms(1) by (simp_all add: binit_eq)
  have "header_ok st (disksize (binit s)) (memdisk (binit s))"
    using recover_empty(1) [of "memdisk s" st "disksize s"] assms(7) geo(2,4) by (simp add: e)
  from recovered_inv [OF b _ this, of n] sb geo obtain u where u: "initlog (binit s) = Ok () u" "log_inv u" "held u = {}" "lh_n u = 0" "\<not> logbusy u"
    "disksize u = disksize s" "logstart u = st" "logsize u = n" "log_st.more u = log_st.more s"
    "\<And>k. bview u k = apply_ops (recover_ops st (memdisk s)) (memdisk s) k" using assms(5) by (auto simp: e)
  define t where "t = u\<lparr>logbusy := True\<rparr>"
  have bt: "begin_trans u = Ok () t" using u(5) by (simp add: begin_trans_def t_def)
  note s1 = begin_trans_inv [OF bt u(2)]
  have "log_area u = {st..<st + n}" using u(7,8) by (simp add: log_area_def)
  then have area: "log_area t = {st..<st + n}" by (simp add: t_def log_area_def)
  have "fview t k = memdisk s k" if "k \<notin> {st..<st + n}" for k
    using that area u(10) [of k] recover_empty(2) [of "memdisk s" st "disksize s" k] assms(7) geo(2,4) by (auto simp: fview_def t_def)
  moreover have "at_rest t" using s1(1,5) u(3) by (simp add: at_rest_def)
  ultimately show ?thesis
    using that [OF u(1) bt] area u(4,6,8,9) by (simp add: t_def log_space_def)
qed

text \<open>A small disk: the super block says 40 blocks, 8 inodes and 10 log blocks; block 2 holds the inodes, block 4 the bitmap, in which the blocks
  0 to 6 and the log are marked used.\<close>

definition fs_disk :: "nat \<Rightarrow> block" where
  "fs_disk k =
     (if k = 1 then put32 0 40 (put32 8 8 (put32 12 10 (replicate BSIZE 0)))
      else if k = 4 then (replicate BSIZE 0)[0 := 0x7F, 3 := 0xC0, 4 := 0xFF]
      else replicate BSIZE 0)"

definition fs_demo :: "inode list \<Rightarrow> cons_st" where
  "fs_demo c =
     \<lparr>pmem = (\<lambda>_. 0), freelist = 0, kend = KERNBASE, kdata = KERNBASE, kpgdir = 0, ptable = [], nextpid = 1, ticks = 0, initproc = None, curproc = None,
      memdisk = fs_disk, disksize = 40, diskops = [],
      bufs = replicate NBUF \<lparr>flags = {}, bdev = 0, sector = 0, bdata = replicate BSIZE 0\<rparr>, lru = [],
      logstart = 0, logsize = 0, logbusy = False, logdev = 0, lh_n = 0, lh_sector = replicate LOGSIZE 0, icache = c,
      devsw = [], crt = [], crtpos = 0, uart = False, uartout = [], inbuf = [], in_r = 0, in_w = 0, in_e = 0,
      history = [], historyIndex = 0, cmdCount = 0, upCount = 0, prevCount = 0\<rparr>"

definition demo_ino :: "uint \<Rightarrow> uint list \<Rightarrow> uint \<Rightarrow> inode" where
  "demo_ino i as n =
     \<lparr>idev = 1, inum = i, iref = 1, iflags = {I_VALID}, itype = T_FILE, imajor = 0, iminor = 0, inlink = 1, isize = n,
      addrs = as @ replicate (NDIRECT + 1 - length as) 0\<rparr>"

lemma fs_disk_sb: "sb_of (fs_disk 1) = \<lparr>sb_size = 40, sb_nblocks = 0, sb_ninodes = 8, sb_nlog = 10\<rparr>" "length (fs_disk k) = BSIZE"
  by (simp_all add: sb_of_def fs_disk_def get32_put32_other BSIZE_def) (simp add: get32_def put32_def)

lemma fs_mounted:
  obtains t :: cons_st where "at_rest t" and "log_space t = 9" and "log_area t = {30..<40}" and "disksize t = 40" and "icache t = c"
    and "\<And>k. k < 30 \<Longrightarrow> fview t k = fs_disk k"
proof -
  have sb: "sb_log (memdisk (fs_demo c) 1) = (30, 10)" using fs_disk_sb by (simp add: sb_log_def fs_demo_def)
  have hd: "head_n (memdisk (fs_demo c) 30) = 0" by (simp add: head_n_def fs_demo_def fs_disk_def get32_def BSIZE_def)
  obtain u t where t: "at_rest t" "log_space t = min LOGSIZE (10 - 1)" "log_area t = {30..<30 + 10}" "disksize t = disksize (fs_demo c)"
    "log_st.more t = log_st.more (fs_demo c)" "\<And>k. k \<notin> {30..<30 + 10} \<Longrightarrow> fview t k = memdisk (fs_demo c) k"
    by (rule mount [of "fs_demo c", OF _ _ _ _ _ sb hd]) (auto simp: fs_demo_def fs_disk_sb NBUF_def)
  have "icache t = icache (fs_demo c)" using t(5) by (cases t) (simp add: fs_demo_def)
  then show ?thesis using that [of t] t by (simp add: fs_demo_def LOGSIZE_def)
qed

end
