(* ===== verification/Fs_Inode.thy ===== *)
theory Fs_Inode
  imports Fs_Blocks
begin

text \<open>
  Inodes on disk and in the cache: \<^verbatim>\<open>iupdate\<close> writes the fields of a cached inode into its slot of the inode block and leaves the other
  slots of the block alone, \<^verbatim>\<open>ilock\<close> reads them back; \<^verbatim>\<open>iget\<close> never makes two entries for one inode.
\<close>

section \<open>Slots of an inode block\<close>

lemma put_addrs_Suc:
  "fold (\<lambda>k. put32 (off + 12 + 4 * k) (as ! k)) [0..<Suc n] d =
   put32 (off + 12 + 4 * n) (as ! n) (fold (\<lambda>k. put32 (off + 12 + 4 * k) (as ! k)) [0..<n] d)"
  by simp

lemma length_put_fold [simp]: "length (fold (\<lambda>k. put32 (off + 12 + 4 * k) (as ! k)) ks d) = length d"
  by (induction ks arbitrary: d) simp_all

lemma get_put_addrs:
  "off + 12 + 4 * n \<le> length d \<Longrightarrow> j < n \<Longrightarrow> get32 (off + 12 + 4 * j) (fold (\<lambda>k. put32 (off + 12 + 4 * k) (as ! k)) [0..<n] d) = as ! j"
proof (induction n)
  case (Suc n)
  show ?case
  proof (cases "j = n")
    case True
    then show ?thesis unfolding put_addrs_Suc using Suc.prems by simp
  next
    case False
    then have "get32 (off + 12 + 4 * j) (fold (\<lambda>k. put32 (off + 12 + 4 * k) (as ! k)) [0..<Suc n] d) =
        get32 (off + 12 + 4 * j) (fold (\<lambda>k. put32 (off + 12 + 4 * k) (as ! k)) [0..<n] d)"
      unfolding put_addrs_Suc using Suc.prems by (intro get32_put32_other) simp
    with False Suc show ?thesis by simp
  qed
qed simp

lemma nth_put_addrs:
  "j < off + 12 \<or> off + 12 + 4 * n \<le> j \<Longrightarrow> fold (\<lambda>k. put32 (off + 12 + 4 * k) (as ! k)) [0..<n] d ! j = d ! j"
proof (induction n)
  case (Suc n)
  then show ?case unfolding put_addrs_Suc by (subst nth_put32) auto
qed simp

lemma length_put_dinode [simp]: "length (put_dinode off x d) = length d"
  by (simp add: put_dinode_def put_addrs_def)

lemma nth_put_dinode:
  "j < off \<or> off + 60 \<le> j \<Longrightarrow> put_dinode off x d ! j = d ! j"
  unfolding put_dinode_def put_addrs_def by (subst nth_put_addrs) (auto simp: nth_put32 nth_put16 NDIRECT_def)

lemma get16_put_addrs: "j + 2 \<le> off + 12 \<Longrightarrow> get16 j (fold (\<lambda>k. put32 (off + 12 + 4 * k) (as ! k)) [0..<n] d) = get16 j d"
  by (simp add: get16_def nth_put_addrs)

lemma get32_put_addrs: "j + 4 \<le> off + 12 \<Longrightarrow> get32 j (fold (\<lambda>k. put32 (off + 12 + 4 * k) (as ! k)) [0..<n] d) = get32 j d"
  by (simp add: get32_def nth_put_addrs)

lemma get_put_dinode:
  assumes "off + 64 \<le> length d" and "length (d_addrs x) = NDIRECT + 1"
  shows "get_dinode off (put_dinode off x d) = x"
proof -
  have "map (\<lambda>k. get32 (off + 12 + 4 * k) (put_dinode off x d)) [0..<NDIRECT + 1] = d_addrs x"
  proof (rule nth_equalityI)
    show "map (\<lambda>k. get32 (off + 12 + 4 * k) (put_dinode off x d)) [0..<NDIRECT + 1] ! j = d_addrs x ! j"
      if "j < length (map (\<lambda>k. get32 (off + 12 + 4 * k) (put_dinode off x d)) [0..<NDIRECT + 1])" for j
      using that assms(1) by (simp add: put_dinode_def put_addrs_def get_put_addrs NDIRECT_def del: upt_Suc)
  qed (simp add: assms(2))
  then show ?thesis
    using assms(1) unfolding get_dinode_def
    by (simp add: put_dinode_def put_addrs_def get16_put_addrs get32_put_addrs get_put_other del: upt_Suc)
qed

lemma get_dinode_other:
  assumes "off + 64 \<le> o' \<or> o' + 64 \<le> off"
  shows "get_dinode o' (put_dinode off x d) = get_dinode o' d"
proof -
  have n: "put_dinode off x d ! j = d ! j" if "o' \<le> j" "j < o' + 64" for j
    using that assms by (intro nth_put_dinode) auto
  then have "get16 j (put_dinode off x d) = get16 j d" if "o' \<le> j" "j + 2 \<le> o' + 64" for j using that by (simp add: get16_def)
  moreover have "get32 j (put_dinode off x d) = get32 j d" if "o' \<le> j" "j + 4 \<le> o' + 64" for j using n that by (simp add: get32_def)
  ultimately show ?thesis by (simp add: get_dinode_def NDIRECT_def)
qed

lemma dinode_off_fits: "dinode_off i + 64 \<le> BSIZE"
  by (simp add: dinode_off_def IPB_def BSIZE_def)

lemma dinode_off_other:
  assumes "IBLOCK i = IBLOCK j" and "i \<noteq> j"
  shows "dinode_off i + 64 \<le> dinode_off j \<or> dinode_off j + 64 \<le> dinode_off i"
proof -
  have "unat i \<noteq> unat j" using assms(2) by (simp add: word_unat_eq_iff)
  moreover have "unat i div IPB = unat j div IPB" using assms(1) by (simp add: IBLOCK_def)
  ultimately have "unat i mod IPB \<noteq> unat j mod IPB" by (metis div_mult_mod_eq)
  then show ?thesis by (auto simp: dinode_off_def)
qed

section \<open>The cache is invisible below\<close>

lemma icache_upd_bio [simp]:
  "getb (s\<lparr>icache := c\<rparr>) = getb s" "bio_inv (s\<lparr>icache := c\<rparr>) = bio_inv s" "bview (s\<lparr>icache := c\<rparr>) = bview s"
  "held (s\<lparr>icache := c\<rparr>) = held s" "dirty (s\<lparr>icache := c\<rparr>) = dirty s"
  by (simp_all add: getb_def bio_inv_def caches_def bview_def held_def holds_def dirty_def fun_eq_iff split: option.split)

lemma icache_upd_fs [simp]:
  "log_area (seti i x s) = log_area s" "fs_block (seti i x s) = fs_block s" "fview (seti i x s) = fview s"
  "log_space (seti i x s) = log_space s"
  by (simp_all add: seti_def log_area_def fs_block_def fview_def log_space_def fun_eq_iff)

lemma at_rest_seti [simp]: "at_rest (seti i x s) = at_rest s"
  by (simp add: at_rest_def log_inv_def log_geometry_def logged_def settled_def log_area_def seti_def)

lemma length_seti [simp]: "length (icache (seti i x s)) = length (icache s)"
  by (simp add: seti_def)

lemma geti_seti: "i < length (icache s) \<Longrightarrow> geti (seti i x s) j = (if j = i then x else geti s j)"
  by (auto simp: geti_def seti_def)

section \<open>Writing and reading back\<close>

lemma iupdate_ok:
  assumes "at_rest s" and "idev (geti s ip) = 1" and "fs_block s (IBLOCK (inum (geti s ip)))" and "0 < log_space s"
  defines "k \<equiv> IBLOCK (inum (geti s ip))"
  shows "\<exists>u. iupdate ip s = Ok () u \<and> at_rest u \<and> same_fs s u \<and> log_space s \<le> Suc (log_space u) \<and>
    fview u = (fview s)(k := put_dinode (dinode_off (inum (geti s ip))) (dinode_of (geti s ip)) (fview s k))"
proof -
  let ?f = "put_dinode (dinode_off (inum (geti s ip))) (dinode_of (geti s ip))"
  have "length (?f (fview s k)) = BSIZE" using fsb.view_length [OF assms(1,3)] by (simp add: k_def)
  from fsb.write_law [where f = ?f, OF assms(1,3,4)] this obtain b t v u where
    r: "bread 1 k s = Ok b t" "same_fs s t" "log_write b (bmodify b ?f t) = Ok () v" "brelse b v = Ok () u" "at_rest u"
      "fview u = (fview s)(k := ?f (fview s k))" "log_space s \<le> Suc (log_space u)" "same_fs s u"
    unfolding k_def by blast
  have "iupdate ip s = Ok () u"
    using r(1,3,4) same_fs_geti [OF r(2)] assms(2) by (simp add: iupdate_def k_def)
  then show ?thesis using r by blast
qed

lemma brelse_seti: "brelse b t = Ok () u \<Longrightarrow> brelse b (seti i x t) = Ok () (seti i x u)"
  by (auto simp: brelse_def setb_def wakeup_def seti_def getb_def Let_def split: if_splits)

lemma ilock_loads:
  assumes "at_rest s" and "ip < length (icache s)" and "idev (geti s ip) = 1" and "fs_block s (IBLOCK (inum (geti s ip)))" and "1 \<le> iref (geti s ip)"
    and "iflags (geti s ip) = {}"
  defines "y \<equiv> get_dinode (dinode_off (inum (geti s ip))) (fview s (IBLOCK (inum (geti s ip))))"
  assumes "d_type y \<noteq> 0"
  shows "\<exists>u. ilock ip s = Ok () u \<and> geti u ip = load_dinode y ((geti s ip)\<lparr>iflags := {I_BUSY, I_VALID}\<rparr>) \<and> at_rest u \<and> fview u = fview s"
proof -
  let ?x = "geti s ip"
  define s1 where "s1 = seti ip (?x\<lparr>iflags := {I_BUSY}\<rparr>) s"
  have g1: "geti s1 ip = ?x\<lparr>iflags := {I_BUSY}\<rparr>" "length (icache s1) = length (icache s)" using assms(2) by (simp_all add: s1_def geti_seti)
  have r1: "at_rest s1" "fs_block s1 (IBLOCK (inum ?x))" using assms(1,4) by (simp_all add: s1_def)
  from fsb.read_law [OF r1] obtain b t u where r: "bread 1 (IBLOCK (inum ?x)) s1 = Ok b t" "bdata (getb t b) = fview s (IBLOCK (inum ?x))" "same_fs s1 t"
    "brelse b t = Ok () u" "at_rest u" "fview u = fview s1" "same_fs s1 u" by (auto simp: s1_def)
  have gt: "geti t ip = geti s1 ip" "geti u ip = geti s1 ip" "length (icache t) = length (icache s)" "length (icache u) = length (icache s)"
    using same_fs_geti [OF r(3)] same_fs_geti [OF r(7)] same_fs_icache [OF r(3)] same_fs_icache [OF r(7)] g1(2) by simp_all
  define x2 where "x2 = load_dinode y (?x\<lparr>iflags := {I_BUSY}\<rparr>)"
  define w where "w = seti ip (x2\<lparr>iflags := {I_VALID, I_BUSY}\<rparr>) (seti ip x2 u)"
  have sel: "iflags x2 = {I_BUSY}" "itype x2 = d_type y" "geti (seti ip x2 u) ip = x2" "geti w ip = x2\<lparr>iflags := {I_VALID, I_BUSY}\<rparr>"
    using assms(2) gt(4) by (simp_all add: x2_def load_dinode_def w_def geti_seti)
  have rel: "brelse b (seti ip x2 t) = Ok () (seti ip x2 u)" using r(4) by (rule brelse_seti)
  have "ilock ip s = Ok () w"
    using assms(5,6,8) r(1,2) rel gt g1 assms(3) sel
    by (simp add: ilock_def Let_def s1_def [symmetric] x2_def [symmetric] y_def [symmetric] w_def [symmetric])
  moreover have "at_rest w" "fview w = fview s" using r(5,6) by (simp_all add: w_def s1_def)
  moreover have "geti w ip = load_dinode y (?x\<lparr>iflags := {I_BUSY, I_VALID}\<rparr>)"
    by (simp add: sel(4) x2_def load_dinode_def insert_commute)
  ultimately show ?thesis by blast
qed

text \<open>C20. An inode survives the disk: after \<^verbatim>\<open>iupdate\<close> a cache entry that has been recycled for the same inode gets, in \<^verbatim>\<open>ilock\<close>, the type, the device
  numbers, the link count, the size and the block addresses that were written; every other inode of the same disk block still
  has the fields it had.\<close>

theorem iupdate_ilock_roundtrip:
  assumes "at_rest s" and "idev (geti s ip) = 1" and "fs_block s (IBLOCK (inum (geti s ip)))" and "0 < log_space s"
    and "length (addrs (geti s ip)) = NDIRECT + 1" and "itype (geti s ip) \<noteq> 0" and "jp < length (icache s)"
  defines "x \<equiv> geti s ip"
  shows "\<exists>t u. iupdate ip s = Ok () t \<and>
    ilock jp (seti jp ((geti t jp)\<lparr>idev := 1, inum := inum x, iref := 1, iflags := {}\<rparr>) t) = Ok () u \<and>
    dinode_of (geti u jp) = dinode_of x \<and> inum (geti u jp) = inum x \<and> I_VALID \<in> iflags (geti u jp) \<and>
    (\<forall>i. IBLOCK i = IBLOCK (inum x) \<and> i \<noteq> inum x \<longrightarrow>
       get_dinode (dinode_off i) (fview u (IBLOCK i)) = get_dinode (dinode_off i) (fview s (IBLOCK i)))"
proof -
  let ?k = "IBLOCK (inum x)" and ?o = "dinode_off (inum x)"
  from iupdate_ok [OF assms(1-4)] obtain t where t: "iupdate ip s = Ok () t" "at_rest t" "same_fs s t"
    "fview t = (fview s)(?k := put_dinode ?o (dinode_of x) (fview s ?k))" unfolding x_def by blast
  have len: "length (fview s ?k) = BSIZE" using fsb.view_length [OF assms(1,3)] by (simp add: x_def)
  have y: "get_dinode ?o (fview t ?k) = dinode_of x"
    using get_put_dinode [of ?o "fview s ?k" "dinode_of x"] dinode_off_fits [of "inum x"] len assms(5) t(4) by (simp add: dinode_of_def x_def)
  define s2 where "s2 = seti jp ((geti t jp)\<lparr>idev := 1, inum := inum x, iref := 1, iflags := {}\<rparr>) t"
  have jt: "jp < length (icache t)" using assms(7) same_fs_icache [OF t(3)] by simp
  have g2: "geti s2 jp = (geti t jp)\<lparr>idev := 1, inum := inum x, iref := 1, iflags := {}\<rparr>" using jt by (simp add: s2_def geti_seti)
  have "fs_block t ?k" using fsb.same_usable [OF t(3)] assms(3) by (simp add: x_def)
  moreover have "at_rest s2" "fview s2 = fview t" "fs_block s2 = fs_block t" "jp < length (icache s2)" using t(2) jt by (simp_all add: s2_def)
  moreover have "d_type (dinode_of x) \<noteq> 0" using assms(6) by (simp add: dinode_of_def x_def)
  ultimately obtain u where u: "ilock jp s2 = Ok () u" "geti u jp = load_dinode (dinode_of x) ((geti s2 jp)\<lparr>iflags := {I_BUSY, I_VALID}\<rparr>)" "fview u = fview t"
    using ilock_loads [of s2 jp] g2 y by auto
  have "get_dinode (dinode_off i) (fview u (IBLOCK i)) = get_dinode (dinode_off i) (fview s (IBLOCK i))"
    if "IBLOCK i = ?k" "i \<noteq> inum x" for i
    using get_dinode_other [OF dinode_off_other [of "inum x" i]] that t(4) u(3) by simp
  then show ?thesis
    using t(1) u(1,2) g2 unfolding s2_def by (intro exI [of _ t] exI [of _ u]) (simp add: dinode_of_def load_dinode_def)
qed

theorem iupdate_ilock_roundtrip_witness:
  "\<exists>(s :: cons_st) t u. geti s 0 = demo_ino 3 [5, 6] 600 \<and> iupdate 0 s = Ok () t \<and>
     ilock 1 (seti 1 ((geti t 1)\<lparr>idev := 1, inum := 3, iref := 1, iflags := {}\<rparr>) t) = Ok () u \<and> isize (geti u 1) = 600 \<and> addrs (geti u 1) ! 1 = 6"
proof -
  obtain s :: cons_st where s: "at_rest s" "log_space s = 9" "log_area s = {30..<40}" "disksize s = 40"
    "icache s = [demo_ino 3 [5, 6] 600, demo_ino 4 [] 0]"
    by (rule fs_mounted [of "[demo_ino 3 [5, 6] 600, demo_ino 4 [] 0]"]) blast
  have g: "geti s 0 = demo_ino 3 [5, 6] 600" using s(5) by (simp add: geti_def)
  have "fs_block s (IBLOCK (inum (geti s 0)))" using s(3,4) by (simp add: fs_block_def g demo_ino_def IBLOCK_def IPB_def BSIZE_def)
  then obtain t u where "iupdate 0 s = Ok () t" "ilock 1 (seti 1 ((geti t 1)\<lparr>idev := 1, inum := 3, iref := 1, iflags := {}\<rparr>) t) = Ok () u"
    "dinode_of (geti u 1) = dinode_of (demo_ino 3 [5, 6] 600)"
    using iupdate_ilock_roundtrip [of s 0 1] s(1,2,5) by (auto simp: g demo_ino_def NDIRECT_def T_FILE_def)
  then show ?thesis using g by (intro exI [of _ s] exI [of _ t] exI [of _ u]) (simp add: dinode_of_def demo_ino_def)
qed

section \<open>One entry per inode\<close>

text \<open>The cache: no two entries in use are for the same inode.\<close>

definition icache_ok :: "'a inode_st_scheme \<Rightarrow> bool" where
  "icache_ok s \<longleftrightarrow> length (icache s) = NINODE \<and> (\<forall>i < NINODE. 0 \<le> iref (geti s i)) \<and>
     (\<forall>i < NINODE. \<forall>j < NINODE. 0 < iref (geti s i) \<and> 0 < iref (geti s j) \<and> idev (geti s i) = idev (geti s j) \<and>
        inum (geti s i) = inum (geti s j) \<longrightarrow> i = j)"

text \<open>What identifies an entry.\<close>

definition ikey :: "inode \<Rightarrow> uint \<times> uint \<times> int" where
  "ikey x = (idev x, inum x, iref x)"

definition same_keys :: "'a inode_st_scheme \<Rightarrow> 'a inode_st_scheme \<Rightarrow> bool" where
  "same_keys s t \<longleftrightarrow> map ikey (icache t) = map ikey (icache s)"

lemma same_keys_refl: "same_keys s s"
  by (simp add: same_keys_def)

lemma same_keys_trans: "same_keys s t \<Longrightarrow> same_keys t u \<Longrightarrow> same_keys s u"
  by (simp add: same_keys_def)

lemma same_keys_seti: "ikey x = ikey (geti s i) \<Longrightarrow> same_keys s (seti i x s)"
  by (cases "i < length (icache s)") (auto simp: same_keys_def seti_def geti_def map_update list_update_beyond intro: list_update_same_conv [THEN iffD2])

lemma same_keysD: "same_keys s t \<Longrightarrow> length (icache t) = length (icache s)"
  "same_keys s t \<Longrightarrow> i < length (icache s) \<Longrightarrow> ikey (geti t i) = ikey (geti s i)"
  unfolding same_keys_def geti_def by (metis length_map, metis length_map nth_map)

text \<open>The layers below leave the cache alone.\<close>

lemma more_iderw: "iderw b s = Ok u t \<Longrightarrow> bio.more t = bio.more s"
  by (auto simp: iderw_def setb_def Let_def split: if_splits)

lemma more_bread: "bread d k s = Ok b t \<Longrightarrow> bio.more t = bio.more s"
  by (auto simp: bread_def bget_def setb_def Let_def split: if_splits option.splits elim!: call_OkE dest!: more_iderw)

lemma more_bwrite: "bwrite b s = Ok u t \<Longrightarrow> bio.more t = bio.more s"
  by (auto simp: bwrite_def setb_def split: if_splits dest!: more_iderw)

lemma more_brelse: "brelse b s = Ok u t \<Longrightarrow> bio.more t = bio.more s"
  by (auto simp: brelse_def setb_def wakeup_def split: if_splits)

lemma more_log: "bio.more t = bio.more s \<Longrightarrow> log_st.more t = log_st.more s"
  by (cases s; cases t; simp)

lemma more_bmodify: "log_st.more (bmodify b f s) = log_st.more s"
  by (simp add: bmodify_def setb_def)

lemma more_log_write: "log_write b s = Ok u t \<Longrightarrow> log_st.more t = log_st.more s"
  by (auto simp: log_write_def Let_def mark_dirty_def bmodify_def setb_def split: if_splits elim!: call_OkE
      dest!: more_bread more_bwrite more_brelse more_log)

lemma more_keys: "log_st.more t = log_st.more s \<Longrightarrow> same_keys s t"
  by (cases s; cases t; simp add: same_keys_def)

text \<open>A routine that keeps the keys, started in a state that has them.\<close>

definition kkeeps :: "'a inode_st_scheme \<Rightarrow> ('b, 'a inode_st_scheme) outcome \<Rightarrow> bool" where
  "kkeeps s m \<longleftrightarrow> (\<forall>a t. m = Ok a t \<longrightarrow> same_keys s t)"

lemma kkeeps_simps [simp]: "kkeeps s (Ok a t) = same_keys s t" "kkeeps s (Panic e)" "kkeeps s (Fault e)" "kkeeps s (Sleep c t)"
  by (simp_all add: kkeeps_def)

named_theorems keyframe

lemma kkeeps_call: "kkeeps s m \<Longrightarrow> (\<And>a t. same_keys s t \<Longrightarrow> kkeeps s (f a t)) \<Longrightarrow> kkeeps s (call m f)"
  by (cases m) auto

lemma kkeeps_more: "same_keys s t \<Longrightarrow> (\<And>a u. m = Ok a u \<Longrightarrow> log_st.more u = log_st.more t) \<Longrightarrow> kkeeps s m"
  unfolding kkeeps_def using more_keys same_keys_trans by blast

lemma keys_bread [keyframe]: "same_keys s t \<Longrightarrow> kkeeps s (bread d k t)"
  by (erule kkeeps_more) (rule more_log [OF more_bread])

lemma keys_brelse [keyframe]: "same_keys s t \<Longrightarrow> kkeeps s (brelse b t)"
  by (erule kkeeps_more) (rule more_log [OF more_brelse])

lemma keys_log_write [keyframe]: "same_keys s t \<Longrightarrow> kkeeps s (log_write b (bmodify b f t))"
proof (erule kkeeps_more)
  fix a u assume "log_write b (bmodify b f t) = Ok a u"
  from more_log_write [OF this] show "log_st.more u = log_st.more t" by (simp add: more_bmodify)
qed

lemma keys_seti [keyframe]: "same_keys s t \<Longrightarrow> ikey x = ikey (geti t i) \<Longrightarrow> same_keys s (seti i x t)"
  by (rule same_keys_trans [OF _ same_keys_seti])

lemma keys_bfree [keyframe]: "same_keys s t \<Longrightarrow> kkeeps s (bfree d k t)"
  by (auto simp: bfree_def readsb_def Let_def intro!: kkeeps_call keyframe)

lemma keys_iupdate [keyframe]: "same_keys s t \<Longrightarrow> kkeeps s (iupdate ip t)"
  by (auto simp: iupdate_def intro!: kkeeps_call keyframe)

lemma keys_itrunc_direct [keyframe]: "same_keys s t \<Longrightarrow> kkeeps s (itrunc_direct r i ip t)"
proof (induction r arbitrary: i t)
  case (Suc r)
  then show ?case by (auto simp: ikey_def intro!: kkeeps_call keyframe Suc.IH)
qed simp

lemma keys_itrunc_indirect [keyframe]: "same_keys s t \<Longrightarrow> kkeeps s (itrunc_indirect r j bp ip t)"
proof (induction r arbitrary: j t)
  case (Suc r)
  then show ?case by (auto simp: Let_def intro!: kkeeps_call keyframe Suc.IH)
qed simp

lemma keys_itrunc [keyframe]: "same_keys s t \<Longrightarrow> kkeeps s (itrunc ip t)"
  by (auto simp: itrunc_def ikey_def intro!: kkeeps_call keyframe)

lemma keys_wakeup [keyframe]: "same_keys s t \<Longrightarrow> same_keys s (wakeup c t)"
  by (simp add: same_keys_def wakeup_def)

text \<open>The references: \<^verbatim>\<open>iput\<close> drops one, whatever else it does.\<close>

lemma iput_keys:
  assumes "iput ip s = Ok u t"
  obtains v where "same_keys s v" and "t = seti ip ((geti v ip)\<lparr>iref := iref (geti v ip) - 1\<rparr>) v"
proof -
  let ?m = "if iref (geti s ip) = 1 \<and> I_VALID \<in> iflags (geti s ip) \<and> inlink (geti s ip) = 0 then
             if I_BUSY \<in> iflags (geti s ip) then Panic ''iput busy''
             else
               call (itrunc ip (seti ip ((geti s ip)\<lparr>iflags := insert I_BUSY (iflags (geti s ip))\<rparr>) s)) (\<lambda>_ s.
               call (iupdate ip (seti ip ((geti s ip)\<lparr>itype := 0\<rparr>) s)) (\<lambda>_ s.
               Ok () (wakeup (ChInode ip) (seti ip ((geti s ip)\<lparr>iflags := {}\<rparr>) s))))
           else Ok () s"
  have "kkeeps s ?m" using same_keys_refl [of s] by (auto simp: ikey_def intro!: kkeeps_call keyframe)
  moreover from assms obtain v where "?m = Ok () v" "t = seti ip ((geti v ip)\<lparr>iref := iref (geti v ip) - 1\<rparr>) v"
    unfolding iput_def by (auto elim!: call_OkE)
  ultimately show ?thesis using that by (auto simp: kkeeps_def)
qed

section \<open>The invariant of the cache\<close>

text \<open>The operations on references, as their callers use them: \<^verbatim>\<open>idup\<close> and \<^verbatim>\<open>iput\<close> on an inode that is in use.\<close>

inductive iref_step :: "'a inode_st_scheme \<Rightarrow> 'a inode_st_scheme \<Rightarrow> bool" where
  st_iget: "iget dev i s = Ok ip t \<Longrightarrow> iref_step s t"
| st_idup: "ip < NINODE \<Longrightarrow> 0 < iref (geti s ip) \<Longrightarrow> idup ip s = Ok jp t \<Longrightarrow> iref_step s t"
| st_iput: "ip < NINODE \<Longrightarrow> 0 < iref (geti s ip) \<Longrightarrow> iput ip s = Ok u t \<Longrightarrow> iref_step s t"

lemma icache_okI:
  assumes "icache_ok s" and "length (icache t) = NINODE" and "ip < NINODE"
    and "\<And>j. j < NINODE \<Longrightarrow> j \<noteq> ip \<Longrightarrow> ikey (geti t j) = ikey (geti s j)" and "0 \<le> iref (geti t ip)"
    and "\<And>j. j < NINODE \<Longrightarrow> j \<noteq> ip \<Longrightarrow> 0 < iref (geti s j) \<Longrightarrow> 0 < iref (geti t ip) \<Longrightarrow>
       idev (geti s j) \<noteq> idev (geti t ip) \<or> inum (geti s j) \<noteq> inum (geti t ip)"
  shows "icache_ok t"
  unfolding icache_ok_def
proof (intro conjI allI impI)
  have k: "idev (geti t j) = idev (geti s j)" "inum (geti t j) = inum (geti s j)" "iref (geti t j) = iref (geti s j)"
    if "j < NINODE" "j \<noteq> ip" for j using assms(4) [OF that] by (simp_all add: ikey_def)
  show "length (icache t) = NINODE" by fact
  show "0 \<le> iref (geti t i)" if "i < NINODE" for i using assms(1,5) k that by (cases "i = ip") (auto simp: icache_ok_def)
  show "i = j" if "i < NINODE" "j < NINODE"
    "0 < iref (geti t i) \<and> 0 < iref (geti t j) \<and> idev (geti t i) = idev (geti t j) \<and> inum (geti t i) = inum (geti t j)" for i j
  proof (cases "i = ip \<or> j = ip")
    case True
    then show ?thesis using that assms(6) k by metis
  next
    case False
    then show ?thesis using that assms(1) k unfolding icache_ok_def by metis
  qed
qed

lemma icache_distinct:
  "icache_ok s \<Longrightarrow> i < NINODE \<Longrightarrow> j < NINODE \<Longrightarrow> j \<noteq> i \<Longrightarrow> 0 < iref (geti s i) \<Longrightarrow> 0 < iref (geti s j) \<Longrightarrow>
   idev (geti s j) \<noteq> idev (geti s i) \<or> inum (geti s j) \<noteq> inum (geti s i)"
  unfolding icache_ok_def by metis

lemma iget_ok:
  assumes "icache_ok s" and "iget dev i s = Ok ip t"
  shows "icache_ok t" and "ip < NINODE" and "idev (geti t ip) = dev" and "inum (geti t ip) = i" and "0 < iref (geti t ip)"
    and "\<And>j. j < NINODE \<Longrightarrow> j \<noteq> ip \<Longrightarrow> geti t j = geti s j"
proof -
  let ?hit = "\<lambda>j. iref (geti s j) > 0 \<and> idev (geti s j) = dev \<and> inum (geti s j) = i"
  have len: "length (icache s) = NINODE" using assms(1) by (simp add: icache_ok_def)
  obtain x where ip: "ip < NINODE" and t: "t = seti ip x s" and x: "idev x = dev" "inum x = i" "0 < iref x"
    and other: "\<And>j. j < NINODE \<Longrightarrow> j \<noteq> ip \<Longrightarrow> 0 < iref (geti s j) \<Longrightarrow> idev (geti s j) \<noteq> dev \<or> inum (geti s j) \<noteq> i"
  proof (cases "List.find ?hit [0..<NINODE]")
    case (Some j)
    then have j: "j < NINODE" "?hit j" by (auto simp: find_Some_iff)
    show ?thesis
    proof (rule that)
      show "ip < NINODE" "t = seti ip ((geti s j)\<lparr>iref := iref (geti s j) + 1\<rparr>) s" using Some assms(2) j by (auto simp: iget_def)
      show "idev ((geti s j)\<lparr>iref := iref (geti s j) + 1\<rparr>) = dev" "inum ((geti s j)\<lparr>iref := iref (geti s j) + 1\<rparr>) = i"
        "0 < iref ((geti s j)\<lparr>iref := iref (geti s j) + 1\<rparr>)" using j by simp_all
      have "ip = j" using Some assms(2) by (simp add: iget_def)
      then show "idev (geti s k) \<noteq> dev \<or> inum (geti s k) \<noteq> i" if "k < NINODE" "k \<noteq> ip" "0 < iref (geti s k)" for k
        using that j assms(1) unfolding icache_ok_def by metis
    qed
  next
    case None
    then have no: "\<And>k. k < NINODE \<Longrightarrow> \<not> ?hit k" by (auto simp: find_None_iff)
    from None assms(2) obtain j where f: "List.find (\<lambda>j. iref (geti s j) = 0) [0..<NINODE] = Some j"
      and r: "ip = j" "t = seti j ((geti s j)\<lparr>idev := dev, inum := i, iref := 1, iflags := {}\<rparr>) s"
      by (auto simp: iget_def split: option.splits)
    then have "j < NINODE" by (auto simp: find_Some_iff)
    with r no show ?thesis by (intro that) auto
  qed
  have g: "geti t j = (if j = ip then x else geti s j)" for j using t ip len by (simp add: geti_seti)
  have "length (icache t) = NINODE" using t len by simp
  then show "icache_ok t"
    by (rule icache_okI [OF assms(1) _ ip]) (use x other in \<open>simp_all add: g\<close>)
  show "ip < NINODE" "idev (geti t ip) = dev" "inum (geti t ip) = i" "0 < iref (geti t ip)" "\<And>j. j < NINODE \<Longrightarrow> j \<noteq> ip \<Longrightarrow> geti t j = geti s j"
    using ip x by (simp_all add: g)
qed

lemma iref_step_ok:
  assumes "iref_step s t" and "icache_ok s"
  shows "icache_ok t"
  using assms
proof induction
  case (st_iget dev i s ip t)
  then show ?case using iget_ok(1) by blast
next
  case (st_idup ip s jp t)
  have t: "t = seti ip ((geti s ip)\<lparr>iref := iref (geti s ip) + 1\<rparr>) s" using st_idup(3) by (auto simp: idup_def)
  have g: "geti t j = (if j = ip then (geti s ip)\<lparr>iref := iref (geti s ip) + 1\<rparr> else geti s j)" for j
    using t st_idup(1,4) by (simp add: geti_seti icache_ok_def)
  have "length (icache t) = NINODE" using t st_idup(4) by (simp add: icache_ok_def)
  then show ?case
    by (rule icache_okI [OF st_idup(4) _ st_idup(1)])
      (use st_idup(2) icache_distinct [OF st_idup(4,1) _ _ st_idup(2)] in \<open>simp_all add: g\<close>)
next
  case (st_iput ip s u t)
  from iput_keys [OF st_iput(3)] obtain v where v: "same_keys s v" and t: "t = seti ip ((geti v ip)\<lparr>iref := iref (geti v ip) - 1\<rparr>) v" by blast
  have len: "length (icache v) = NINODE" using same_keysD(1) [OF v] st_iput(4) by (simp add: icache_ok_def)
  have k: "ikey (geti v j) = ikey (geti s j)" if "j < NINODE" for j
    using same_keysD(2) [OF v, of j] that st_iput(4) by (simp add: icache_ok_def)
  then have vi: "idev (geti v ip) = idev (geti s ip)" "inum (geti v ip) = inum (geti s ip)" "iref (geti v ip) = iref (geti s ip)"
    using st_iput(1) by (simp_all add: ikey_def)
  have g: "geti t j = (if j = ip then (geti v ip)\<lparr>iref := iref (geti v ip) - 1\<rparr> else geti v j)" for j
    using t st_iput(1) len by (simp add: geti_seti)
  have "length (icache t) = NINODE" using t len by simp
  then show ?case
    by (rule icache_okI [OF st_iput(4) _ st_iput(1)])
      (use st_iput(2) vi k icache_distinct [OF st_iput(4,1) _ _ st_iput(2)] in \<open>simp_all add: g\<close>)
qed

text \<open>C19. The inode cache has at most one entry per inode: over any sequence of \<^verbatim>\<open>iget\<close>, \<^verbatim>\<open>idup\<close> and \<^verbatim>\<open>iput\<close> (which may truncate and free the inode)
  the reference counts stay non-negative and no two entries in use have the same device and inode number; \<^verbatim>\<open>iget\<close> returns
  the entry for the inode it was asked for, so that all users of an inode share one lock and one copy.\<close>

theorem icache_unique:
  assumes "icache_ok s" and "iref_step\<^sup>*\<^sup>* s t" and "iget dev i t = Ok ip u"
  shows "icache_ok t \<and> icache_ok u \<and> ip < NINODE \<and> idev (geti u ip) = dev \<and> inum (geti u ip) = i \<and>
    (\<forall>j < NINODE. 0 < iref (geti u j) \<and> idev (geti u j) = dev \<and> inum (geti u j) = i \<longrightarrow> j = ip)"
proof -
  from assms(2,1) have t: "icache_ok t" by induction (auto dest: iref_step_ok)
  note g = iget_ok [OF t assms(3)]
  have "j = ip" if "j < NINODE" "0 < iref (geti u j) \<and> idev (geti u j) = dev \<and> inum (geti u j) = i" for j
    using that g(1-5) unfolding icache_ok_def by metis
  with t g show ?thesis by blast
qed

theorem icache_unique_witness:
  "\<exists>(s :: cons_st) t u. iget 1 7 s = Ok 0 t \<and> iget 1 7 t = Ok 0 u \<and> icache_ok u"
proof -
  let ?s = "fs_demo (replicate NINODE ((demo_ino 0 [] 0)\<lparr>iref := 0\<rparr>))"
  have len: "geti ?s j = (demo_ino 0 [] 0)\<lparr>iref := 0\<rparr>" if "j < NINODE" for j using that by (simp add: geti_def fs_demo_def)
  then have ok: "icache_ok ?s" by (simp add: icache_ok_def) (simp add: fs_demo_def)
  have "List.find (\<lambda>j. iref (geti ?s j) > 0 \<and> idev (geti ?s j) = 1 \<and> inum (geti ?s j) = 7) [0..<NINODE] = None"
    using len by (auto simp: find_None_iff)
  moreover have "List.find (\<lambda>j. iref (geti ?s j) = 0) [0..<NINODE] = Some 0"
    using len [of 0] by (simp add: NINODE_def upt_rec [of 0])
  ultimately obtain t where t: "iget 1 7 ?s = Ok 0 t" "t = seti 0 ((geti ?s 0)\<lparr>idev := 1, inum := 7, iref := 1, iflags := {}\<rparr>) ?s"
    by (simp add: iget_def)
  have "geti t 0 = (geti ?s 0)\<lparr>idev := 1, inum := 7, iref := 1, iflags := {}\<rparr>" using ok t(2) by (simp add: geti_seti icache_ok_def NINODE_def)
  then have "List.find (\<lambda>j. iref (geti t j) > 0 \<and> idev (geti t j) = 1 \<and> inum (geti t j) = 7) [0..<NINODE] = Some 0"
    by (simp add: NINODE_def upt_rec [of 0])
  then obtain u where u: "iget 1 7 t = Ok 0 u" by (simp add: iget_def)
  have "iref_step\<^sup>*\<^sup>* ?s t" using st_iget [OF t(1)] by (rule r_into_rtranclp)
  from icache_unique [OF ok this u] t(1) u show ?thesis by blast
qed

end
