(* ===== verification/Fs_File.thy ===== *)
theory Fs_File
  imports Fs_Inode
begin

text \<open>
  What \<^verbatim>\<open>readi\<close> and \<^verbatim>\<open>writei\<close> of \<^verbatim>\<open>fs.c\<close> do to the contents of a file. \<open>fblk\<close> is the block that holds the \<open>k\<close>-th block of a file, through
  the direct addresses and the indirect block, and \<open>fbyte\<close> its bytes; the copy loops, with their division of a request at block
  boundaries, read and write exactly these bytes. The lemmas are about files whose blocks are allocated and that do not reach the doubly
  indirect range, whose address lies outside the array in memory.
\<close>

section \<open>The contents of a file\<close>

definition fblk :: "(nat \<Rightarrow> block) \<Rightarrow> inode \<Rightarrow> nat \<Rightarrow> uint" where
  "fblk v x k = (if k < NDIRECT then addrs x ! k else get32 (4 * (k - NDIRECT)) (v (unat (addrs x ! NDIRECT))))"

definition fbyte :: "(nat \<Rightarrow> block) \<Rightarrow> inode \<Rightarrow> nat \<Rightarrow> byte" where
  "fbyte v x j = v (unat (fblk v x (j div BSIZE))) ! (j mod BSIZE)"

text \<open>The first \<open>n\<close> blocks of the file are allocated, and to no two purposes.\<close>

definition backed :: "'a inode_st_scheme \<Rightarrow> nat \<Rightarrow> nat \<Rightarrow> bool" where
  "backed s ip n \<longleftrightarrow>
     idev (geti s ip) = 1 \<and> n \<le> NDIRECT + NINDIRECT \<and>
     (\<forall>k < n. fblk (fview s) (geti s ip) k \<noteq> 0 \<and> fs_block s (unat (fblk (fview s) (geti s ip) k))) \<and>
     (NDIRECT < n \<longrightarrow> addrs (geti s ip) ! NDIRECT \<noteq> 0 \<and> fs_block s (unat (addrs (geti s ip) ! NDIRECT)))"

definition separate :: "(nat \<Rightarrow> block) \<Rightarrow> inode \<Rightarrow> nat \<Rightarrow> bool" where
  "separate v x n \<longleftrightarrow> inj_on (fblk v x) {..<n} \<and> (NDIRECT < n \<longrightarrow> addrs x ! NDIRECT \<notin> fblk v x ` {..<n})"

lemma backed_same:
  "same_fs s t \<Longrightarrow> (\<forall>k < n. fblk (fview t) (geti s ip) k = fblk (fview s) (geti s ip) k) \<Longrightarrow> backed t ip n = backed s ip n"
  by (auto simp: backed_def same_fs_geti fsb.same_usable)

lemma bmap_backed:
  assumes "at_rest s" and "backed s ip n" and "k < n"
  shows "\<exists>u. bmap ip (of_nat k) s = Ok (fblk (fview s) (geti s ip) k) u \<and> at_rest u \<and> fview u = fview s \<and> log_space u = log_space s \<and> same_fs s u"
proof -
  let ?x = "geti s ip"
  have b: "idev ?x = 1" "n \<le> NDIRECT + NINDIRECT" "fblk (fview s) ?x k \<noteq> 0" using assms(2,3) by (simp_all add: backed_def)
  then have k: "unat (of_nat k :: uint) = k" using assms(3) by (intro unat_of_nat_uint) (simp add: NDIRECT_def NINDIRECT_def BSIZE_def)
  show ?thesis
  proof (cases "k < NDIRECT")
    case True
    then have "bmap ip (of_nat k) s = Ok (fblk (fview s) ?x k) s"
      using b(3) k by (simp add: bmap_def addr_alloc_def get_addr_def fblk_def)
    then show ?thesis using assms(1) fsb.same_refl by auto
  next
    case False
    let ?a = "addrs ?x ! NDIRECT"
    have a: "?a \<noteq> 0" "fs_block s (unat ?a)" using assms(2,3) False by (simp_all add: backed_def)
    from fsb.read_law [OF assms(1) a(2)] obtain bp t u where r: "bread 1 (unat ?a) s = Ok bp t" "bdata (getb t bp) = fview s (unat ?a)"
      "same_fs s t" "brelse bp t = Ok () u" "at_rest u" "fview u = fview s" "log_space u = log_space s" "same_fs s u" by blast
    have e: "entry_alloc ip bp (k - NDIRECT) t = Ok (fblk (fview s) ?x k) t"
      using b(3) r(2) False by (simp add: entry_alloc_def Let_def fblk_def)
    have "addr_alloc ip NDIRECT s = Ok ?a s" using a(1) by (simp add: addr_alloc_def get_addr_def)
    moreover have "k - NDIRECT < NINDIRECT" using b(2) assms(3) False by simp
    ultimately have "bmap ip (of_nat k) s = Ok (fblk (fview s) ?x k) u"
      using k False b(1) r(1,4) e by (simp add: bmap_def Let_def)
    then show ?thesis using r by auto
  qed
qed

section \<open>Reading\<close>

lemma BSIZE_pos: "0 < BSIZE"
  by (simp add: BSIZE_def)

lemma chunk_block:
  assumes "i < chunk off n"
  shows "(off + i) div BSIZE = off div BSIZE" and "(off + i) mod BSIZE = off mod BSIZE + i"
proof -
  have "off mod BSIZE + i < BSIZE" using assms unfolding chunk_def by linarith
  moreover have "off + i = BSIZE * (off div BSIZE) + (off mod BSIZE + i)" by simp
  ultimately show "(off + i) div BSIZE = off div BSIZE" "(off + i) mod BSIZE = off mod BSIZE + i"
    by (metis div_mult_self4 div_less add.right_neutral BSIZE_def zero_neq_numeral, metis mod_mult_self4 mod_less)
qed

lemma chunk_range:
  shows "off \<le> j \<and> j < off + chunk off n \<longleftrightarrow> j div BSIZE = off div BSIZE \<and> off mod BSIZE \<le> j mod BSIZE \<and> j mod BSIZE < off mod BSIZE + chunk off n"
    and "j div BSIZE = off div BSIZE \<Longrightarrow> j mod BSIZE - off mod BSIZE = j - off"
proof -
  have j: "j = BSIZE * (j div BSIZE) + j mod BSIZE" "off = BSIZE * (off div BSIZE) + off mod BSIZE" by simp_all
  show r: "j mod BSIZE - off mod BSIZE = j - off" if "j div BSIZE = off div BSIZE"
    using j that by (metis diff_cancel2 add.commute)
  show "off \<le> j \<and> j < off + chunk off n \<longleftrightarrow> j div BSIZE = off div BSIZE \<and> off mod BSIZE \<le> j mod BSIZE \<and> j mod BSIZE < off mod BSIZE + chunk off n"
  proof
    assume a: "off \<le> j \<and> j < off + chunk off n"
    then have "j - off < chunk off n" "j = off + (j - off)" by linarith+
    then show "j div BSIZE = off div BSIZE \<and> off mod BSIZE \<le> j mod BSIZE \<and> j mod BSIZE < off mod BSIZE + chunk off n"
      using chunk_block [of "j - off" off n] by (metis add_less_cancel_left le_add1)
  next
    assume a: "j div BSIZE = off div BSIZE \<and> off mod BSIZE \<le> j mod BSIZE \<and> j mod BSIZE < off mod BSIZE + chunk off n"
    then have "j = BSIZE * (off div BSIZE) + j mod BSIZE" using j(1) by simp
    with a j(2) show "off \<le> j \<and> j < off + chunk off n" by linarith
  qed
qed

lemma chunk_bytes:
  assumes "length (v (unat (fblk v x (off div BSIZE)))) = BSIZE"
  shows "take (chunk off n) (drop (off mod BSIZE) (v (unat (fblk v x (off div BSIZE))))) = map (fbyte v x) [off..<off + chunk off n]"
proof (rule nth_equalityI)
  have "chunk off n \<le> BSIZE - off mod BSIZE" by (simp add: chunk_def)
  then show "length (take (chunk off n) (drop (off mod BSIZE) (v (unat (fblk v x (off div BSIZE)))))) = length (map (fbyte v x) [off..<off + chunk off n])"
    using assms by simp
  then show "take (chunk off n) (drop (off mod BSIZE) (v (unat (fblk v x (off div BSIZE))))) ! i = map (fbyte v x) [off..<off + chunk off n] ! i"
    if "i < length (take (chunk off n) (drop (off mod BSIZE) (v (unat (fblk v x (off div BSIZE))))))" for i
    using that chunk_block [of i off n] assms by (simp add: fbyte_def)
qed

lemma block_index: "off + n \<le> N * BSIZE \<Longrightarrow> 0 < n \<Longrightarrow> off div BSIZE < N"
  by (metis add_gr_0 div_less_iff_less_mult less_add_same_cancel1 less_le_trans BSIZE_def zero_less_numeral)

lemma readi_from_ok:
  assumes "at_rest s" and "backed s ip N" and "off + n \<le> N * BSIZE"
  shows "\<exists>u. readi_from ip off n s = Ok (map (fbyte (fview s) (geti s ip)) [off..<off + n]) u \<and> at_rest u \<and> fview u = fview s \<and>
    log_space u = log_space s \<and> same_fs s u"
  using assms
proof (induction n arbitrary: off s rule: less_induct)
  case (less n)
  let ?x = "geti s ip" and ?v = "fview s" and ?m = "chunk off n"
  show ?case
  proof (cases "n = 0")
    case True
    then show ?thesis using less.prems(1) fsb.same_refl by (subst readi_from.simps) auto
  next
    case False
    let ?k = "off div BSIZE" and ?b = "unat (fblk ?v ?x (off div BSIZE))"
    have k: "?k < N" using block_index [OF less.prems(3)] False by simp
    from bmap_backed [OF less.prems(1,2) k] obtain u where u: "bmap ip (of_nat ?k) s = Ok (fblk ?v ?x ?k) u" "at_rest u" "fview u = ?v"
      "log_space u = log_space s" "same_fs s u" by blast
    have blk: "fs_block s ?b" "idev ?x = 1" using less.prems(2) k by (simp_all add: backed_def)
    then have "fs_block u ?b" using fsb.same_usable [OF u(5)] by simp
    from fsb.read_law [OF u(2) this] obtain bp t w where r: "bread 1 ?b u = Ok bp t" "bdata (getb t bp) = ?v ?b" "brelse bp t = Ok () w"
      "at_rest w" "fview w = ?v" "log_space w = log_space s" "same_fs u w" using u(3,4) by auto
    have sw: "same_fs s w" by (rule fsb.same_trans [OF u(5) r(7)])
    have gw: "geti w ip = ?x" "geti u ip = ?x" using same_fs_geti [OF sw] same_fs_geti [OF u(5)] by simp_all
    have bk: "backed w ip N" using backed_same [OF sw, of N ip] less.prems(2) r(5) by simp
    have m: "0 < ?m" "?m \<le> n" using False chunk_pos chunk_le by auto
    from less.IH [of "n - ?m" w "off + ?m"] m r(4) bk less.prems(3) False obtain z where
      z: "readi_from ip (off + ?m) (n - ?m) w = Ok (map (fbyte ?v ?x) [off + ?m..<off + n]) z" "at_rest z" "fview z = ?v"
        "log_space z = log_space s" "same_fs w z" using r(5,6) gw by auto
    have "length (?v ?b) = BSIZE" using fsb.view_length [OF less.prems(1) blk(1)] .
    then have bs: "take ?m (drop (off mod BSIZE) (?v ?b)) = map (fbyte ?v ?x) [off..<off + ?m]" by (rule chunk_bytes)
    have "[off..<off + n] = [off..<off + ?m] @ [off + ?m..<off + n]" using m by (metis le_add1 le_add_diff_inverse upt_add_eq_append add.assoc)
    then have "readi_from ip off n s = Ok (map (fbyte ?v ?x) [off..<off + n]) z"
      using False u(1) r(1-3) z(1) bs gw blk(2) by (subst readi_from.simps) (simp add: Let_def)
    then show ?thesis using z fsb.same_trans [OF sw z(5)] by auto
  qed
qed

lemma sint_small: "unat w < 2 ^ 31 \<Longrightarrow> sint (w :: uint) = int (unat w)"
proof -
  assume a: "unat w < 2 ^ 31"
  have "sint (of_nat k :: uint) = int k" if "k < 2 ^ 31" for k
    using that by (simp add: signed_of_nat signed_take_bit_int_eq_self)
  from this [OF a] show ?thesis by simp
qed

text \<open>The whole of \<^verbatim>\<open>readi\<close> on a file that is not a device.\<close>

lemma readi_ok:
  assumes "at_rest s" and "backed s ip N" and "unat (isize (geti s ip)) \<le> N * BSIZE"
    and "itype (geti s ip) \<noteq> T_DEV" and "off \<le> isize (geti s ip)" and "unat off + unat n < 2 ^ 32"
  defines "k \<equiv> min (unat n) (unat (isize (geti s ip)) - unat off)"
  shows "\<exists>u. readi ip off n s = Ok (int k, map (fbyte (fview s) (geti s ip)) [unat off..<unat off + k]) u \<and> at_rest u \<and> fview u = fview s \<and>
    log_space u = log_space s \<and> same_fs s u"
proof -
  let ?x = "geti s ip"
  define n' where "n' = (if off + n > isize ?x then isize ?x - off else n)"
  have sum: "unat (off + n) = unat off + unat n" using assms(6) by (rule unat_add_small)
  have le: "unat off \<le> unat (isize ?x)" using assms(5) by (simp add: word_le_nat_alt)
  have un: "unat n' = k"
  proof (cases "off + n > isize ?x")
    case True
    moreover have "unat (isize ?x - off) = unat (isize ?x) - unat off" using assms(5) by (rule unat_sub)
    ultimately show ?thesis using sum le by (simp add: n'_def k_def word_less_nat_alt)
  next
    case False
    then show ?thesis using sum le by (simp add: n'_def k_def word_less_nat_alt)
  qed
  have kN: "unat off + k \<le> N * BSIZE" using le assms(3) by (simp add: k_def)
  moreover have "N \<le> 139" using assms(2) by (simp add: backed_def NDIRECT_def NINDIRECT_def BSIZE_def)
  ultimately have "k < 2 ^ 31" by (simp add: BSIZE_def)
  then have "sint n' = int k" using sint_small [of n'] un by simp
  moreover have "\<not> off + n < off" using sum by (simp add: word_less_nat_alt)
  moreover have "\<not> off > isize ?x" using assms(5) by simp
  moreover obtain u where "readi_from ip (unat off) k s = Ok (map (fbyte (fview s) ?x) [unat off..<unat off + k]) u" "at_rest u" "fview u = fview s"
    "log_space u = log_space s" "same_fs s u" using readi_from_ok [OF assms(1,2) kN] by blast
  ultimately show ?thesis using assms(4) un by (intro exI [of _ u]) (simp add: readi_def Let_def n'_def [symmetric])
qed

section \<open>Writing\<close>

lemma nth_put_bytes:
  "off + length bs \<le> length d \<Longrightarrow> i < length d \<Longrightarrow> put_bytes off bs d ! i = (if off \<le> i \<and> i < off + length bs then bs ! (i - off) else d ! i)"
  by (auto simp: put_bytes_def nth_append min_def)

text \<open>A block of the file is replaced: the addresses stay, and so do the bytes of the other blocks.\<close>

lemma fblk_update:
  assumes "separate v x N" and "k < N" and "i < N"
  shows "fblk (v(unat (fblk v x k) := d)) x i = fblk v x i"
proof (cases "i < NDIRECT")
  case False
  then have "addrs x ! NDIRECT \<noteq> fblk v x k" using assms by (auto simp: separate_def)
  then have "unat (addrs x ! NDIRECT) \<noteq> unat (fblk v x k)" by (simp add: word_unat_eq_iff)
  then show ?thesis using False by (simp add: fblk_def [of _ x i])
qed (simp add: fblk_def)

lemma fbyte_update:
  assumes "separate v x N" and "k < N" and "j div BSIZE < N"
  shows "fbyte (v(unat (fblk v x k) := d)) x j = (if j div BSIZE = k then d ! (j mod BSIZE) else fbyte v x j)"
proof -
  have "fblk v x (j div BSIZE) = fblk v x k \<longleftrightarrow> j div BSIZE = k" using assms by (auto simp: separate_def dest: inj_onD)
  then have "unat (fblk v x (j div BSIZE)) = unat (fblk v x k) \<longleftrightarrow> j div BSIZE = k" by (simp add: word_unat_eq_iff [symmetric])
  then show ?thesis using fblk_update [OF assms, of d] by (simp add: fbyte_def)
qed

lemma separate_cong: "(\<forall>k < N. fblk v' x k = fblk v x k) \<Longrightarrow> separate v x N \<Longrightarrow> separate v' x N"
proof -
  assume e: "\<forall>k < N. fblk v' x k = fblk v x k" and s: "separate v x N"
  have "inj_on (fblk v' x) {..<N} = inj_on (fblk v x) {..<N}" using e by (intro inj_on_cong) simp
  moreover have "fblk v' x ` {..<N} = fblk v x ` {..<N}" using e by (intro image_cong) simp_all
  ultimately show ?thesis using s by (simp add: separate_def)
qed

text \<open>The number of blocks that a write of \<open>n\<close> bytes at offset \<open>off\<close> touches.\<close>

definition touched :: "nat \<Rightarrow> nat \<Rightarrow> nat" where
  "touched off n = (if n = 0 then 0 else (off mod BSIZE + n + (BSIZE - 1)) div BSIZE)"

lemma touched_zero: "touched off 0 = 0"
  by (simp add: touched_def)

lemma touched_chunk:
  assumes "0 < n"
  shows "touched off n = Suc (if n = chunk off n then 0 else touched (off + chunk off n) (n - chunk off n))"
proof (cases "n = chunk off n")
  case True
  then have "off mod BSIZE + n \<le> BSIZE" by (simp add: chunk_def BSIZE_def)
  moreover have "(off mod BSIZE + n + (BSIZE - 1)) div BSIZE = Suc ((off mod BSIZE + n - 1) div BSIZE)" 
  proof -
    have "off mod BSIZE + n + (BSIZE - 1) = (off mod BSIZE + n - 1) + BSIZE" using assms by (simp add: BSIZE_def)
    then show ?thesis by (simp only:) (simp add: BSIZE_def)
  qed
  ultimately have "touched off n = 1" using assms by (simp add: touched_def BSIZE_def)
  with True show ?thesis by simp
next
  case False
  then have c: "chunk off n = BSIZE - off mod BSIZE" "BSIZE - off mod BSIZE < n" by (simp_all add: chunk_def)
  have "(off + (BSIZE - off mod BSIZE)) mod BSIZE = 0"
  proof -
    have "off mod BSIZE \<le> BSIZE" "off = BSIZE * (off div BSIZE) + off mod BSIZE" by (simp_all add: BSIZE_def less_imp_le)
    then have "off + (BSIZE - off mod BSIZE) = BSIZE * (off div BSIZE) + BSIZE" by linarith
    then show ?thesis by simp
  qed
  then have "touched (off + chunk off n) (n - chunk off n) = (n - (BSIZE - off mod BSIZE) + (BSIZE - 1)) div BSIZE"
    using c by (simp add: touched_def)
  moreover have "off mod BSIZE + n + (BSIZE - 1) = (n - (BSIZE - off mod BSIZE) + (BSIZE - 1)) + BSIZE"
    using c(2) mod_less_divisor [OF BSIZE_pos, of off] by linarith
  then have "touched off n = Suc ((n - (BSIZE - off mod BSIZE) + (BSIZE - 1)) div BSIZE)"
    using assms unfolding touched_def by (simp only: div_add_self2 [OF less_imp_neq [OF BSIZE_pos, symmetric]]) simp
  ultimately show ?thesis using False by simp
qed

lemma writei_from_ok:
  assumes "at_rest s" and "backed s ip N" and "separate (fview s) (geti s ip) N" and "off + length bs \<le> N * BSIZE"
    and "touched off (length bs) \<le> log_space s"
  shows "\<exists>u. writei_from ip off bs s = Ok () u \<and> at_rest u \<and> same_fs s u \<and> log_space s \<le> log_space u + touched off (length bs) \<and>
    (\<forall>k < N. fblk (fview u) (geti s ip) k = fblk (fview s) (geti s ip) k) \<and>
    (\<forall>j < N * BSIZE. fbyte (fview u) (geti s ip) j =
       (if off \<le> j \<and> j < off + length bs then bs ! (j - off) else fbyte (fview s) (geti s ip) j)) \<and>
    (\<forall>b. (\<forall>k < N. b \<noteq> unat (fblk (fview s) (geti s ip) k)) \<longrightarrow> fview u b = fview s b)"
  using assms
proof (induction "length bs" arbitrary: off bs s rule: less_induct)
  case less
  let ?x = "geti s ip" and ?v = "fview s" and ?n = "length bs" and ?m = "chunk off (length bs)"
  show ?case
  proof (cases "bs = []")
    case True
    then show ?thesis using less.prems(1) fsb.same_refl by (subst writei_from.simps) auto
  next
    case False
    let ?k = "off div BSIZE" and ?b = "unat (fblk ?v ?x (off div BSIZE))"
    let ?f = "put_bytes (off mod BSIZE) (take ?m bs)"
    have k: "?k < N" using block_index [OF less.prems(4)] False by simp
    have m: "0 < ?m" "?m \<le> ?n" "off mod BSIZE + ?m \<le> BSIZE" using False chunk_pos [of ?n off] by (auto simp: chunk_def BSIZE_def)
    from bmap_backed [OF less.prems(1,2) k] obtain u where u: "bmap ip (of_nat ?k) s = Ok (fblk ?v ?x ?k) u" "at_rest u" "fview u = ?v"
      "log_space u = log_space s" "same_fs s u" by blast
    have blk: "fs_block s ?b" "idev ?x = 1" using less.prems(2) k by (simp_all add: backed_def)
    then have ub: "fs_block u ?b" using fsb.same_usable [OF u(5)] by simp
    have len: "length (?v ?b) = BSIZE" using fsb.view_length [OF less.prems(1) blk(1)] .
    have sp: "0 < log_space u" using less.prems(5) touched_chunk [of ?n off] False u(4) by simp
    have "length (?f (fview u ?b)) = BSIZE" using len m u(3) by (simp add: put_bytes_def)
    from fsb.write_law [where f = ?f, OF u(2) ub sp this] obtain bp t w z where
      r: "bread 1 ?b u = Ok bp t" "log_write bp (bmodify bp ?f t) = Ok () w" "brelse bp w = Ok () z"
        "at_rest z" "fview z = ?v(?b := ?f (?v ?b))" "log_space s \<le> Suc (log_space z)" "same_fs u z" using u(3,4) by auto
    have sz: "same_fs s z" by (rule fsb.same_trans [OF u(5) r(7)])
    have gz: "geti z ip = ?x" "geti u ip = ?x" using same_fs_geti [OF sz] same_fs_geti [OF u(5)] by simp_all
    have fz: "\<forall>i < N. fblk (fview z) ?x i = fblk ?v ?x i" using fblk_update [OF less.prems(3) k] r(5) by simp
    have step: "writei_from ip off bs s = writei_from ip (off + ?m) (drop ?m bs) z"
      using False u(1) r(1-3) gz blk(2) by (subst writei_from.simps) (simp add: Let_def)
    have bz: "fbyte (fview z) ?x j = (if off \<le> j \<and> j < off + ?m then bs ! (j - off) else fbyte ?v ?x j)" if "j < N * BSIZE" for j
    proof -
      have jN: "j div BSIZE < N" using that by (simp add: div_less_iff_less_mult BSIZE_def)
      note up = fbyte_update [OF less.prems(3) k jN, of "?f (?v ?b)", folded r(5)]
      have "(?f (?v ?b)) ! (j mod BSIZE) = (if off mod BSIZE \<le> j mod BSIZE \<and> j mod BSIZE < off mod BSIZE + ?m
          then bs ! (j mod BSIZE - off mod BSIZE) else ?v ?b ! (j mod BSIZE))"
        using nth_put_bytes [of "off mod BSIZE" "take ?m bs" "?v ?b" "j mod BSIZE"] len m mod_less_divisor [of BSIZE j] by (auto simp: BSIZE_pos)
      moreover have "off \<le> j \<and> j < off + ?m \<longleftrightarrow> j div BSIZE = ?k \<and> off mod BSIZE \<le> j mod BSIZE \<and> j mod BSIZE < off mod BSIZE + ?m"
        and "j div BSIZE = ?k \<Longrightarrow> j mod BSIZE - off mod BSIZE = j - off"
        by (rule chunk_range)+
      ultimately show ?thesis using up by (auto simp: fbyte_def)
    qed
    have small: "length (drop ?m bs) < length bs" using m by simp
    have bk: "backed z ip N" using backed_same [OF sz fz] less.prems(2) by simp
    have sep: "separate (fview z) (geti z ip) N" using separate_cong [OF fz less.prems(3)] gz(1) by simp
    have fit: "off + ?m + length (drop ?m bs) \<le> N * BSIZE" using less.prems(4) m by simp
    have tch: "touched off ?n = Suc (touched (off + ?m) (length (drop ?m bs)))" "touched (off + ?m) (length (drop ?m bs)) \<le> log_space z"
      using touched_chunk [of ?n off] less.prems(5) r(6) m False by (cases "?n = ?m"; simp add: touched_zero)+
    from less.hyps [OF small r(4) bk sep fit tch(2)] gz(1) obtain y where
      y: "writei_from ip (off + ?m) (drop ?m bs) z = Ok () y" "at_rest y" "same_fs z y"
        "log_space z \<le> log_space y + touched (off + ?m) (length (drop ?m bs))"
        "\<forall>k < N. fblk (fview y) ?x k = fblk (fview z) ?x k"
        "\<forall>j < N * BSIZE. fbyte (fview y) ?x j =
          (if off + ?m \<le> j \<and> j < off + ?m + length (drop ?m bs) then drop ?m bs ! (j - (off + ?m)) else fbyte (fview z) ?x j)"
        "\<forall>b. (\<forall>k < N. b \<noteq> unat (fblk (fview z) ?x k)) \<longrightarrow> fview y b = fview z b" by auto
    have "fbyte (fview y) ?x j = (if off \<le> j \<and> j < off + ?n then bs ! (j - off) else fbyte ?v ?x j)" if "j < N * BSIZE" for j
      using y(6) [rule_format, OF that] bz [OF that] m by (auto simp: not_le not_less)
    moreover have "fview y b = ?v b" if b: "\<forall>k < N. b \<noteq> unat (fblk ?v ?x k)" for b
    proof -
      have "fview y b = fview z b" using y(7) b fz by simp
      then show ?thesis using b k r(5) by simp
    qed
    moreover have "log_space s \<le> log_space y + touched off ?n" using r(6) y(4) tch(1) by simp
    ultimately show ?thesis
      using step y(1,2,5) fz fsb.same_trans [OF sz y(3)] by (intro exI [of _ y]) simp
  qed
qed

text \<open>The whole of \<^verbatim>\<open>writei\<close>: \<open>room\<close> in the log for the blocks and the inode, whose block is not one of the file's.\<close>

definition can_write :: "'a inode_st_scheme \<Rightarrow> nat \<Rightarrow> nat \<Rightarrow> nat \<Rightarrow> nat \<Rightarrow> bool" where
  "can_write s ip N off n \<longleftrightarrow>
     (let x = geti s ip; k = IBLOCK (inum x) in
      at_rest s \<and> backed s ip N \<and> separate (fview s) x N \<and> ip < length (icache s) \<and> itype x \<noteq> T_DEV \<and>
      off \<le> unat (isize x) \<and> unat (isize x) \<le> N * BSIZE \<and> off + n \<le> N * BSIZE \<and> touched off n < log_space s \<and>
      fs_block s k \<and> (\<forall>j < N. k \<noteq> unat (fblk (fview s) x j)) \<and> (NDIRECT < N \<longrightarrow> k \<noteq> unat (addrs x ! NDIRECT)))"

lemma fblk_cong:
  "addrs y = addrs x \<Longrightarrow> (NDIRECT \<le> k \<Longrightarrow> v' (unat (addrs x ! NDIRECT)) = v (unat (addrs x ! NDIRECT))) \<Longrightarrow> fblk v' y k = fblk v x k"
  by (simp add: fblk_def)

lemma writei_ok:
  assumes can: "can_write s ip N off (length bs)"
  defines "x \<equiv> geti s ip" and "sz' \<equiv> max (unat (isize (geti s ip))) (off + length bs)"
  shows "\<exists>t. writei ip bs (of_nat off) (of_nat (length bs)) s = Ok (int (length bs)) t \<and> at_rest t \<and> backed t ip N \<and>
    geti t ip = x\<lparr>isize := of_nat (if bs = [] then unat (isize x) else sz')\<rparr> \<and>
    (\<forall>j < N * BSIZE. fbyte (fview t) (geti t ip) j = (if off \<le> j \<and> j < off + length bs then bs ! (j - off) else fbyte (fview s) x j))"
proof -
  let ?k = "IBLOCK (inum x)"
  have h: "at_rest s" "backed s ip N" "separate (fview s) x N" "ip < length (icache s)" "itype x \<noteq> T_DEV" "off \<le> unat (isize x)"
    "unat (isize x) \<le> N * BSIZE" "off + length bs \<le> N * BSIZE" "touched off (length bs) < log_space s" "fs_block s ?k"
    "\<forall>j < N. ?k \<noteq> unat (fblk (fview s) x j)" "NDIRECT < N \<longrightarrow> ?k \<noteq> unat (addrs x ! NDIRECT)"
    using can by (simp_all add: can_write_def Let_def x_def)
  have N: "N \<le> 139" using h(2) by (simp add: backed_def NDIRECT_def NINDIRECT_def BSIZE_def)
  then have small: "off + length bs < 2 ^ 31" using h(8) by (simp add: BSIZE_def)
  have u: "unat (of_nat off :: uint) = off" "unat (of_nat (length bs) :: uint) = length bs" "unat (of_nat (off + length bs) :: uint) = off + length bs"
    using small by (intro unat_of_nat_uint; simp)+
  have sum: "(of_nat off :: uint) + of_nat (length bs) = of_nat (off + length bs)" by simp
  have guards: "\<not> of_nat off > isize x" "\<not> (of_nat (off + length bs) :: uint) < of_nat off" "\<not> unat (of_nat (off + length bs) :: uint) > MAXFILE * BSIZE"
    using h(6,8) u N by (simp_all add: word_less_nat_alt not_less MAXFILE_def NDIRECT_def NINDIRECT_def BSIZE_def)
  have si: "sint (of_nat (length bs) :: uint) = int (length bs)" using sint_small [of "of_nat (length bs)"] u(2) small by simp
  from writei_from_ok [OF h(1,2) h(3) [unfolded x_def] h(8)] h(9) obtain w where w: "writei_from ip off bs s = Ok () w" "at_rest w" "same_fs s w"
    "log_space s \<le> log_space w + touched off (length bs)" "\<forall>k < N. fblk (fview w) x k = fblk (fview s) x k"
    "\<forall>j < N * BSIZE. fbyte (fview w) x j = (if off \<le> j \<and> j < off + length bs then bs ! (j - off) else fbyte (fview s) x j)"
    "\<forall>b. (\<forall>k < N. b \<noteq> unat (fblk (fview s) x k)) \<longrightarrow> fview w b = fview s b"
    by (auto simp: x_def)
  have gw: "geti w ip = x" "length (icache w) = length (icache s)" using same_fs_geti [OF w(3)] same_fs_icache [OF w(3)] by (simp_all add: x_def)
  have bw: "backed w ip N" using backed_same [OF w(3), of N ip] w(5) h(2) by (simp add: x_def)
  let ?grow = "bs \<noteq> [] \<and> unat (isize x) < off + length bs"
  have call: "writei ip bs (of_nat off) (of_nat (length bs)) s =
      (if ?grow then call (iupdate ip (seti ip (x\<lparr>isize := of_nat (off + length bs)\<rparr>) w)) (\<lambda>_ s. Ok (int (length bs)) s) else Ok (int (length bs)) w)"
  proof -
    have "(0 :: uint) < of_nat (length bs) \<longleftrightarrow> bs \<noteq> []" "of_nat (off + length bs) > isize x \<longleftrightarrow> unat (isize x) < off + length bs"
      using u by (simp_all add: word_less_nat_alt)
    then show ?thesis
      using guards h(5) w(1) u si gw(1) unfolding writei_def sum Let_def x_def [symmetric] by simp
  qed
  show ?thesis
  proof (cases ?grow)
    case False
    then have "bs \<noteq> [] \<Longrightarrow> sz' = unat (isize x)" unfolding sz'_def x_def [symmetric] by linarith
    then have "isize x = of_nat (if bs = [] then unat (isize x) else sz')" by (cases "bs = []") simp_all
    then have "geti w ip = x\<lparr>isize := of_nat (if bs = [] then unat (isize x) else sz')\<rparr>" using gw(1) by simp
    then show ?thesis using call False w(2,6) bw gw(1) by (intro exI [of _ w]) auto
  next
    case True
    define w1 where "w1 = seti ip (x\<lparr>isize := of_nat (off + length bs)\<rparr>) w"
    have g1: "geti w1 ip = x\<lparr>isize := of_nat (off + length bs)\<rparr>" using gw h(4) by (simp add: w1_def geti_seti)
    have "idev x = 1" using h(2) by (simp add: backed_def x_def)
    moreover have "0 < log_space w1" using h(9) w(4) by (simp add: w1_def)
    moreover have "fs_block w1 ?k" using h(10) fsb.same_usable [OF w(3)] by (simp add: w1_def)
    ultimately obtain t where t: "iupdate ip w1 = Ok () t" "at_rest t" "same_fs w1 t"
      "fview t = (fview w1)(?k := put_dinode (dinode_off (inum x)) (dinode_of (x\<lparr>isize := of_nat (off + length bs)\<rparr>)) (fview w1 ?k))"
      using iupdate_ok [of w1 ip] w(2) g1 by (auto simp: w1_def)
    have v: "fview t b = fview w b" if "b \<noteq> ?k" for b using t(4) that by (simp add: w1_def)
    have gt: "geti t ip = x\<lparr>isize := of_nat (off + length bs)\<rparr>" using same_fs_geti [OF t(3)] g1 by simp
    have ft: "fblk (fview t) (geti t ip) k = fblk (fview w) x k" if "k < N" for k
      using that h(12) v by (intro fblk_cong) (auto simp: gt)
    have bt: "fbyte (fview t) (geti t ip) j = fbyte (fview w) x j" if "j < N * BSIZE" for j
    proof -
      have "j div BSIZE < N" using that by (simp add: div_less_iff_less_mult BSIZE_def)
      moreover from this have "fview t (unat (fblk (fview s) x (j div BSIZE))) = fview w (unat (fblk (fview s) x (j div BSIZE)))"
        using h(11) by (intro v) metis
      ultimately show ?thesis using ft w(5) by (simp add: fbyte_def)
    qed
    have "backed t ip N"
      using bw ft gt gw(1) fsb.same_usable [OF t(3)] by (simp add: backed_def w1_def)
    moreover have "sz' = off + length bs" using True by (simp add: sz'_def x_def)
    ultimately show ?thesis
      using call True t(1,2) gt bt w(6) unfolding w1_def [symmetric] by (intro exI [of _ t]) simp
  qed
qed



end
