(* ===== verification/Fs_Alloc.thy ===== *)
theory Fs_Alloc
  imports Fs_Blocks
begin

text \<open>
  The block allocator of \<^verbatim>\<open>fs.c\<close>: \<^verbatim>\<open>balloc\<close> finds the first clear bit of the bitmap, sets it and zeroes the block; \<^verbatim>\<open>bfree\<close> clears the bit.
\<close>

section \<open>Bits of a bitmap block\<close>

lemma bit_used_iff: "bit_used d bi \<longleftrightarrow> bit (d ! (bi div 8)) (bi mod 8)"
  by (simp add: bit_used_def bit_iff_and_push_bit_not_eq_0)

lemma bit_index: "bi div 8 = bj div 8 \<Longrightarrow> bi mod 8 = bj mod 8 \<longleftrightarrow> bi = bj" for bi bj :: nat
  by (metis div_mult_mod_eq)

lemma bit_mark_used:
  assumes "bi div 8 < length d"
  shows "bit_used (mark_used bi d) bj \<longleftrightarrow> bj = bi \<or> bit_used d bj"
proof (cases "bj div 8 = bi div 8")
  case True
  then show ?thesis using assms bit_index [OF True] by (auto simp: bit_used_iff mark_used_def bit_simps)
qed (auto simp: bit_used_iff mark_used_def)

lemma bit_mark_free:
  assumes "bi div 8 < length d"
  shows "bit_used (mark_free bi d) bj \<longleftrightarrow> bj \<noteq> bi \<and> bit_used d bj"
proof (cases "bj div 8 = bi div 8")
  case True
  then show ?thesis using assms bit_index [OF True] by (auto simp: bit_used_iff mark_free_def bit_simps)
qed (auto simp: bit_used_iff mark_free_def)

lemma length_mark [simp]: "length (mark_used bi d) = length d" "length (mark_free bi d) = length d"
  by (simp_all add: mark_used_def mark_free_def)

section \<open>The bitmap\<close>

definition block_used :: "superblock \<Rightarrow> (nat \<Rightarrow> block) \<Rightarrow> nat \<Rightarrow> bool" where
  "block_used sb v b \<longleftrightarrow> bit_used (v (BBLOCK b (sb_ninodes sb))) (b mod BPB)"

lemma BBLOCK_add: "BPB dvd b \<Longrightarrow> bi < BPB \<Longrightarrow> BBLOCK (b + bi) n = BBLOCK b n" "BPB dvd b \<Longrightarrow> bi < BPB \<Longrightarrow> (b + bi) mod BPB = bi"
  by (auto simp: BBLOCK_def elim!: dvdE)

text \<open>A disk whose bitmap is sane: it lies on the disk outside the log, and the free blocks are neither bitmap nor log blocks.\<close>

definition bitmap_ok :: "'a log_st_scheme \<Rightarrow> superblock \<Rightarrow> bool" where
  "bitmap_ok s sb \<longleftrightarrow>
     fs_block s 1 \<and> sb_of (fview s 1) = sb \<and>
     (\<forall>b < unat (sb_size sb). fs_block s (BBLOCK b (sb_ninodes sb)) \<and> BBLOCK b (sb_ninodes sb) \<noteq> 1) \<and>
     (\<forall>b < unat (sb_size sb). \<not> block_used sb (fview s) b \<longrightarrow> fs_block s b \<and> (\<forall>c < unat (sb_size sb). b \<noteq> BBLOCK c (sb_ninodes sb)))"

lemma bzero_ok:
  assumes "at_rest s" and "fs_block s b" and "0 < log_space s"
  shows "\<exists>u. bzero 1 b s = Ok () u \<and> at_rest u \<and> fview u = (fview s)(b := replicate BSIZE 0) \<and> log_space s \<le> Suc (log_space u) \<and> same_fs s u"
proof -
  from fsb.write_law [where f = "\<lambda>_. replicate BSIZE 0", OF assms] obtain bp t v u where
    "bread 1 b s = Ok bp t" "log_write bp (bmodify bp (\<lambda>_. replicate BSIZE 0) t) = Ok () v" "brelse bp v = Ok () u" "at_rest u"
    "fview u = (fview s)(b := replicate BSIZE 0)" "log_space s \<le> Suc (log_space u)" "same_fs s u" by auto
  then show ?thesis by (intro exI [of _ u]) (simp add: bzero_def)
qed

lemma find_clear_first:
  "find_clear n d = Some bi \<longleftrightarrow> bi < min BPB n \<and> \<not> bit_used d bi \<and> (\<forall>bj < bi. bit_used d bj)"
  "find_clear n d = None \<longleftrightarrow> (\<forall>bj < min BPB n. bit_used d bj)"
  by (auto simp: find_clear_def find_Some_iff find_None_iff)

lemma balloc_from_ok:
  assumes "at_rest s" and "bitmap_ok s sb" and "2 \<le> log_space s" and "BPB dvd b" and "\<forall>c < b. c < unat (sb_size sb) \<longrightarrow> block_used sb (fview s) c"
    and "b0 < unat (sb_size sb)" and "\<not> block_used sb (fview s) b0" and "\<forall>c < b0. block_used sb (fview s) c"
  shows "\<exists>t. balloc_from 1 sb b s = Ok (of_nat b0) t \<and> at_rest t \<and> same_fs s t \<and> log_space s \<le> log_space t + 2 \<and>
    fview t = (fview s)(BBLOCK b0 (sb_ninodes sb) := mark_used (b0 mod BPB) (fview s (BBLOCK b0 (sb_ninodes sb))), b0 := replicate BSIZE 0)"
  using assms
proof (induction "unat (sb_size sb) - b" arbitrary: b s rule: less_induct)
  case less
  let ?n = "unat (sb_size sb)" and ?v = "fview s" and ?k = "BBLOCK b (sb_ninodes sb)"
  have bb: "b \<le> b0" using less.prems(5,6,7) by (meson not_le)
  then have b: "b < ?n" using less.prems(6) by simp
  have BP: "0 < BPB" by (simp add: BPB_def BSIZE_def)
  have k: "fs_block s ?k" using less.prems(2) b by (simp add: bitmap_ok_def)
  have len: "length (?v ?k) = BSIZE" using fsb.view_length [OF less.prems(1) k] .
  show ?case
  proof (cases "b0 < b + BPB")
    case True
    define bi where "bi = b0 - b"
    have bi: "b0 = b + bi" "bi < BPB" using bb True by (simp_all add: bi_def)
    have kb: "BBLOCK b0 (sb_ninodes sb) = ?k" "b0 mod BPB = bi" using BBLOCK_add [OF less.prems(4) bi(2)] bi(1) by simp_all
    have used: "block_used sb ?v (b + c) = bit_used (?v ?k) c" if "c < BPB" for c
      using BBLOCK_add [OF less.prems(4) that] by (simp add: block_used_def)
    have "bit_used (?v ?k) c" if "c < bi" for c using used [of c] less.prems(8) that bi by simp
    moreover have "\<not> bit_used (?v ?k) bi" using used [OF bi(2)] less.prems(7) bi(1) by simp
    ultimately have fc: "find_clear (?n - b) (?v ?k) = Some bi" using less.prems(6) bi by (simp add: find_clear_first)
    let ?f = "mark_used bi"
    have "length (?f (?v ?k)) = BSIZE" using len by simp
    with fsb.write_law [where f = ?f, OF less.prems(1) k] less.prems(3) obtain bp t w u where
      r: "bread 1 ?k s = Ok bp t" "bdata (getb t bp) = ?v ?k" "log_write bp (bmodify bp ?f t) = Ok () w" "brelse bp w = Ok () u" "at_rest u"
        "fview u = ?v(?k := ?f (?v ?k))" "log_space s \<le> Suc (log_space u)" "same_fs s u" by auto
    have fb: "fs_block s b0" "b0 \<noteq> ?k" using less.prems(2,6,7) b by (auto simp: bitmap_ok_def)
    then have "fs_block u b0" using fsb.same_usable [OF r(8)] by simp
    with bzero_ok [OF r(5)] r(7) less.prems(3) obtain z where z: "bzero 1 b0 u = Ok () z" "at_rest z" "fview z = (fview u)(b0 := replicate BSIZE 0)"
      "log_space u \<le> Suc (log_space z)" "same_fs u z" by fastforce
    have "balloc_from 1 sb b s = Ok (of_nat b0) z"
      using b r(1-4) z(1) fc bi(1) by (subst balloc_from.simps) simp
    then show ?thesis
      using z(2,3,4) r(6,7) fsb.same_trans [OF r(8) z(5)] kb by (intro exI [of _ z]) auto
  next
    case False
    have full: "find_clear (?n - b) (?v ?k) = None"
    proof -
      have "bit_used (?v ?k) c" if "c < min BPB (?n - b)" for c
      proof -
        have "block_used sb ?v (b + c)" using less.prems(8) False that by simp
        then show ?thesis using BBLOCK_add [OF less.prems(4), of c] that by (simp add: block_used_def)
      qed
      then show ?thesis by (simp add: find_clear_first)
    qed
    from fsb.read_law [OF less.prems(1) k] obtain bp t u where r: "bread 1 ?k s = Ok bp t" "bdata (getb t bp) = ?v ?k" "brelse bp t = Ok () u"
      "at_rest u" "fview u = ?v" "log_space u = log_space s" "same_fs s u" by blast
    have step: "balloc_from 1 sb b s = balloc_from 1 sb (b + BPB) u"
      using b r(1-3) full by (subst balloc_from.simps) simp
    have ok: "bitmap_ok u sb" using less.prems(2) fsb.same_usable [OF r(7)] r(5) by (simp add: bitmap_ok_def)
    have h: "?n - (b + BPB) < ?n - b" "BPB dvd b + BPB" "2 \<le> log_space u" using b BP less.prems(3,4) r(6) by simp_all
    have full': "\<forall>c < b + BPB. c < ?n \<longrightarrow> block_used sb (fview u) c" using less.prems(8) False r(5) by simp
    obtain z where z: "balloc_from 1 sb (b + BPB) u = Ok (of_nat b0) z" "at_rest z" "same_fs u z" "log_space u \<le> log_space z + 2"
      "fview z = (fview u)(BBLOCK b0 (sb_ninodes sb) := mark_used (b0 mod BPB) (fview u (BBLOCK b0 (sb_ninodes sb))), b0 := replicate BSIZE 0)"
      using less.hyps [OF h(1) r(4) ok h(3,2) full' less.prems(6)] less.prems(7,8) r(5) by auto
    then show ?thesis using step r(5,6) fsb.same_trans [OF r(7) z(3)] by (intro exI [of _ z]) simp
  qed
qed

lemma readsb_at_rest:
  assumes "at_rest s" and "fs_block s 1"
  shows "\<exists>u. readsb 1 s = Ok (sb_of (fview s 1)) u \<and> at_rest u \<and> fview u = fview s \<and> log_space u = log_space s \<and> same_fs s u"
proof -
  from fsb.read_law [OF assms] obtain b t u where "bread 1 1 s = Ok b t" "bdata (getb t b) = fview s 1" "brelse b t = Ok () u"
    "at_rest u" "fview u = fview s" "log_space u = log_space s" "same_fs s u" by blast
  then show ?thesis by (intro exI [of _ u]) (simp add: readsb_def Let_def)
qed

lemma block_used_mark:
  assumes "c div BPB = b div BPB \<longrightarrow> length (v (BBLOCK b (sb_ninodes sb))) = BSIZE"
  shows "block_used sb (v(BBLOCK b (sb_ninodes sb) := mark_used (b mod BPB) (v (BBLOCK b (sb_ninodes sb))))) c \<longleftrightarrow> c = b \<or> block_used sb v c"
    and "block_used sb (v(BBLOCK b (sb_ninodes sb) := mark_free (b mod BPB) (v (BBLOCK b (sb_ninodes sb))))) c \<longleftrightarrow> c \<noteq> b \<and> block_used sb v c"
proof -
  have e: "BBLOCK c (sb_ninodes sb) = BBLOCK b (sb_ninodes sb) \<longleftrightarrow> c div BPB = b div BPB" by (simp add: BBLOCK_def)
  have i: "c mod BPB = b mod BPB \<longleftrightarrow> c = b" if "c div BPB = b div BPB" using that by (metis div_mult_mod_eq)
  have l: "b mod BPB div 8 < BSIZE" by (simp add: BPB_def BSIZE_def div_less_iff_less_mult)
  show "block_used sb (v(BBLOCK b (sb_ninodes sb) := mark_used (b mod BPB) (v (BBLOCK b (sb_ninodes sb))))) c \<longleftrightarrow> c = b \<or> block_used sb v c"
    using assms l i e by (cases "c div BPB = b div BPB") (auto simp: block_used_def bit_mark_used)
  show "block_used sb (v(BBLOCK b (sb_ninodes sb) := mark_free (b mod BPB) (v (BBLOCK b (sb_ninodes sb))))) c \<longleftrightarrow> c \<noteq> b \<and> block_used sb v c"
    using assms l i e by (cases "c div BPB = b div BPB") (auto simp: block_used_def bit_mark_free)
qed



end
