(* ===== verification/Kbd.thy ===== *)
theory Kbd
  imports Console
begin

text \<open>
  The keyboard driver \<^verbatim>\<open>kbd.c\<close> with the tables of \<^verbatim>\<open>kbd.h\<close>: a state machine from the scan codes of the controller to characters. The
  static variable \<^verbatim>\<open>shift\<close> is its state; a scan code is the byte that the data port delivers when the status port says that there is one.
\<close>

section \<open>Tables\<close>

definition SHIFT :: uint where "SHIFT = 1"
definition CTL :: uint where "CTL = 2"
definition ALT :: uint where "ALT = 4"
definition CAPSLOCK :: uint where "CAPSLOCK = 8"
definition NUMLOCK :: uint where "NUMLOCK = 16"
definition SCROLLLOCK :: uint where "SCROLLLOCK = 32"
definition E0ESC :: uint where "E0ESC = 64"

definition shiftcode :: "uint list" where
  "shiftcode = (replicate 256 0)[0x1D := CTL, 0x2A := SHIFT, 0x36 := SHIFT, 0x38 := ALT, 0x9D := CTL, 0xB8 := ALT]"

definition togglecode :: "uint list" where
  "togglecode = (replicate 256 0)[0x3A := CAPSLOCK, 0x45 := NUMLOCK, 0x46 := SCROLLLOCK]"

text \<open>\<open>keys\<close> pads the listed entries of a table to its 256 and sets the keypad and cursor keys, which the three tables share but for the
  two keypad characters.\<close>

definition keys :: "byte list \<Rightarrow> byte \<Rightarrow> byte \<Rightarrow> byte list" where
  "keys listed enter kp_div =
     (listed @ replicate (256 - length listed) 0)
       [0x9C := enter, 0xB5 := kp_div, 0xC8 := 0xE2, 0xD0 := 0xE3, 0xC9 := 0xE6, 0xD1 := 0xE7, 0xCB := 0xE4, 0xCD := 0xE5,
        0x97 := 0xE0, 0xCF := 0xE1, 0xD2 := 0xE8, 0xD3 := 0xE9]"

definition normalmap :: "byte list" where
  "normalmap =
     keys ([0, 0x1B] @ str ''1234567890-='' @ [8, 9] @ str ''qwertyuiop[]'' @ [10, 0] @ str ''asdfghjkl;'' @ [39, 96, 0, 92] @
           str ''zxcvbnm,./'' @ [0, 42, 0, 32] @ replicate 13 0 @ str ''789-456+1230.'' @ [0, 0, 0, 0]) 10 47"

definition shiftmap :: "byte list" where
  "shiftmap =
     keys ([0, 27] @ str ''!@#$%^&*()_+'' @ [8, 9] @ str ''QWERTYUIOP{}'' @ [10, 0] @ str ''ASDFGHJKL:'' @ [34, 126, 0, 124] @
           str ''ZXCVBNM<>?'' @ [0, 42, 0, 32] @ replicate 13 0 @ str ''789-456+1230.'' @ [0, 0, 0, 0]) 10 47"

text \<open>The macro \<^verbatim>\<open>C(x)\<close>.\<close>

definition ctl :: "string \<Rightarrow> byte list" where
  "ctl cs = map (\<lambda>c. c - 64) (str cs)"

definition ctlmap :: "byte list" where
  "ctlmap =
     keys (replicate 16 0 @ ctl ''QWERTYUIOP'' @ [0, 0, 13, 0] @ ctl ''ASDFGHJKL'' @ [0, 0, 0, 0, 92 - 64] @ ctl ''ZXCVBNM'' @
           [0, 0, 47 - 64, 0, 0]) 13 (47 - 64)"

section \<open>The state machine\<close>

definition charcode :: "uint \<Rightarrow> byte list" where
  "charcode m = (if m = 0 then normalmap else if m = SHIFT then shiftmap else ctlmap)"

definition swap_case :: "uint \<Rightarrow> uint" where
  "swap_case c = (if 97 \<le> c \<and> c \<le> 122 then c + 65 - 97 else if 65 \<le> c \<and> c \<le> 90 then c + 97 - 65 else c)"

definition kbdgetc :: "byte option \<Rightarrow> uint \<Rightarrow> int \<times> uint" where
  "kbdgetc port shift =
     (case port of
        None \<Rightarrow> (- 1, shift)
      | Some d \<Rightarrow>
          let data = ucast d :: uint in
          if data = 0xE0 then (0, shift OR E0ESC)
          else if data AND 0x80 \<noteq> 0 then
            let data = (if shift AND E0ESC \<noteq> 0 then data else data AND 0x7F)
            in (0, shift AND NOT (shiftcode ! unat data OR E0ESC))
          else
            let esc = shift AND E0ESC \<noteq> 0;
                data = (if esc then data OR 0x80 else data);
                shift = (if esc then shift AND NOT E0ESC else shift);
                shift = (shift OR shiftcode ! unat data) XOR togglecode ! unat data;
                c = ucast (charcode (shift AND (CTL OR SHIFT)) ! unat data) :: uint
            in (sint (if shift AND CAPSLOCK \<noteq> 0 then swap_case c else c), shift))"

text \<open>The characters that the calls of \<^verbatim>\<open>kbdgetc\<close> in one interrupt return, on the scan codes that are waiting.\<close>

fun kbd_chars :: "byte list \<Rightarrow> uint \<Rightarrow> int list \<times> uint" where
  "kbd_chars [] shift = ([fst (kbdgetc None shift)], shift)"
| "kbd_chars (d # ds) shift =
     (let (c, shift) = kbdgetc (Some d) shift; (cs, shift) = kbd_chars ds shift in (c # cs, shift))"

section \<open>The tables have all 256 entries\<close>

lemma length_str [simp]: "length (str cs) = length cs" "length (ctl cs) = length cs"
  by (simp_all add: str_def ctl_def)

lemma table_lengths: "length shiftcode = 256" "length togglecode = 256" "length (charcode m) = 256"
  by (simp_all add: shiftcode_def togglecode_def charcode_def normalmap_def shiftmap_def ctlmap_def keys_def)

text \<open>Every index the state machine uses is inside the tables.\<close>

lemma scan_index:
  fixes d :: byte
  shows "unat (ucast d :: uint) < 256" and "unat ((ucast d :: uint) AND 0x7F) < 256" and "unat ((ucast d :: uint) OR 0x80) < 256"
proof -
  have m: "w AND 0xFF = w \<Longrightarrow> unat w < 256" for w :: uint
  proof -
    assume "w AND 0xFF = w"
    moreover have "unat (w AND 0xFF) = unat w mod 256"
    proof -
      have "w AND 0xFF = take_bit 8 w" by (simp add: take_bit_eq_mask mask_eq_exp_minus_1)
      then show ?thesis by (simp only: unsigned_take_bit_eq) (simp add: take_bit_eq_mod)
    qed
    ultimately show "unat w < 256" by (metis mod_less_divisor zero_less_numeral)
  qed
  have f: "(0xFF :: uint) = mask 8" by (simp add: mask_eq_exp_minus_1)
  have a: "(ucast d :: uint) AND 0xFF = ucast d"
    unfolding f by (rule bit_word_eqI) (auto simp: bit_simps dest: bit_imp_le_length)
  show "unat (ucast d :: uint) < 256" using a by (rule m)
  show "unat ((ucast d :: uint) AND 0x7F) < 256" by (rule m) (simp add: and.assoc)
  show "unat ((ucast d :: uint) OR 0x80) < 256" by (rule m) (simp add: bit.conj_disj_distrib2 a)
qed

text \<open>The three tables agree: where the plain table has a letter, the shift table has its capital and the control table its control
  character; the cursor keys are the same in all of them.\<close>

lemma tables_agree:
  "list_all2 (\<lambda>n c. 97 \<le> n \<and> n \<le> 122 \<longrightarrow> c = n - 32) normalmap shiftmap"
  "list_all2 (\<lambda>n c. 97 \<le> n \<and> n \<le> 122 \<longrightarrow> c = n - 96) normalmap ctlmap"
  "list_all2 (\<lambda>n c. 0xE0 \<le> n \<longrightarrow> c = n) normalmap shiftmap" "list_all2 (\<lambda>n c. 0xE0 \<le> n \<longrightarrow> c = n) normalmap ctlmap"
  by code_simp+

end
