(* ===== verification/Sysfile.thy ===== *)
theory Sysfile
  imports Exec Sysproc
begin

text \<open>
  The system calls on files (\<^verbatim>\<open>sysfile.c\<close>) and the dispatch of system calls (\<^verbatim>\<open>syscall\<close>). Every
  handler is the composition the source writes, with its early returns and its \<^verbatim>\<open>bad\<close> labels. Buffers in
  user memory are read and written through the current page table.
\<close>

section \<open>File descriptors\<close>

definition argfd :: "nat \<Rightarrow> 'a proc_st_scheme \<Rightarrow> ((nat \<times> nat) option, 'a proc_st_scheme) outcome" where
  "argfd n s =
     with_proc s (\<lambda>i.
     call (argint n s) (\<lambda>a s.
     case a of
       None \<Rightarrow> Ok None s
     | Some a \<Rightarrow>
         let fd = sint a in
         if fd < 0 \<or> fd \<ge> int NOFILE then Ok None s
         else case ofile (getproc s i) ! nat fd of
           None \<Rightarrow> Ok None s
         | Some f \<Rightarrow> Ok (Some (nat fd, f)) s))"

definition set_ofile :: "nat \<Rightarrow> nat \<Rightarrow> nat option \<Rightarrow> 'a sched_scheme \<Rightarrow> 'a sched_scheme" where
  "set_ofile i fd f s = setproc i ((getproc s i)\<lparr>ofile := (ofile (getproc s i))[fd := f]\<rparr>) s"

definition fdalloc :: "nat \<Rightarrow> 'a proc_st_scheme \<Rightarrow> (nat option, 'a proc_st_scheme) outcome" where
  "fdalloc f s =
     with_proc s (\<lambda>i.
     case List.find (\<lambda>fd. ofile (getproc s i) ! fd = None) [0..<NOFILE] of
       Some fd \<Rightarrow> Ok (Some fd) (set_ofile i fd (Some f) s)
     | None \<Rightarrow> Ok None s)"

definition sys_dup :: "'a proc_st_scheme \<Rightarrow> (int, 'a proc_st_scheme) outcome" where
  "sys_dup s =
     arg (argfd 0 s) (- 1) (\<lambda>(_, f) s.
     arg (fdalloc f s) (- 1) (\<lambda>fd s.
     call (filedup f s) (\<lambda>_ s. Ok (int fd) s)))"

definition sys_read :: "'a proc_st_scheme \<Rightarrow> (int, 'a proc_st_scheme) outcome" where
  "sys_read s =
     arg (argfd 0 s) (- 1) (\<lambda>(_, f) s.
     arg (argint 2 s) (- 1) (\<lambda>n s.
     arg (argptr 1 (sint n) s) (- 1) (\<lambda>p s.
     call (fileread f (sint n) s) (\<lambda>(r, bs) s.
     call (put_user_bytes p bs s) (\<lambda>_ s. Ok r s)))))"

definition sys_write :: "'a proc_st_scheme \<Rightarrow> (int, 'a proc_st_scheme) outcome" where
  "sys_write s =
     arg (argfd 0 s) (- 1) (\<lambda>(_, f) s.
     arg (argint 2 s) (- 1) (\<lambda>n s.
     arg (argptr 1 (sint n) s) (- 1) (\<lambda>p s.
     call (get_user p (nat (sint n)) s) (\<lambda>bs s.
     filewrite f bs (sint n) s))))"

definition sys_close :: "'a proc_st_scheme \<Rightarrow> (int, 'a proc_st_scheme) outcome" where
  "sys_close s =
     with_proc s (\<lambda>i.
     arg (argfd 0 s) (- 1) (\<lambda>(fd, f) s.
     call (fileclose f (set_ofile i fd None s)) (\<lambda>_ s. Ok 0 s)))"

text \<open>\<^verbatim>\<open>struct stat\<close> in user memory: its fields at the offsets 0, 4, 8, 12 and 16 of 20 bytes.\<close>

definition put_stat :: "uint \<Rightarrow> stat \<Rightarrow> 'a sched_scheme \<Rightarrow> (unit, 'a sched_scheme) outcome" where
  "put_stat p st s =
     call (put_user_bytes p [ucast (st_type st), ucast (drop_bit 8 (st_type st))] s) (\<lambda>_ s.
     call (put_user_bytes (p + 4) (word_bytes (st_dev st) @ word_bytes (st_ino st) @
             [ucast (st_nlink st), ucast (drop_bit 8 (st_nlink st))]) s) (\<lambda>_ s.
     put_user_bytes (p + 16) (word_bytes (st_size st)) s))"

definition sys_fstat :: "'a proc_st_scheme \<Rightarrow> (int, 'a proc_st_scheme) outcome" where
  "sys_fstat s =
     arg (argfd 0 s) (- 1) (\<lambda>(_, f) s.
     arg (argptr 1 20 s) (- 1) (\<lambda>p s.
     call (filestat f s) (\<lambda>st s.
     case st of
       None \<Rightarrow> Ok (- 1) s
     | Some st \<Rightarrow> call (put_stat p st s) (\<lambda>_ s. Ok 0 s))))"

section \<open>Links\<close>

definition add_nlink :: "nat \<Rightarrow> ushort \<Rightarrow> 'a inode_st_scheme \<Rightarrow> 'a inode_st_scheme" where
  "add_nlink ip d s = seti ip ((geti s ip)\<lparr>inlink := inlink (geti s ip) + d\<rparr>) s"

text \<open>The label \<^verbatim>\<open>bad\<close> of \<^verbatim>\<open>sys_link\<close>: the link count goes back.\<close>

definition link_bad :: "nat \<Rightarrow> 'a proc_st_scheme \<Rightarrow> (int, 'a proc_st_scheme) outcome" where
  "link_bad ip s =
     call (ilock ip s) (\<lambda>_ s.
     call (iupdate ip (add_nlink ip (- 1) s)) (\<lambda>_ s.
     call (iunlockput ip s) (\<lambda>_ s.
     call (commit_trans s) (\<lambda>_ s. Ok (- 1) s))))"

definition sys_link :: "'a proc_st_scheme \<Rightarrow> (int, 'a proc_st_scheme) outcome" where
  "sys_link s =
     arg (argstr 0 s) (- 1) (\<lambda>old s.
     arg (argstr 1 s) (- 1) (\<lambda>new s.
     arg (namei old s) (- 1) (\<lambda>ip s.
     call (begin_trans s) (\<lambda>_ s.
     call (ilock ip s) (\<lambda>_ s.
     if itype (geti s ip) = T_DIR then
       call (iunlockput ip s) (\<lambda>_ s. call (commit_trans s) (\<lambda>_ s. Ok (- 1) s))
     else
       call (iupdate ip (add_nlink ip 1 s)) (\<lambda>_ s.
       call (iunlock ip s) (\<lambda>_ s.
       call (nameiparent new s) (\<lambda>(dpo, name) s.
       case dpo of
         None \<Rightarrow> link_bad ip s
       | Some dp \<Rightarrow>
           call (ilock dp s) (\<lambda>_ s.
           call (if idev (geti s dp) \<noteq> idev (geti s ip) then Ok (- 1) s
                 else dirlink dp name (inum (geti s ip)) s) (\<lambda>r s.
           call (iunlockput dp s) (\<lambda>_ s.
           if r < 0 then link_bad ip s
           else
             call (iput ip s) (\<lambda>_ s.
             call (commit_trans s) (\<lambda>_ s. Ok 0 s)))))))))))))"

function isdirempty_from :: "nat \<Rightarrow> nat \<Rightarrow> 'a cons_st_scheme \<Rightarrow> (bool, 'a cons_st_scheme) outcome" where
  "isdirempty_from dp off s =
     (if off < unat (isize (geti s dp)) then
        call (readi dp (of_nat off) (of_nat DIRENT) s) (\<lambda>(r, de) s.
        if r \<noteq> int DIRENT then Panic ''isdirempty: readi''
        else if de_inum de \<noteq> 0 then Ok False s
        else isdirempty_from dp (off + DIRENT) s)
      else Ok True s)"
  by pat_completeness auto
termination
proof (relation "measure (\<lambda>(dp, off, s). 2 ^ 32 - off)")
  show "((dp, off + DIRENT, t), dp, off, s) \<in> measure (\<lambda>(dp, off, s). 2 ^ 32 - off)"
    if "off < unat (isize (geti s dp))" for dp off and s t :: "'a cons_st_scheme"
    using that unat_uint_less [of "isize (geti s dp)"] by (simp add: DIRENT_def)
qed simp

declare isdirempty_from.simps [simp del]

definition isdirempty :: "nat \<Rightarrow> 'a cons_st_scheme \<Rightarrow> (bool, 'a cons_st_scheme) outcome" where
  "isdirempty dp s = isdirempty_from dp (2 * DIRENT) s"

definition unlink_bad :: "nat \<Rightarrow> 'a proc_st_scheme \<Rightarrow> (int, 'a proc_st_scheme) outcome" where
  "unlink_bad dp s = call (iunlockput dp s) (\<lambda>_ s. call (commit_trans s) (\<lambda>_ s. Ok (- 1) s))"

text \<open>The end of \<^verbatim>\<open>sys_unlink\<close>, when the entry at \<open>off\<close> of \<open>dp\<close> may go.\<close>

definition unlink_entry :: "nat \<Rightarrow> nat \<Rightarrow> nat \<Rightarrow> 'a proc_st_scheme \<Rightarrow> (int, 'a proc_st_scheme) outcome" where
  "unlink_entry dp ip off s =
     call (writei dp (replicate DIRENT 0) (of_nat off) (of_nat DIRENT) s) (\<lambda>r s.
     if r \<noteq> int DIRENT then Panic ''unlink: writei''
     else
       call (if itype (geti s ip) = T_DIR then iupdate dp (add_nlink dp (- 1) s) else Ok () s) (\<lambda>_ s.
       call (iunlockput dp s) (\<lambda>_ s.
       call (iupdate ip (add_nlink ip (- 1) s)) (\<lambda>_ s.
       call (iunlockput ip s) (\<lambda>_ s.
       call (commit_trans s) (\<lambda>_ s. Ok 0 s))))))"

definition sys_unlink :: "'a proc_st_scheme \<Rightarrow> (int, 'a proc_st_scheme) outcome" where
  "sys_unlink s =
     arg (argstr 0 s) (- 1) (\<lambda>path s.
     call (nameiparent path s) (\<lambda>(dpo, name) s.
     case dpo of
       None \<Rightarrow> Ok (- 1) s
     | Some dp \<Rightarrow>
         call (begin_trans s) (\<lambda>_ s.
         call (ilock dp s) (\<lambda>_ s.
         if namecmp name (str ''.'') = 0 \<or> namecmp name (str ''..'') = 0 then unlink_bad dp s
         else
           call (dirlookup dp name s) (\<lambda>r s.
           case r of
             None \<Rightarrow> unlink_bad dp s
           | Some (ip, off) \<Rightarrow>
               call (ilock ip s) (\<lambda>_ s.
               if sint (inlink (geti s ip)) < 1 then Panic ''unlink: nlink < 1''
               else
                 call (if itype (geti s ip) = T_DIR then isdirempty ip s else Ok True s) (\<lambda>empty s.
                 if \<not> empty then call (iunlockput ip s) (\<lambda>_ s. unlink_bad dp s)
                 else unlink_entry dp ip off s)))))))"

section \<open>Creation\<close>

definition create_dots :: "nat \<Rightarrow> nat \<Rightarrow> 'a cons_st_scheme \<Rightarrow> (unit, 'a cons_st_scheme) outcome" where
  "create_dots dp ip s =
     call (iupdate dp (add_nlink dp 1 s)) (\<lambda>_ s.
     call (dirlink ip (str ''.'') (inum (geti s ip)) s) (\<lambda>r s.
     if r < 0 then Panic ''create dots''
     else
       call (dirlink ip (str ''..'') (inum (geti s dp)) s) (\<lambda>r s.
       if r < 0 then Panic ''create dots'' else Ok () s)))"

definition create :: "byte list \<Rightarrow> ushort \<Rightarrow> ushort \<Rightarrow> ushort \<Rightarrow> 'a cons_st_scheme \<Rightarrow> (nat option, 'a cons_st_scheme) outcome" where
  "create path ty major minor s =
     call (nameiparent path s) (\<lambda>(dpo, name) s.
     case dpo of
       None \<Rightarrow> Ok None s
     | Some dp \<Rightarrow>
         call (ilock dp s) (\<lambda>_ s.
         call (dirlookup dp name s) (\<lambda>r s.
         case r of
           Some (ip, off) \<Rightarrow>
             call (iunlockput dp s) (\<lambda>_ s.
             call (ilock ip s) (\<lambda>_ s.
             if ty = T_FILE \<and> itype (geti s ip) = T_FILE then Ok (Some ip) s
             else call (iunlockput ip s) (\<lambda>_ s. Ok None s)))
         | None \<Rightarrow>
             call (ialloc (idev (geti s dp)) ty s) (\<lambda>ip s.
             call (ilock ip s) (\<lambda>_ s.
             call (iupdate ip (seti ip ((geti s ip)\<lparr>imajor := major, iminor := minor, inlink := 1\<rparr>) s)) (\<lambda>_ s.
             call (if ty = T_DIR then create_dots dp ip s else Ok () s) (\<lambda>_ s.
             call (dirlink dp name (inum (geti s ip)) s) (\<lambda>r s.
             if r < 0 then Panic ''create: dirlink''
             else call (iunlockput dp s) (\<lambda>_ s. Ok (Some ip) s)))))))))"

text \<open>The first half of \<^verbatim>\<open>sys_open\<close>: the inode, locked.\<close>

definition open_inode :: "byte list \<Rightarrow> uint \<Rightarrow> 'a cons_st_scheme \<Rightarrow> (nat option, 'a cons_st_scheme) outcome" where
  "open_inode path omode s =
     (if omode AND O_CREATE \<noteq> 0 then
        call (begin_trans s) (\<lambda>_ s.
        call (create path T_FILE 0 0 s) (\<lambda>ip s.
        call (commit_trans s) (\<lambda>_ s. Ok ip s)))
      else
        call (namei path s) (\<lambda>ipo s.
        case ipo of
          None \<Rightarrow> Ok None s
        | Some ip \<Rightarrow>
            call (ilock ip s) (\<lambda>_ s.
            if itype (geti s ip) = T_DIR \<and> omode \<noteq> O_RDONLY then call (iunlockput ip s) (\<lambda>_ s. Ok None s)
            else Ok (Some ip) s)))"

definition sys_open :: "'a proc_st_scheme \<Rightarrow> (int, 'a proc_st_scheme) outcome" where
  "sys_open s =
     arg (argstr 0 s) (- 1) (\<lambda>path s.
     arg (argint 1 s) (- 1) (\<lambda>omode s.
     arg (open_inode path omode s) (- 1) (\<lambda>ip s.
     call (filealloc s) (\<lambda>fo s.
     case fo of
       None \<Rightarrow> call (iunlockput ip s) (\<lambda>_ s. Ok (- 1) s)
     | Some f \<Rightarrow>
         call (fdalloc f s) (\<lambda>fdo s.
         case fdo of
           None \<Rightarrow> call (fileclose f s) (\<lambda>_ s. call (iunlockput ip s) (\<lambda>_ s. Ok (- 1) s))
         | Some fd \<Rightarrow>
             call (iunlock ip s) (\<lambda>_ s.
             Ok (int fd)
               (setf f ((getf s f)\<lparr>ftype := FD_INODE, fip := ip, foff := 0,
                  freadable := (omode AND O_WRONLY = 0),
                  fwritable := (omode AND O_WRONLY \<noteq> 0 \<or> omode AND O_RDWR \<noteq> 0)\<rparr>) s)))))))"

text \<open>The common end of \<^verbatim>\<open>sys_mkdir\<close> and \<^verbatim>\<open>sys_mknod\<close>.\<close>

definition created :: "(nat option, 'a proc_st_scheme) outcome \<Rightarrow> (int, 'a proc_st_scheme) outcome" where
  "created m =
     call m (\<lambda>ipo s.
     case ipo of
       None \<Rightarrow> call (commit_trans s) (\<lambda>_ s. Ok (- 1) s)
     | Some ip \<Rightarrow> call (iunlockput ip s) (\<lambda>_ s. call (commit_trans s) (\<lambda>_ s. Ok 0 s)))"

definition sys_mkdir :: "'a proc_st_scheme \<Rightarrow> (int, 'a proc_st_scheme) outcome" where
  "sys_mkdir s =
     call (begin_trans s) (\<lambda>_ s.
     created
       (call (argstr 0 s) (\<lambda>path s.
        case path of None \<Rightarrow> Ok None s | Some path \<Rightarrow> create path T_DIR 0 0 s)))"

definition sys_mknod :: "'a proc_st_scheme \<Rightarrow> (int, 'a proc_st_scheme) outcome" where
  "sys_mknod s =
     call (begin_trans s) (\<lambda>_ s.
     created
       (call (argstr 0 s) (\<lambda>path s.
        case path of
          None \<Rightarrow> Ok None s
        | Some path \<Rightarrow>
            call (argint 1 s) (\<lambda>major s.
            case major of
              None \<Rightarrow> Ok None s
            | Some major \<Rightarrow>
                call (argint 2 s) (\<lambda>minor s.
                case minor of
                  None \<Rightarrow> Ok None s
                | Some minor \<Rightarrow> create path T_DEV (ucast major) (ucast minor) s)))))"

section \<open>Directories, programs and pipes\<close>

definition sys_chdir :: "'a proc_st_scheme \<Rightarrow> (int, 'a proc_st_scheme) outcome" where
  "sys_chdir s =
     with_proc s (\<lambda>i.
     arg (argstr 0 s) (- 1) (\<lambda>path s.
     arg (namei path s) (- 1) (\<lambda>ip s.
     call (ilock ip s) (\<lambda>_ s.
     if itype (geti s ip) \<noteq> T_DIR then call (iunlockput ip s) (\<lambda>_ s. Ok (- 1) s)
     else
       call (iunlock ip s) (\<lambda>_ s.
       case cwd (getproc s i) of
         None \<Rightarrow> Fault ''iput''
       | Some dp \<Rightarrow>
           call (iput dp s) (\<lambda>_ s.
           Ok 0 (setproc i ((getproc s i)\<lparr>cwd := Some ip\<rparr>) s)))))))"

text \<open>The loop of \<^verbatim>\<open>sys_exec\<close> with \<open>r\<close> entries of \<^verbatim>\<open>argv\<close> left.\<close>

fun fetch_argv :: "nat \<Rightarrow> uint \<Rightarrow> 'a proc_st_scheme \<Rightarrow> (byte list list option, 'a proc_st_scheme) outcome" where
  "fetch_argv 0 a s = Ok None s"
| "fetch_argv (Suc r) a s =
     call (fetchint a s) (\<lambda>u s.
     case u of
       None \<Rightarrow> Ok None s
     | Some u \<Rightarrow>
         if u = 0 then Ok (Some []) s
         else
           call (fetchstr u s) (\<lambda>t s.
           case t of
             None \<Rightarrow> Ok None s
           | Some t \<Rightarrow> call (fetch_argv r (a + 4) s) (\<lambda>ts s. Ok (map_option ((#) t) ts) s)))"

definition sys_exec :: "'a proc_st_scheme \<Rightarrow> (int, 'a proc_st_scheme) outcome" where
  "sys_exec s =
     arg (argstr 0 s) (- 1) (\<lambda>path s.
     arg (argint 1 s) (- 1) (\<lambda>uargv s.
     arg (fetch_argv MAXARG uargv s) (- 1) (\<lambda>argv s.
     exec path argv s)))"

text \<open>The end of \<^verbatim>\<open>sys_pipe\<close> when a descriptor is missing.\<close>

definition pipe_bad :: "nat \<Rightarrow> nat \<Rightarrow> 'a proc_st_scheme \<Rightarrow> (int, 'a proc_st_scheme) outcome" where
  "pipe_bad rfile wfile s = call (fileclose rfile s) (\<lambda>_ s. call (fileclose wfile s) (\<lambda>_ s. Ok (- 1) s))"

definition sys_pipe :: "'a proc_st_scheme \<Rightarrow> (int, 'a proc_st_scheme) outcome" where
  "sys_pipe s =
     with_proc s (\<lambda>i.
     arg (argptr 0 8 s) (- 1) (\<lambda>fd s.
     arg (pipealloc s) (- 1) (\<lambda>(rfile, wfile) s.
     call (fdalloc rfile s) (\<lambda>fd0 s.
     case fd0 of
       None \<Rightarrow> pipe_bad rfile wfile s
     | Some fd0 \<Rightarrow>
         call (fdalloc wfile s) (\<lambda>fd1 s.
         case fd1 of
           None \<Rightarrow> pipe_bad rfile wfile (set_ofile i fd0 None s)
         | Some fd1 \<Rightarrow>
             call (put_user_bytes fd (word_bytes (of_nat fd0)) s) (\<lambda>_ s.
             call (put_user_bytes (fd + 4) (word_bytes (of_nat fd1)) s) (\<lambda>_ s.
             Ok 0 s)))))))"

section \<open>The working directory\<close>

function iNodeName_from :: "uint \<Rightarrow> nat \<Rightarrow> nat \<Rightarrow> 'a cons_st_scheme \<Rightarrow> (byte list option, 'a cons_st_scheme) outcome" where
  "iNodeName_from i par off s =
     (if off < unat (isize (geti s par)) then
        call (readi par (of_nat off) (of_nat DIRENT) s) (\<lambda>(r, de) s.
        if r \<noteq> int DIRENT then Panic ''couldnt read directory entry''
        else if ucast (de_inum de) = i then
          Ok (Some (safestrcpy (replicate DIRSIZ 0) (lptr (de_name de)) (int DIRSIZ))) s
        else iNodeName_from i par (off + DIRENT) s)
      else Ok None s)"
  by pat_completeness auto
termination
proof (relation "measure (\<lambda>(i, par, off, s). 2 ^ 32 - off)")
  show "((i, par, off + DIRENT, t), i, par, off, s) \<in> measure (\<lambda>(i, par, off, s). 2 ^ 32 - off)"
    if "off < unat (isize (geti s par))" for i par off and s t :: "'a cons_st_scheme"
    using that unat_uint_less [of "isize (geti s par)"] by (simp add: DIRENT_def)
qed simp

declare iNodeName_from.simps [simp del]

definition iNodeName :: "nat \<Rightarrow> nat \<Rightarrow> 'a cons_st_scheme \<Rightarrow> (byte list option, 'a cons_st_scheme) outcome" where
  "iNodeName ip par s = iNodeName_from (inum (geti s ip)) par 0 s"

text \<open>The bytes \<^verbatim>\<open>safestrcpy\<close> stores at its destination, for a source of the bytes \<open>t\<close> and a terminator.\<close>

definition safestrcpy_bytes :: "byte list \<Rightarrow> int \<Rightarrow> byte list" where
  "safestrcpy_bytes t n =
     (if n \<le> 0 then []
      else if length t < nat (n - 1) then t @ [0, 0] else take (nat (n - 1)) t @ [0])"

text \<open>
  \<^verbatim>\<open>namediNode\<close> calls itself once for every directory between \<open>ip\<close> and the root. The kernel stack of one page
  bounds the depth of the recursion; \<open>depth\<close> counts the frames that are left.
\<close>

fun namediNode :: "nat \<Rightarrow> uint \<Rightarrow> int \<Rightarrow> nat \<Rightarrow> 'a proc_st_scheme \<Rightarrow> (int, 'a proc_st_scheme) outcome" where
  "namediNode 0 buf n ip s = Fault ''kernel stack''"
| "namediNode (Suc depth) buf n ip s =
     call (namei [slash] s) (\<lambda>root s.
     case root of
       None \<Rightarrow> Fault ''namei''
     | Some root \<Rightarrow>
         if inum (geti s ip) = inum (geti s root) then
           call (put_user_bytes buf [slash] s) (\<lambda>_ s. Ok 1 s)
         else if itype (geti s ip) = T_DIR then
           call (dirlookup ip (str ''..'') s) (\<lambda>r s.
           case r of
             None \<Rightarrow> Panic ''ilock''
           | Some (par, _) \<Rightarrow>
               call (ilock par s) (\<lambda>_ s.
               call (iNodeName ip par s) (\<lambda>nm s.
               case nm of
                 None \<Rightarrow> Panic ''could not find parent's inode name''
               | Some nm \<Rightarrow>
                   let t = takeWhile (\<lambda>c. c \<noteq> 0) nm in
                   call (namediNode depth buf n par s) (\<lambda>off_set s.
                   call (put_user_bytes (buf + of_int off_set) (safestrcpy_bytes t off_set) s) (\<lambda>_ s.
                   let off_set = off_set + int (length t) in
                   if off_set = n - 1 then
                     call (put_user_bytes (buf + of_int off_set) [0] s) (\<lambda>_ s. Ok n s)
                   else
                     call (put_user_bytes (buf + of_int off_set) [slash] s) (\<lambda>_ s.
                     call (iput par s) (\<lambda>_ s.
                     Ok (off_set + 1) s)))))))
         else if itype (geti s ip) = T_DEV \<or> itype (geti s ip) = T_FILE then Panic ''process cwd is a device node''
         else Panic ''unknown inode type'')"

definition kstack_frames :: nat where "kstack_frames = 128"

definition sys_getcwd :: "'a proc_st_scheme \<Rightarrow> (int, 'a proc_st_scheme) outcome" where
  "sys_getcwd s =
     with_proc s (\<lambda>i.
     arg (argint 1 s) 1 (\<lambda>n s.
     arg (argptr 0 (sint n) s) 1 (\<lambda>p s.
     case cwd (getproc s i) of
       None \<Rightarrow> Fault ''proc->cwd''
     | Some ip \<Rightarrow> namediNode kstack_frames p (sint n) ip s)))"

section \<open>Dispatch\<close>

text \<open>The table \<^verbatim>\<open>syscalls\<close> with the numbers of \<^verbatim>\<open>syscall.h\<close>. \<^verbatim>\<open>sys_exit\<close> does not return.\<close>

definition syscalls :: "nat \<Rightarrow> ('a proc_st_scheme \<Rightarrow> (int option, 'a proc_st_scheme) outcome) option" where
  "syscalls num =
     (let ret = (\<lambda>f s. call (f s) (\<lambda>r s. Ok (Some r) s)) in
      if num = 2 then Some (\<lambda>s. call (sys_exit s) (\<lambda>_ s. Ok None s))
      else map_option ret
        (map_of
           [(1, sys_fork), (3, sys_wait), (4, sys_pipe), (5, sys_read), (6, sys_kill), (7, sys_exec),
            (8, sys_fstat), (9, sys_chdir), (10, sys_dup), (11, sys_getpid), (12, sys_sbrk), (13, sys_sleep),
            (14, sys_uptime), (15, sys_open), (16, sys_write), (17, sys_mknod), (18, sys_unlink),
            (19, sys_link), (20, sys_mkdir), (21, sys_close), (22, sys_getcwd), (23, sys_ps),
            (24, sys_wait2), (25, sys_yield)] num))"

definition set_eax :: "nat \<Rightarrow> uint \<Rightarrow> 'a sched_scheme \<Rightarrow> 'a sched_scheme" where
  "set_eax i w s = setproc i ((getproc s i)\<lparr>tf := (tf (getproc s i))\<lparr>tf_eax := w\<rparr>\<rparr>) s"

definition syscall :: "'a proc_st_scheme \<Rightarrow> (unit, 'a proc_st_scheme) outcome" where
  "syscall s =
     with_proc s (\<lambda>i.
     let num = sint (tf_eax (tf (getproc s i))) in
     case (if num > 0 then syscalls (nat num) else None) of
       Some f \<Rightarrow>
         call (f s) (\<lambda>r s. Ok () (case r of Some v \<Rightarrow> set_eax i (of_int v) s | None \<Rightarrow> s))
     | None \<Rightarrow>
         call (cprintf (str ''%d %s: unknown sys call %d'' @ [10])
                [CfInt (pid (getproc s i)), CfStr (Some (takeWhile (\<lambda>c. c \<noteq> 0) (pname (getproc s i)))), CfInt (of_int num)] s) (\<lambda>_ s.
         Ok () (set_eax i (- 1) s)))"

end
