(* ===== verification/Trap.thy ===== *)
theory Trap
  imports Sysfile Kbd Proc_Life
begin

text \<open>
  \<^verbatim>\<open>trap.c\<close>: the dispatch of system calls, device interrupts and faults, with the interrupt routines of
  \<^verbatim>\<open>kbd.c\<close>, \<^verbatim>\<open>uart.c\<close> and the disk. The static variable \<^verbatim>\<open>shift\<close> of \<^verbatim>\<open>kbdgetc\<close> joins the state. What
  the hardware supplies at a trap is an argument: the trap frame, the number of the CPU, the error code, the
  faulting address and the bytes that wait at the ports of the keyboard and of the serial line.
  Acknowledging the interrupt (\<^verbatim>\<open>lapiceoi\<close>) has no effect on the state.
\<close>

section \<open>Constants and state\<close>

definition T_SYSCALL :: uint where "T_SYSCALL = 64"
definition T_IRQ0 :: uint where "T_IRQ0 = 32"
definition T_PGFLT :: uint where "T_PGFLT = 14"
definition IRQ_TIMER :: uint where "IRQ_TIMER = 0"
definition IRQ_KBD :: uint where "IRQ_KBD = 1"
definition IRQ_COM1 :: uint where "IRQ_COM1 = 4"
definition IRQ_IDE :: uint where "IRQ_IDE = 14"
definition IRQ_SPURIOUS :: uint where "IRQ_SPURIOUS = 31"

lemmas trap_consts = T_SYSCALL_def T_IRQ0_def IRQ_TIMER_def IRQ_KBD_def IRQ_COM1_def IRQ_IDE_def IRQ_SPURIOUS_def

record trap_st = proc_st +
  kbd_shift :: uint

record hardware =
  cpu_id :: uint
  tf_err :: uint
  cr2 :: uint
  kbd_port :: "byte list"
  com1_port :: "byte list"

section \<open>Interrupt routines\<close>

definition kbdintr :: "byte list \<Rightarrow> 'a trap_st_scheme \<Rightarrow> (unit, 'a trap_st_scheme) outcome" where
  "kbdintr port s = (let (cs, shift) = kbd_chars port (kbd_shift s) in consoleintr cs (s\<lparr>kbd_shift := shift\<rparr>))"

text \<open>The values of the successive calls of \<^verbatim>\<open>uartgetc\<close> in one interrupt.\<close>

definition uart_chars :: "byte list \<Rightarrow> 'a cons_st_scheme \<Rightarrow> int list" where
  "uart_chars port s = (if uart s then map (\<lambda>c. int (unat c)) port @ [- 1] else [- 1])"

definition uartintr :: "byte list \<Rightarrow> 'a cons_st_scheme \<Rightarrow> (unit, 'a cons_st_scheme) outcome" where
  "uartintr port s = consoleintr (uart_chars port s) s"

text \<open>The disk held in memory needs no interrupt.\<close>

definition ideintr :: "'a sched_scheme \<Rightarrow> (unit, 'a sched_scheme) outcome" where
  "ideintr s = Ok () s"

section \<open>trap\<close>

definition from_user :: "trapframe \<Rightarrow> bool" where
  "from_user f \<longleftrightarrow> tf_cs f AND 3 = DPL_USER"

text \<open>The test \<^verbatim>\<open>if(proc && proc->killed && (tf->cs&3) == DPL_USER) exit()\<close>. \<open>exit\<close> does not come back, and
  the state it leaves has no current process, so the tests after it do nothing on it.\<close>

definition trap_check :: "trapframe \<Rightarrow> 'a proc_st_scheme \<Rightarrow> (unit, 'a proc_st_scheme) outcome" where
  "trap_check f s =
     (case curproc s of
        None \<Rightarrow> Ok () s
      | Some i \<Rightarrow> if killed (getproc s i) \<and> from_user f then exit s else Ok () s)"

text \<open>\<^verbatim>\<open>yield\<close> on a clock tick. The state it leaves is that of the scheduler; when the process runs again it
  goes on with \<open>trap_check\<close>.\<close>

definition trap_yield :: "trapframe \<Rightarrow> 'a sched_scheme \<Rightarrow> (unit, 'a sched_scheme) outcome" where
  "trap_yield f s =
     (case curproc s of
        None \<Rightarrow> Ok () s
      | Some i \<Rightarrow> if state (getproc s i) = RUNNING \<and> tf_trapno f = T_IRQ0 + IRQ_TIMER then yield s else Ok () s)"

text \<open>The \<^verbatim>\<open>default\<close> branch of the switch.\<close>

definition trap_fault :: "hardware \<Rightarrow> trapframe \<Rightarrow> 'a proc_st_scheme \<Rightarrow> (unit, 'a proc_st_scheme) outcome" where
  "trap_fault hw f s =
     (case curproc s of
        Some i \<Rightarrow>
          if tf_cs f AND 3 = 0 then
            call (cprintf (str ''unexpected trap %d from cpu %d eip %x (cr2=0x%x)'' @ [10])
                   [CfInt (tf_trapno f), CfInt (cpu_id hw), CfInt (tf_eip f), CfInt (cr2 hw)] s) (\<lambda>_ s. Panic ''trap'')
          else
            call (cprintf (str ''pid %d %s: trap %d err %d on cpu %d eip 0x%x addr 0x%x--kill proc'' @ [10])
                   [CfInt (pid (getproc s i)), CfStr (Some (takeWhile (\<lambda>c. c \<noteq> 0) (pname (getproc s i)))),
                    CfInt (tf_trapno f), CfInt (tf_err hw), CfInt (cpu_id hw), CfInt (tf_eip f), CfInt (cr2 hw)] s) (\<lambda>_ s.
            Ok () (setproc i ((getproc s i)\<lparr>killed := True\<rparr>) s))
      | None \<Rightarrow>
          call (cprintf (str ''unexpected trap %d from cpu %d eip %x (cr2=0x%x)'' @ [10])
                 [CfInt (tf_trapno f), CfInt (cpu_id hw), CfInt (tf_eip f), CfInt (cr2 hw)] s) (\<lambda>_ s. Panic ''trap''))"

definition trap_device :: "hardware \<Rightarrow> trapframe \<Rightarrow> 'a trap_st_scheme \<Rightarrow> (unit, 'a trap_st_scheme) outcome" where
  "trap_device hw f s =
     (let n = tf_trapno f in
      if n = T_IRQ0 + IRQ_TIMER then Ok () (if cpu_id hw = 0 then timer_tick s else s)
      else if n = T_IRQ0 + IRQ_IDE then ideintr s
      else if n = T_IRQ0 + IRQ_IDE + 1 then Ok () s
      else if n = T_IRQ0 + IRQ_KBD then kbdintr (kbd_port hw) s
      else if n = T_IRQ0 + IRQ_COM1 then uartintr (com1_port hw) s
      else if n = T_IRQ0 + 7 \<or> n = T_IRQ0 + IRQ_SPURIOUS then
        cprintf (str ''cpu%d: spurious interrupt at %x:%x'' @ [10]) [CfInt (cpu_id hw), CfInt (tf_cs f), CfInt (tf_eip f)] s
      else trap_fault hw f s)"

definition trap_syscall :: "trapframe \<Rightarrow> 'a proc_st_scheme \<Rightarrow> (unit, 'a proc_st_scheme) outcome" where
  "trap_syscall f s =
     with_proc s (\<lambda>i.
     if killed (getproc s i) then exit s
     else
       call (syscall (setproc i ((getproc s i)\<lparr>tf := f\<rparr>) s)) (\<lambda>_ s.
       case curproc s of
         None \<Rightarrow> Ok () s
       | Some i \<Rightarrow> if killed (getproc s i) then exit s else Ok () s))"

definition trap :: "hardware \<Rightarrow> trapframe \<Rightarrow> 'a trap_st_scheme \<Rightarrow> (unit, 'a trap_st_scheme) outcome" where
  "trap hw f s =
     (if tf_trapno f = T_SYSCALL then trap_syscall f s
      else
        call (trap_device hw f s) (\<lambda>_ s.
        call (trap_check f s) (\<lambda>_ s.
        call (trap_yield f s) (\<lambda>_ s.
        trap_check f s))))"

section \<open>The console never stops a message\<close>

text \<open>The cursor is on the first 24 lines of a full screen. Printing keeps it there.\<close>

definition crt_ok :: "'a cons_st_scheme \<Rightarrow> bool" where
  "crt_ok s \<longleftrightarrow> crtpos s < 24 * 80 \<and> length (crt s) = 25 * 80"

lemma cga_scroll_ok:
  "pos \<le> 24 * 80 \<Longrightarrow> length m = 25 * 80 \<Longrightarrow> cga_scroll (pos, m) = (q, m') \<Longrightarrow> q < 24 * 80 \<and> length m' = 25 * 80"
  by (auto simp: cga_scroll_def fill_def split: if_splits)

lemma cga_move_ok:
  "pos < 24 * 80 \<Longrightarrow> length m = 25 * 80 \<Longrightarrow> cga_move c pos m = (q, m') \<Longrightarrow> q \<le> 24 * 80 \<and> length m' = 25 * 80"
proof -
  assume "pos < 24 * 80" "length m = 25 * 80" "cga_move c pos m = (q, m')"
  moreover from this have "pos div 80 < 24" by (simp add: less_mult_imp_div_less)
  then have "pos + (80 - pos mod 80) \<le> 24 * 80" using mult_div_mod_eq [of 80 pos] by linarith
  ultimately show ?thesis by (auto simp: cga_move_def split: if_splits)
qed

lemma cgaputc_ok: "crt_ok s \<Longrightarrow> \<exists>p m. cgaputc c s = Ok () (s\<lparr>crtpos := p, crt := m\<rparr>) \<and> p < 24 * 80 \<and> length m = 25 * 80"
proof -
  assume ok: "crt_ok s"
  obtain q m where mv: "cga_move c (crtpos s) (crt s) = (q, m)" by fastforce
  obtain p n where sc: "cga_scroll (q, m) = (p, n)" by fastforce
  have "p < 24 * 80 \<and> length n = 25 * 80"
    using cga_scroll_ok [OF _ _ sc] cga_move_ok [OF _ _ mv] ok by (auto simp: crt_ok_def)
  moreover from this have "cgaputc c s = Ok () (s\<lparr>crtpos := p, crt := n[p := 0x0720]\<rparr>)"
    using ok by (auto simp: cgaputc_def mv sc crt_ok_def)
  ultimately show ?thesis by (metis length_list_update)
qed

lemma consputc_ok:
  "crt_ok s \<Longrightarrow> \<exists>p m w. consputc c s = Ok () (s\<lparr>uartout := w, crtpos := p, crt := m\<rparr>) \<and> p < 24 * 80 \<and> length m = 25 * 80"
proof -
  assume ok: "crt_ok s"
  have g: "\<exists>p m. cgaputc c (s\<lparr>uartout := w\<rparr>) = Ok () (s\<lparr>uartout := w, crtpos := p, crt := m\<rparr>) \<and> p < 24 * 80 \<and> length m = 25 * 80" for w
    using cgaputc_ok [of "s\<lparr>uartout := w\<rparr>" c] ok by (simp add: crt_ok_def)
  have "\<exists>w. consputc c s = cgaputc c (s\<lparr>uartout := w\<rparr>)"
  proof (cases "uart s")
    case True
    then show ?thesis by (cases "c = BACKSPACE") (auto simp: consputc_def uartputc_def)
  next
    case False
    then have "consputc c s = cgaputc c (s\<lparr>uartout := uartout s\<rparr>)" by (simp add: consputc_def uartputc_def)
    then show ?thesis ..
  qed
  with g show ?thesis by metis
qed

lemma consputs_ok:
  "crt_ok s \<Longrightarrow> \<exists>p m w. consputs cs s = Ok () (s\<lparr>uartout := w, crtpos := p, crt := m\<rparr>)"
proof (induction cs arbitrary: s)
  case Nil
  have "s = s\<lparr>uartout := uartout s, crtpos := crtpos s, crt := crt s\<rparr>" by simp
  then show ?case by (metis consputs.simps(1))
next
  case (Cons c cs)
  obtain p m w where c: "consputc (unat c) s = Ok () (s\<lparr>uartout := w, crtpos := p, crt := m\<rparr>)" and "p < 24 * 80" "length m = 25 * 80"
    using consputc_ok [OF Cons.prems] by blast
  then have "crt_ok (s\<lparr>uartout := w, crtpos := p, crt := m\<rparr>)" by (simp add: crt_ok_def)
  from Cons.IH [OF this] show ?case by (auto simp: c)
qed

section \<open>Faults\<close>

text \<open>The trap numbers that no case of the switch names.\<close>

definition is_fault :: "uint \<Rightarrow> bool" where
  "is_fault n \<longleftrightarrow> n \<notin> {T_SYSCALL, T_IRQ0 + IRQ_TIMER, T_IRQ0 + IRQ_IDE, T_IRQ0 + IRQ_IDE + 1, T_IRQ0 + IRQ_KBD, T_IRQ0 + IRQ_COM1,
     T_IRQ0 + 7, T_IRQ0 + IRQ_SPURIOUS}"

lemma trap_is_fault:
  "is_fault (tf_trapno f) \<Longrightarrow> trap hw f s =
     call (trap_fault hw f s) (\<lambda>_ s. call (trap_check f s) (\<lambda>_ s. call (trap_yield f s) (\<lambda>_ s. trap_check f s)))"
  by (simp add: is_fault_def trap_def trap_device_def Let_def)

lemma exit_no_proc: "exit s = Ok () t \<Longrightarrow> curproc t = None"
  by (auto simp: exit_def with_proc_def sched_switch_def Let_def split: option.splits if_splits elim!: call_OkE)

lemma exit_zombie:
  assumes "exit s = Ok () t" and "curproc s = Some i" and "i < NPROC" and "length (ptable s) = NPROC"
    and "state (getproc s i) = RUNNING" and "length (ofile (getproc s i)) = NOFILE"
  shows "state (getproc t i) = ZOMBIE"
proof -
  from exit_releases [OF assms] obtain s3 where ini: "initproc s \<noteq> Some i" and kb: "kept_but i s s3"
    and sw: "sched_switch (let s = pass_children [0..<NPROC] i (s3\<lparr>ptable := wakeup1_ptr (parent (getproc s i)) (ptable s3)\<rparr>)
                       in setproc i ((getproc s i)\<lparr>state := ZOMBIE\<rparr>) s) = Ok () t" by blast
  define s4 where "s4 = s3\<lparr>ptable := wakeup1_ptr (parent (getproc s i)) (ptable s3)\<rparr>"
  have "length (ptable (pass_children [0..<NPROC] i s4)) = NPROC"
    using pass_children_entry [of s4 i "[0..<NPROC]"] ini kb assms(4) by (simp add: s4_def kept_but_def)
  then show ?thesis
    using sw [folded s4_def] assms(3)
    by (auto simp: Let_def sched_switch_def setproc_def getproc_def split: option.splits if_splits)
qed

lemma trap_checks_idle: "curproc t = None \<Longrightarrow> call (trap_yield f t) (\<lambda>_ s. trap_check f s) = Ok () t"
  by (simp add: trap_yield_def trap_check_def)

lemma fault_message:
  "\<exists>out. cprintf_out (str ''pid %d %s: trap %d err %d on cpu %d eip 0x%x addr 0x%x--kill proc'' @ [10])
     [CfInt a, CfStr (Some b), CfInt c, CfInt d, CfInt e, CfInt f, CfInt g] = Some out"
  "\<exists>out. cprintf_out (str ''unexpected trap %d from cpu %d eip %x (cr2=0x%x)'' @ [10]) [CfInt c, CfInt d, CfInt e, CfInt f] = Some out"
  by (simp_all add: str_def)

lemma trap_user_fault:
  assumes "is_fault (tf_trapno f)" and "from_user f" and "curproc s = Some i" and "crt_ok s" and "i < length (ptable s)"
  shows "\<exists>p m w. trap hw f s = exit (setproc i ((getproc s i)\<lparr>killed := True\<rparr>) (s\<lparr>uartout := w, crtpos := p, crt := m\<rparr>))"
proof -
  have k: "tf_cs f AND 3 \<noteq> 0" using assms(2) by (simp add: from_user_def DPL_USER_def)
  obtain p m w where f: "trap_fault hw f s = Ok () (setproc i ((getproc s i)\<lparr>killed := True\<rparr>) (s\<lparr>uartout := w, crtpos := p, crt := m\<rparr>))"
  proof -
    obtain out where o: "cprintf_out (str ''pid %d %s: trap %d err %d on cpu %d eip 0x%x addr 0x%x--kill proc'' @ [10])
      [CfInt (pid (getproc s i)), CfStr (Some (takeWhile (\<lambda>c. c \<noteq> 0) (pname (getproc s i)))),
       CfInt (tf_trapno f), CfInt (tf_err hw), CfInt (cpu_id hw), CfInt (tf_eip f), CfInt (cr2 hw)] = Some out"
      using fault_message(1) by blast
    obtain p m w where c: "consputs out s = Ok () (s\<lparr>uartout := w, crtpos := p, crt := m\<rparr>)" using consputs_ok [OF assms(4)] by blast
    show thesis by (rule that [where p = p and m = m and w = w]) (simp only: trap_fault_def assms(3) option.case k if_False cprintf_def o c call.simps, simp add: getproc_def)
  qed
  define u where "u = setproc i ((getproc s i)\<lparr>killed := True\<rparr>) (s\<lparr>uartout := w, crtpos := p, crt := m\<rparr>)"
  have u: "curproc u = Some i" "killed (getproc u i)" using assms(3,5) by (simp_all add: u_def setproc_def getproc_def)
  have c: "trap_check f u = exit u" using u assms(2) by (simp add: trap_check_def)
  have "trap hw f s = exit u"
    unfolding trap_is_fault [OF assms(1)] f u_def [symmetric] call.simps c
    by (cases "exit u") (auto simp: trap_checks_idle dest: exit_no_proc)
  then show ?thesis unfolding u_def by blast
qed

lemma trap_kernel_fault:
  assumes "is_fault (tf_trapno f)" and "crt_ok s" and "curproc s = None \<or> tf_cs f AND 3 = 0"
  shows "trap hw f s = Panic ''trap''"
proof -
  obtain out where o: "cprintf_out (str ''unexpected trap %d from cpu %d eip %x (cr2=0x%x)'' @ [10])
      [CfInt (tf_trapno f), CfInt (cpu_id hw), CfInt (tf_eip f), CfInt (cr2 hw)] = Some out"
    using fault_message(2) by blast
  obtain u where "consputs out s = Ok () u" using consputs_ok [OF assms(2)] by blast
  then have "trap_fault hw f s = Panic ''trap''"
    using assms(3) by (cases "curproc s") (simp_all only: trap_fault_def option.case if_True cprintf_def o call.simps not_None_eq simp_thms option.distinct)
  then show ?thesis by (simp add: trap_is_fault [OF assms(1)])
qed

text \<open>C17. A fault is contained. A processor exception taken in user mode ends the process that caused it and nothing else:
  the message is printed, the process is marked killed and goes straight into \<^verbatim>\<open>exit\<close>, so when \<^verbatim>\<open>trap\<close> is done the process
  is a zombie and the CPU is back in the scheduler; with its files closed and another reference to its directory,
  that point is reached. Only a fault of \<^verbatim>\<open>init\<close> stops the system. A fault in the kernel, or with no process, always panics.\<close>

theorem user_fault_kills:
  assumes "is_fault (tf_trapno f)" and "crt_ok s" and "length (ptable s) = NPROC"
  shows "(curproc s = None \<or> tf_cs f AND 3 = 0 \<longrightarrow> trap hw f s = Panic ''trap'') \<and>
    (\<forall>i < NPROC. curproc s = Some i \<longrightarrow> from_user f \<longrightarrow> state (getproc s i) = RUNNING \<longrightarrow> length (ofile (getproc s i)) = NOFILE \<longrightarrow>
       (initproc s = Some i \<longrightarrow> trap hw f s = Panic ''init exiting'') \<and>
       (\<forall>t. trap hw f s = Ok () t \<longrightarrow> curproc t = None \<and> state (getproc t i) = ZOMBIE) \<and>
       (initproc s \<noteq> Some i \<longrightarrow> (\<forall>fd < NOFILE. ofile (getproc s i) ! fd = None) \<longrightarrow> (\<exists>dp. cwd (getproc s i) = Some dp \<and> iref (geti s dp) \<noteq> 1) \<longrightarrow>
         (\<exists>t. trap hw f s = Ok () t)))"
proof (intro conjI allI impI)
  assume "curproc s = None \<or> tf_cs f AND 3 = 0"
  then show "trap hw f s = Panic ''trap''" by (rule trap_kernel_fault [OF assms(1,2)])
next
  fix i assume i: "i < NPROC" "curproc s = Some i" "from_user f" "state (getproc s i) = RUNNING" "length (ofile (getproc s i)) = NOFILE"
  obtain p m w where tr: "trap hw f s = exit (setproc i ((getproc s i)\<lparr>killed := True\<rparr>) (s\<lparr>uartout := w, crtpos := p, crt := m\<rparr>))"
    using trap_user_fault [OF assms(1) i(3,2) assms(2)] i(1) assms(3) by metis
  define u where "u = setproc i ((getproc s i)\<lparr>killed := True\<rparr>) (s\<lparr>uartout := w, crtpos := p, crt := m\<rparr>)"
  have u: "curproc u = Some i" "initproc u = initproc s" "length (ptable u) = NPROC" "getproc u i = (getproc s i)\<lparr>killed := True\<rparr>"
    "\<And>dp. geti u dp = geti s dp"
    using i assms(3) by (simp_all add: u_def setproc_def getproc_def geti_def)
  note tr = tr [folded u_def]
  show "trap hw f s = Panic ''init exiting''" if "initproc s = Some i" using tr u that by (simp add: exit_def with_proc_def)
  fix t
  show "curproc t = None" if "trap hw f s = Ok () t" using exit_no_proc that tr by metis
  show "state (getproc t i) = ZOMBIE" if "trap hw f s = Ok () t"
    using exit_zombie [of u t i] that tr u i by simp
  show "\<exists>t. trap hw f s = Ok () t"
    if "initproc s \<noteq> Some i" "\<forall>fd < NOFILE. ofile (getproc s i) ! fd = None" "\<exists>dp. cwd (getproc s i) = Some dp \<and> iref (geti s dp) \<noteq> 1"
    using exit_returns [of u i] that tr u i(1) by auto
qed

text \<open>A page fault of the running process of \<open>demo_st\<close>.\<close>

definition demo_trap :: trap_st where
  "demo_trap = (proc_st.extend demo_st (trap_st.fields 0))\<lparr>crt := replicate 2000 0\<rparr>"

definition demo_frame :: trapframe where
  "demo_frame = \<lparr>tf_eax = 0, tf_eip = 0x10, tf_esp = 0x2000, tf_cs = 0x23, tf_ds = 0x2B, tf_es = 0x2B, tf_ss = 0x2B, tf_eflags = 0x200, tf_trapno = T_PGFLT\<rparr>"

definition demo_hardware :: hardware where
  "demo_hardware = \<lparr>cpu_id = 0, tf_err = 4, cr2 = 0x9000, kbd_port = [], com1_port = []\<rparr>"

lemma demo_trap:
  "curproc demo_trap = Some 1" "initproc demo_trap = Some 0" "length (ptable demo_trap) = NPROC" "crt_ok demo_trap"
  "getproc demo_trap 1 = proc0\<lparr>state := RUNNING, pid := 2, parent := Some 0, cwd := Some 0\<rparr>" "geti demo_trap 0 = demo_inode"
  using demo_st by (simp_all add: demo_trap_def proc_st.extend_def trap_st.fields_def crt_ok_def getproc_def geti_def demo_st_def)

theorem user_fault_kills_witness:
  "(\<exists>t. trap demo_hardware demo_frame demo_trap = Ok () t \<and> curproc t = None \<and> state (getproc t 1) = ZOMBIE) \<and>
   trap demo_hardware (demo_frame\<lparr>tf_cs := 8\<rparr>) demo_trap = Panic ''trap''"
proof -
  have f: "is_fault (tf_trapno demo_frame)" "from_user demo_frame"
    by (simp_all add: demo_frame_def is_fault_def trap_consts T_PGFLT_def from_user_def DPL_USER_def)
  have o: "length (ofile (getproc demo_trap 1)) = NOFILE" "\<forall>fd < NOFILE. ofile (getproc demo_trap 1) ! fd = None"
    unfolding demo_trap by (simp_all add: proc0_def)
  note k = user_fault_kills [OF f(1) demo_trap(4,3), of demo_hardware]
  have n: "1 < NPROC" by (simp add: NPROC_def)
  have "\<exists>dp. cwd (getproc demo_trap 1) = Some dp \<and> iref (geti demo_trap dp) \<noteq> 1"
    unfolding demo_trap by (rule exI [of _ 0]) (simp add: demo_trap demo_inode_def)
  then obtain t where t: "trap demo_hardware demo_frame demo_trap = Ok () t"
    using k n o f(2) demo_trap by auto
  then have "curproc t = None \<and> state (getproc t 1) = ZOMBIE" using k n o f(2) demo_trap by auto
  moreover have "trap demo_hardware (demo_frame\<lparr>tf_cs := 8\<rparr>) demo_trap = Panic ''trap''"
    using user_fault_kills [of "demo_frame\<lparr>tf_cs := 8\<rparr>" demo_trap demo_hardware] f(1) demo_trap by (simp add: demo_frame_def)
  ultimately show ?thesis using t by blast
qed

end
