(* ===== verification/Spinlock.thy ===== *)
theory Spinlock
  imports Prelude
begin

text \<open>
  \<^verbatim>\<open>spinlock.c\<close> on several CPUs. Every access of a routine to memory that another CPU may change is one
  step: the two reads of \<^verbatim>\<open>holding\<close>, the atomic \<^verbatim>\<open>xchg\<close>, and the two writes of \<^verbatim>\<open>lk->cpu\<close>. The counter
  \<^verbatim>\<open>ncli\<close>, \<^verbatim>\<open>intena\<close> and the interrupt flag belong to one CPU, so \<^verbatim>\<open>pushcli\<close> and \<^verbatim>\<open>popcli\<close> are single steps.
  The fields \<^verbatim>\<open>name\<close> and \<^verbatim>\<open>pcs\<close> of a lock are for messages only and are left out. The step relation
  lets any CPU do any step at any time, so the reachable states are those of all interleavings.
\<close>

section \<open>Locks and CPUs\<close>

record spinlock =
  locked :: "32 word"
  lk_cpu :: "nat option"

record cpu =
  ncli :: int
  intena :: bool
  flag_IF :: bool

definition initlock :: spinlock where
  "initlock = \<lparr>locked = 0, lk_cpu = None\<rparr>"

definition pushcli :: "cpu \<Rightarrow> cpu" where
  "pushcli c =
     (let eflags = flag_IF c; d = c\<lparr>flag_IF := False, ncli := ncli c + 1\<rparr>
      in if ncli c = 0 then d\<lparr>intena := eflags\<rparr> else d)"

definition popcli :: "cpu \<Rightarrow> string + cpu" where
  "popcli c =
     (if flag_IF c then Inl ''popcli - interruptible''
      else let c = c\<lparr>ncli := ncli c - 1\<rparr> in
        if ncli c < 0 then Inl ''popcli''
        else Inr (if ncli c = 0 \<and> intena c then c\<lparr>flag_IF := True\<rparr> else c))"

definition xchg :: "32 word \<Rightarrow> spinlock \<Rightarrow> 32 word \<times> spinlock" where
  "xchg v l = (locked l, l\<lparr>locked := v\<rparr>)"

definition holding :: "nat \<Rightarrow> spinlock \<Rightarrow> bool" where
  "holding c l \<longleftrightarrow> locked l \<noteq> 0 \<and> lk_cpu l = Some c"

section \<open>Steps\<close>

text \<open>Where a CPU is: in no routine of \<^verbatim>\<open>spinlock.c\<close>, inside \<^verbatim>\<open>acquire(lk)\<close> before the reads of \<^verbatim>\<open>holding\<close>, in the spinning
  loop, or before the write of \<^verbatim>\<open>lk->cpu\<close>; inside \<^verbatim>\<open>release(lk)\<close> before the reads of \<^verbatim>\<open>holding\<close>, the write of \<^verbatim>\<open>lk->cpu\<close>,
  the \<^verbatim>\<open>xchg\<close>, or the \<^verbatim>\<open>popcli\<close>; or in \<^verbatim>\<open>panic\<close>.\<close>

datatype pc = Running | Acq_locked nat | Acq_cpu nat | Acq_spin nat | Acq_set nat
  | Rel_locked nat | Rel_cpu nat | Rel_clear nat | Rel_xchg nat | Rel_pop | Panicked string

text \<open>\<open>inside\<close> records the locks whose \<^verbatim>\<open>acquire\<close> has returned and whose \<^verbatim>\<open>release\<close> has not begun to take effect, and
  \<open>pushes\<close> the calls of \<^verbatim>\<open>pushcli\<close> that other code (\<^verbatim>\<open>switchuvm\<close>) has still to match.\<close>

record smp =
  locks :: "nat \<Rightarrow> spinlock"
  cpus :: "nat \<Rightarrow> cpu"
  pcs :: "nat \<Rightarrow> pc"
  inside :: "nat \<Rightarrow> nat set"
  pushes :: "nat \<Rightarrow> nat"

definition goto :: "nat \<Rightarrow> pc \<Rightarrow> smp \<Rightarrow> smp" where
  "goto c p s = s\<lparr>pcs := (pcs s)(c := p)\<rparr>"

definition setcpu :: "nat \<Rightarrow> cpu \<Rightarrow> smp \<Rightarrow> smp" where
  "setcpu c u s = s\<lparr>cpus := (cpus s)(c := u)\<rparr>"

definition setlock :: "nat \<Rightarrow> spinlock \<Rightarrow> smp \<Rightarrow> smp" where
  "setlock lk l s = s\<lparr>locks := (locks s)(lk := l)\<rparr>"

text \<open>The call of \<^verbatim>\<open>acquire(lk)\<close> on CPU \<open>c\<close>, up to and including its \<^verbatim>\<open>pushcli\<close>.\<close>

definition enter :: "nat \<Rightarrow> nat \<Rightarrow> smp \<Rightarrow> smp" where
  "enter c lk s = goto c (Acq_locked lk) (setcpu c (pushcli (cpus s c)) s)"

text \<open>The next step of CPU \<open>c\<close> inside \<^verbatim>\<open>acquire\<close> or \<^verbatim>\<open>release\<close>.\<close>

definition next_step :: "nat \<Rightarrow> smp \<Rightarrow> smp" where
  "next_step c s =
     (case pcs s c of
        Running \<Rightarrow> s
      | Acq_locked lk \<Rightarrow> goto c (if locked (locks s lk) \<noteq> 0 then Acq_cpu lk else Acq_spin lk) s
      | Acq_cpu lk \<Rightarrow> goto c (if lk_cpu (locks s lk) = Some c then Panicked ''acquire'' else Acq_spin lk) s
      | Acq_spin lk \<Rightarrow>
          (let (old, l) = xchg 1 (locks s lk) in goto c (if old \<noteq> 0 then Acq_spin lk else Acq_set lk) (setlock lk l s))
      | Acq_set lk \<Rightarrow>
          goto c Running (setlock lk ((locks s lk)\<lparr>lk_cpu := Some c\<rparr>) (s\<lparr>inside := (inside s)(c := insert lk (inside s c))\<rparr>))
      | Rel_locked lk \<Rightarrow> goto c (if locked (locks s lk) \<noteq> 0 then Rel_cpu lk else Panicked ''release'') s
      | Rel_cpu lk \<Rightarrow>
          if lk_cpu (locks s lk) = Some c then goto c (Rel_clear lk) (s\<lparr>inside := (inside s)(c := inside s c - {lk})\<rparr>)
          else goto c (Panicked ''release'') s
      | Rel_clear lk \<Rightarrow> goto c (Rel_xchg lk) (setlock lk ((locks s lk)\<lparr>lk_cpu := None\<rparr>) s)
      | Rel_xchg lk \<Rightarrow> goto c Rel_pop (setlock lk (snd (xchg 0 (locks s lk))) s)
      | Rel_pop \<Rightarrow> (case popcli (cpus s c) of Inl m \<Rightarrow> goto c (Panicked m) s | Inr u \<Rightarrow> goto c Running (setcpu c u s))
      | Panicked m \<Rightarrow> s)"

text \<open>What the code around may do on a CPU that is in no routine of \<^verbatim>\<open>spinlock.c\<close>: call \<^verbatim>\<open>acquire\<close> or \<^verbatim>\<open>release\<close> on any lock,
  bracket code by \<^verbatim>\<open>pushcli\<close> and \<^verbatim>\<open>popcli\<close>, switch interrupts on or off when \<^verbatim>\<open>ncli\<close> is zero (\<^verbatim>\<open>sti\<close>, \<^verbatim>\<open>cli\<close>, entry to and
  return from a trap), and restore \<^verbatim>\<open>intena\<close> as \<^verbatim>\<open>sched\<close> does.\<close>

inductive lock_step :: "smp \<Rightarrow> smp \<Rightarrow> bool" where
  acquire: "pcs s c = Running \<Longrightarrow> lock_step s (enter c lk s)"
| release: "pcs s c = Running \<Longrightarrow> lock_step s (goto c (Rel_locked lk) s)"
| inner: "lock_step s (next_step c s)"
| push: "pcs s c = Running \<Longrightarrow> lock_step s (setcpu c (pushcli (cpus s c)) (s\<lparr>pushes := (pushes s)(c := Suc (pushes s c))\<rparr>))"
| pop: "pcs s c = Running \<Longrightarrow> pushes s c = Suc n \<Longrightarrow> popcli (cpus s c) = Inr u \<Longrightarrow>
    lock_step s (setcpu c u (s\<lparr>pushes := (pushes s)(c := n)\<rparr>))"
| flag: "pcs s c = Running \<Longrightarrow> ncli (cpus s c) = 0 \<Longrightarrow> lock_step s (setcpu c ((cpus s c)\<lparr>flag_IF := b\<rparr>) s)"
| intena: "pcs s c = Running \<Longrightarrow> lock_step s (setcpu c ((cpus s c)\<lparr>intena := b\<rparr>) s)"

definition smp_boot :: smp where
  "smp_boot = \<lparr>locks = (\<lambda>_. initlock), cpus = (\<lambda>_. \<lparr>ncli = 0, intena = False, flag_IF = False\<rparr>), pcs = (\<lambda>_. Running),
     inside = (\<lambda>_. {}), pushes = (\<lambda>_. 0)\<rparr>"

inductive lock_reach :: "smp \<Rightarrow> bool" where
  start: "lock_reach smp_boot"
| more: "lock_reach s \<Longrightarrow> lock_step s t \<Longrightarrow> lock_reach t"

section \<open>pushcli and popcli match\<close>

lemma popcli_pushcli:
  "0 \<le> ncli c \<Longrightarrow> (0 < ncli c \<longrightarrow> \<not> flag_IF c) \<Longrightarrow> \<exists>b. popcli (pushcli c) = Inr (c\<lparr>intena := b\<rparr>)"
  by (cases c) (auto simp: pushcli_def popcli_def Let_def)

section \<open>The invariant\<close>

text \<open>A CPU owns a lock from the successful \<^verbatim>\<open>xchg\<close> to the \<^verbatim>\<open>xchg\<close> that frees it.\<close>

definition owns :: "smp \<Rightarrow> nat \<Rightarrow> nat \<Rightarrow> bool" where
  "owns s c lk \<longleftrightarrow> lk \<in> inside s c \<or> pcs s c \<in> {Acq_set lk, Rel_clear lk, Rel_xchg lk}"

text \<open>The calls of \<^verbatim>\<open>pushcli\<close> that the routine a CPU is in has still to match and \<open>inside\<close> does not count.\<close>

fun transit :: "pc \<Rightarrow> nat" where
  "transit (Acq_locked lk) = 1"
| "transit (Acq_cpu lk) = 1"
| "transit (Acq_spin lk) = 1"
| "transit (Acq_set lk) = 1"
| "transit (Rel_clear lk) = 1"
| "transit (Rel_xchg lk) = 1"
| "transit Rel_pop = 1"
| "transit (Panicked m) = (if m = ''acquire'' then 1 else 0)"
| "transit p = 0"

definition cpu_inv :: "smp \<Rightarrow> nat \<Rightarrow> bool" where
  "cpu_inv s c \<longleftrightarrow> finite (inside s c) \<and> ncli (cpus s c) = int (card (inside s c) + pushes s c + transit (pcs s c)) \<and>
     (0 < ncli (cpus s c) \<longrightarrow> \<not> flag_IF (cpus s c))"

definition lock_inv :: "smp \<Rightarrow> nat \<Rightarrow> bool" where
  "lock_inv s lk \<longleftrightarrow>
     (\<forall>c. lk_cpu (locks s lk) = Some c \<longleftrightarrow> lk \<in> inside s c \<or> pcs s c = Rel_clear lk) \<and>
     (\<forall>c. pcs s c \<in> {Acq_set lk, Rel_clear lk, Rel_xchg lk} \<longrightarrow> lk \<notin> inside s c) \<and>
     (locked (locks s lk) \<noteq> 0 \<longleftrightarrow> (\<exists>c. owns s c lk)) \<and>
     (\<forall>c d. owns s c lk \<longrightarrow> owns s d lk \<longrightarrow> c = d)"

definition smp_inv :: "smp \<Rightarrow> bool" where
  "smp_inv s \<longleftrightarrow> (\<forall>c. cpu_inv s c) \<and> (\<forall>lk. lock_inv s lk)"

lemma upd_sel [simp]:
  "locks (goto c p s) = locks s" "cpus (goto c p s) = cpus s" "pcs (goto c p s) = (pcs s)(c := p)" "inside (goto c p s) = inside s" "pushes (goto c p s) = pushes s"
  "locks (setcpu c u s) = locks s" "cpus (setcpu c u s) = (cpus s)(c := u)" "pcs (setcpu c u s) = pcs s" "inside (setcpu c u s) = inside s" "pushes (setcpu c u s) = pushes s"
  "locks (setlock k l s) = (locks s)(k := l)" "cpus (setlock k l s) = cpus s" "pcs (setlock k l s) = pcs s" "inside (setlock k l s) = inside s" "pushes (setlock k l s) = pushes s"
  by (simp_all add: goto_def setcpu_def setlock_def)

subsection \<open>Interrupts\<close>

lemma pushcli_sel: "ncli (pushcli u) = ncli u + 1" "\<not> flag_IF (pushcli u)"
  by (simp_all add: pushcli_def Let_def)

lemma popcli_Inr: "popcli u = Inr v \<Longrightarrow> ncli v = ncli u - 1 \<and> (0 < ncli v \<longrightarrow> \<not> flag_IF v)"
  by (auto simp: popcli_def Let_def split: if_splits)

lemma popcli_ok: "\<not> flag_IF u \<Longrightarrow> 0 < ncli u \<Longrightarrow> \<exists>v. popcli u = Inr v"
  by (simp add: popcli_def Let_def)

lemma cpu_inv_next:
  assumes "\<forall>c. cpu_inv s c" and "\<forall>lk. lock_inv s lk"
  shows "cpu_inv (next_step d s) c"
proof (cases "c = d")
  case False
  then show ?thesis using assms(1) [rule_format, of c]
    by (auto simp: next_step_def cpu_inv_def xchg_def Let_def split: pc.split sum.split)
next
  case True
  have i: "cpu_inv s c" using assms(1) by blast
  have n: "pcs s c = Acq_set lk \<Longrightarrow> lk \<notin> inside s c" for lk using assms(2) by (auto simp: lock_inv_def)
  have h: "pcs s c = Rel_cpu lk \<Longrightarrow> lk_cpu (locks s lk) = Some c \<Longrightarrow> lk \<in> inside s c" for lk using assms(2) by (auto simp: lock_inv_def)
  show ?thesis
  proof (cases "pcs s c")
    case (Rel_cpu lk)
    then show ?thesis using i h [OF Rel_cpu] True
      by (auto simp: next_step_def cpu_inv_def card_gt_0_iff dest: card_Suc_Diff1)
  next
    case Rel_pop
    then obtain v where "popcli (cpus s c) = Inr v" using i popcli_ok by (fastforce simp: cpu_inv_def)
    then show ?thesis using i True Rel_pop popcli_Inr by (auto simp: next_step_def cpu_inv_def)
  qed (use i n True in \<open>auto simp: next_step_def cpu_inv_def xchg_def Let_def\<close>)
qed

lemma cpu_inv_step:
  "lock_step s t \<Longrightarrow> \<forall>c. cpu_inv s c \<Longrightarrow> \<forall>lk. lock_inv s lk \<Longrightarrow> cpu_inv t c"
proof (induction rule: lock_step.induct)
  case (inner s d)
  then show ?case by (rule cpu_inv_next)
next
  case (pop s d n u)
  from pop(4) have "cpu_inv s c" "cpu_inv s d" by blast+
  then show ?case using popcli_Inr [OF pop(3)] pop(1,2) by (auto simp: cpu_inv_def)
qed (auto simp: cpu_inv_def enter_def pushcli_sel dest: spec [of _ c])

subsection \<open>Ownership\<close>

definition quiet :: "pc \<Rightarrow> bool" where
  "quiet p \<longleftrightarrow> (\<forall>lk. p \<notin> {Acq_set lk, Rel_clear lk, Rel_xchg lk})"

lemma lock_inv_setcpu [simp]: "lock_inv (setcpu c u s) lk = lock_inv s lk" "lock_inv (s\<lparr>pushes := f\<rparr>) lk = lock_inv s lk"
  by (simp_all add: lock_inv_def owns_def)

lemma lock_inv_goto: "quiet (pcs s c) \<Longrightarrow> quiet p \<Longrightarrow> lock_inv (goto c p s) lk = lock_inv s lk"
proof -
  assume q: "quiet (pcs s c)" "quiet p"
  have "owns (goto c p s) = owns s" using q by (intro ext) (auto simp: owns_def quiet_def)
  then show ?thesis using q by (auto simp: lock_inv_def quiet_def)
qed

text \<open>A step on lock \<open>k\<close> does not touch another lock.\<close>

lemma lock_inv_other:
  assumes "lock_inv s lk" and "locks t lk = locks s lk" and "\<And>d. lk \<in> inside t d \<longleftrightarrow> lk \<in> inside s d"
    and "\<And>d. pcs t d = Acq_set lk \<longleftrightarrow> pcs s d = Acq_set lk" and "\<And>d. pcs t d = Rel_clear lk \<longleftrightarrow> pcs s d = Rel_clear lk"
    and "\<And>d. pcs t d = Rel_xchg lk \<longleftrightarrow> pcs s d = Rel_xchg lk"
  shows "lock_inv t lk"
  using assms(1) unfolding lock_inv_def owns_def by (simp add: assms(2-6))

text \<open>What the invariant says of the owner.\<close>

lemma owner_unique:
  assumes "lock_inv s k" and "owns s c k"
  shows "owns s d k \<longleftrightarrow> d = c" and "d \<noteq> c \<Longrightarrow> k \<notin> inside s d" and "d \<noteq> c \<Longrightarrow> pcs s d \<notin> {Acq_set k, Rel_clear k, Rel_xchg k}"
    and "locked (locks s k) \<noteq> 0" and "lk_cpu (locks s k) = Some d \<Longrightarrow> d = c"
  using assms unfolding lock_inv_def owns_def by blast+

lemma lock_invI:
  assumes "owns t c k" and "\<And>d. d \<noteq> c \<Longrightarrow> \<not> owns t d k" and "locked (locks t k) \<noteq> 0"
    and "lk_cpu (locks t k) = (if k \<in> inside t c \<or> pcs t c = Rel_clear k then Some c else None)"
    and "pcs t c \<in> {Acq_set k, Rel_clear k, Rel_xchg k} \<Longrightarrow> k \<notin> inside t c"
  shows "lock_inv t k"
  unfolding lock_inv_def
proof (intro conjI allI)
  fix d
  have n: "k \<notin> inside t d \<and> pcs t d \<notin> {Acq_set k, Rel_clear k, Rel_xchg k}" if "d \<noteq> c" using assms(2) [OF that] by (simp add: owns_def)
  show "(lk_cpu (locks t k) = Some d) = (k \<in> inside t d \<or> pcs t d = Rel_clear k)" using assms(4) n by (cases "d = c") auto
  show "pcs t d \<in> {Acq_set k, Rel_clear k, Rel_xchg k} \<longrightarrow> k \<notin> inside t d" using assms(5) n by (cases "d = c") auto
next
  fix d e show "owns t d k \<longrightarrow> owns t e k \<longrightarrow> d = e" using assms(2) by metis
next
  show "(locked (locks t k) \<noteq> 0) = (\<exists>c. owns t c k)" using assms(1,3) by blast
qed

lemma lock_inv_owner:
  assumes "lock_inv s k" and "owns s c k" and "\<And>d. d \<noteq> c \<Longrightarrow> inside t d = inside s d \<and> pcs t d = pcs s d"
    and "owns t c k" and "locked (locks t k) = locked (locks s k)"
    and "lk_cpu (locks t k) = (if k \<in> inside t c \<or> pcs t c = Rel_clear k then Some c else None)"
    and "pcs t c \<in> {Acq_set k, Rel_clear k, Rel_xchg k} \<Longrightarrow> k \<notin> inside t c"
  shows "lock_inv t k"
proof (rule lock_invI [OF assms(4) _ _ assms(6,7)])
  note u = owner_unique [OF assms(1,2)]
  show "\<not> owns t d k" if "d \<noteq> c" for d using u(2,3) [OF that] assms(3) [OF that] by (simp add: owns_def)
  show "locked (locks t k) \<noteq> 0" using u(4) assms(5) by simp
qed

lemma lk_cpu_iff: "lock_inv s k \<Longrightarrow> lk_cpu (locks s k) = Some c \<longleftrightarrow> k \<in> inside s c \<or> pcs s c = Rel_clear k"
  by (simp add: lock_inv_def)

lemma owner_cpu: "lock_inv s k \<Longrightarrow> pcs s c = Acq_set k \<or> pcs s c = Rel_xchg k \<Longrightarrow> lk_cpu (locks s k) = None"
proof -
  assume i: "lock_inv s k" and p: "pcs s c = Acq_set k \<or> pcs s c = Rel_xchg k"
  then have o: "owns s c k" by (auto simp: owns_def)
  have "lk_cpu (locks s k) \<noteq> Some c" using i p by (auto simp: lock_inv_def)
  then show ?thesis using owner_unique(5) [OF i o] by (cases "lk_cpu (locks s k)") auto
qed

lemma lock_inv_xchg_free:
  assumes "lock_inv s k" and "pcs s c = Acq_spin k" and "locked (locks s k) = 0"
  shows "lock_inv (next_step c s) k"
proof (rule lock_invI [of _ c])
  have n: "\<not> owns s d k" for d using assms(1,3) by (simp add: lock_inv_def)
  then have k: "k \<notin> inside s d" "pcs s d \<notin> {Acq_set k, Rel_clear k, Rel_xchg k}" for d by (simp_all add: owns_def)
  have l: "lk_cpu (locks s k) = None" using assms(1) k by (cases "lk_cpu (locks s k)") (auto simp: lock_inv_def)
  note t = next_step_def assms(2,3) xchg_def Let_def
  show "owns (next_step c s) c k" by (simp add: t owns_def)
  show "\<not> owns (next_step c s) d k" if "d \<noteq> c" for d using k [of d] that by (simp add: t owns_def)
  show "locked (locks (next_step c s) k) \<noteq> 0" by (simp add: t)
  show "lk_cpu (locks (next_step c s) k) = (if k \<in> inside (next_step c s) c \<or> pcs (next_step c s) c = Rel_clear k then Some c else None)"
    using l k by (simp add: t)
  show "k \<notin> inside (next_step c s) c" using k by (simp add: t)
qed

lemma lock_inv_xchg_busy:
  assumes "lock_inv s k" and "pcs s c = Acq_spin k" and "locked (locks s k) \<noteq> 0"
  shows "lock_inv (next_step c s) k"
proof -
  obtain d where o: "owns s d k" using assms(1,3) by (auto simp: lock_inv_def)
  have "lock_inv (setlock k ((locks s k)\<lparr>locked := 1\<rparr>) s) k" using assms(1,3) unfolding lock_inv_def owns_def by simp
  moreover have "next_step c s = goto c (Acq_spin k) (setlock k ((locks s k)\<lparr>locked := 1\<rparr>) s)"
    using assms(2,3) by (simp add: next_step_def xchg_def)
  ultimately show ?thesis using lock_inv_goto assms(2) by (simp add: quiet_def)
qed

lemma lock_inv_release_xchg:
  assumes "lock_inv s k" and "pcs s c = Rel_xchg k"
  shows "lock_inv (next_step c s) k"
proof -
  have o: "owns s c k" using assms(2) by (simp add: owns_def)
  note u = owner_unique [OF assms(1) o]
  have l: "lk_cpu (locks s k) = None" using owner_cpu [OF assms(1)] assms(2) by blast
  have k: "k \<notin> inside s c" using assms by (simp add: lock_inv_def)
  have n: "k \<notin> inside s d \<and> (d \<noteq> c \<longrightarrow> pcs s d \<notin> {Acq_set k, Rel_clear k, Rel_xchg k})" for d
    using k u(2,3) [of d] by (cases "d = c") auto
  then have "\<not> owns (next_step c s) d k" for d
    using n [of d] assms(2) by (cases "d = c") (simp_all add: next_step_def owns_def)
  moreover have "pcs (next_step c s) d \<noteq> Rel_clear k" "k \<notin> inside (next_step c s) d" "pcs (next_step c s) d \<notin> {Acq_set k, Rel_clear k, Rel_xchg k}" for d
    using n [of d] assms(2) by (cases "d = c"; simp add: next_step_def)+
  moreover have "locked (locks (next_step c s) k) = 0" "lk_cpu (locks (next_step c s) k) = None"
    using l assms(2) by (simp_all add: next_step_def xchg_def)
  ultimately show ?thesis by (simp add: lock_inv_def)
qed

text \<open>The steps of a CPU on the lock \<open>k\<close> that it works on.\<close>

lemma lock_inv_same:
  assumes i: "lock_inv s k" and p: "pcs s c \<in> {Acq_spin k, Acq_set k, Rel_cpu k, Rel_clear k, Rel_xchg k}"
  shows "lock_inv (next_step c s) k"
proof -
  consider "pcs s c = Acq_spin k" | "pcs s c = Acq_set k" | "pcs s c = Rel_cpu k" | "pcs s c = Rel_clear k" | "pcs s c = Rel_xchg k"
    using p by blast
  then show ?thesis
  proof cases
    case 1
    then show ?thesis using lock_inv_xchg_free [OF i] lock_inv_xchg_busy [OF i] by blast
  next
    case 2
    then have o: "owns s c k" by (simp add: owns_def)
    show ?thesis by (rule lock_inv_owner [OF i o]) (simp_all add: 2 next_step_def owns_def)
  next
    case 3
    show ?thesis
    proof (cases "lk_cpu (locks s k) = Some c")
      case True
      then have o: "owns s c k" using lk_cpu_iff [OF i] by (auto simp: owns_def)
      show ?thesis by (rule lock_inv_owner [OF i o]) (simp_all add: 3 True next_step_def owns_def)
    next
      case False
      then show ?thesis using i 3 by (simp add: next_step_def lock_inv_goto quiet_def)
    qed
  next
    case 4
    then have o: "owns s c k" by (simp add: owns_def)
    have "k \<notin> inside s c" using i 4 by (simp add: lock_inv_def)
    then show ?thesis by (intro lock_inv_owner [OF i o]) (simp_all add: 4 next_step_def owns_def)
  next
    case 5
    then show ?thesis by (rule lock_inv_release_xchg [OF i])
  qed
qed

lemma lock_inv_next:
  assumes "\<forall>lk. lock_inv s lk"
  shows "lock_inv (next_step c s) lk"
proof (cases "pcs s c \<in> {Acq_spin lk, Acq_set lk, Rel_cpu lk, Rel_clear lk, Rel_xchg lk}")
  case True
  with assms show ?thesis by (blast intro: lock_inv_same)
next
  case False
  have i: "lock_inv s lk" using assms by blast
  note other = lock_inv_other [OF i]
  show ?thesis
  proof (cases "pcs s c")
    case (Acq_spin k)
    with False show ?thesis by (intro other) (simp_all add: next_step_def xchg_def)
  next
    case (Acq_set k)
    with False show ?thesis by (intro other) (simp_all add: next_step_def)
  next
    case (Rel_cpu k)
    with False show ?thesis by (intro other) (simp_all add: next_step_def)
  next
    case (Rel_clear k)
    with False show ?thesis by (intro other) (simp_all add: next_step_def)
  next
    case (Rel_xchg k)
    with False show ?thesis by (intro other) (simp_all add: next_step_def)
  qed (use i in \<open>auto simp: next_step_def lock_inv_goto quiet_def split: sum.split\<close>)
qed

lemma lock_inv_step: "lock_step s t \<Longrightarrow> \<forall>lk. lock_inv s lk \<Longrightarrow> lock_inv t lk"
  by (induction rule: lock_step.induct) (auto simp: lock_inv_next lock_inv_goto quiet_def enter_def)

lemma reach_inv: "lock_reach s \<Longrightarrow> smp_inv s"
proof (induction rule: lock_reach.induct)
  case start
  show ?case by (simp add: smp_inv_def cpu_inv_def lock_inv_def owns_def smp_boot_def initlock_def)
next
  case (more s t)
  then show ?case using cpu_inv_step lock_inv_step by (simp add: smp_inv_def)
qed

section \<open>Mutual exclusion\<close>

lemma inside_disjoint: "smp_inv s \<Longrightarrow> c \<noteq> d \<Longrightarrow> inside s c \<inter> inside s d = {}"
  by (auto simp: smp_inv_def lock_inv_def owns_def)

lemma inside_interrupts: "smp_inv s \<Longrightarrow> inside s c \<noteq> {} \<Longrightarrow> \<not> flag_IF (cpus s c)"
proof -
  assume "smp_inv s" "inside s c \<noteq> {}"
  moreover from this have "card (inside s c) > 0" by (auto simp: smp_inv_def cpu_inv_def card_gt_0_iff)
  ultimately show ?thesis by (auto simp: smp_inv_def cpu_inv_def)
qed

lemma holding_exact:
  assumes "smp_inv s" and "\<And>lk. pcs s c \<noteq> Rel_clear lk"
  shows "holding c (locks s lk) \<longleftrightarrow> lk \<in> inside s c"
proof -
  have i: "lock_inv s lk" using assms(1) by (simp add: smp_inv_def)
  have "lk \<in> inside s c \<Longrightarrow> locked (locks s lk) \<noteq> 0" using owner_unique(4) [OF i, of c] by (simp add: owns_def)
  then show ?thesis using lk_cpu_iff [OF i, of c] assms(2) by (auto simp: holding_def)
qed

lemma free_lock_taken:
  assumes "smp_inv s" and "\<forall>e. \<not> owns s e lk" and "pcs s c = Acq_spin lk"
  shows "lk \<in> inside (next_step c (next_step c s)) c"
proof -
  have "locked (locks s lk) = 0" using assms(1,2) by (auto simp: smp_inv_def lock_inv_def)
  then have "pcs (next_step c s) c = Acq_set lk" using assms(3) by (simp add: next_step_def xchg_def)
  then show ?thesis by (simp add: next_step_def [of c "next_step c s"])
qed

text \<open>C2. Spin locks exclude each other's critical sections in every interleaving of the CPUs' steps. No lock is held by two CPUs;
  a CPU that holds a lock has interrupts off; the answer of \<^verbatim>\<open>holding\<close>, although it reads fields that other CPUs are writing, is
  exact, so \<^verbatim>\<open>acquire\<close> and \<^verbatim>\<open>release\<close> panic exactly on a lock that the CPU already holds or does not hold;
  the \<^verbatim>\<open>popcli\<close> of \<^verbatim>\<open>release\<close> never panics; and a CPU that spins on a lock nobody owns has it after two steps.\<close>

theorem spinlock_mutex:
  assumes "lock_reach s"
  shows "(c \<noteq> d \<longrightarrow> inside s c \<inter> inside s d = {}) \<and>
    (inside s c \<noteq> {} \<longrightarrow> \<not> flag_IF (cpus s c)) \<and>
    (pcs s c \<in> {Running, Acq_locked lk, Acq_cpu lk, Rel_locked lk, Rel_cpu lk} \<longrightarrow> (holding c (locks s lk) \<longleftrightarrow> lk \<in> inside s c)) \<and>
    (pcs s c = Rel_pop \<longrightarrow> (\<exists>u. popcli (cpus s c) = Inr u)) \<and>
    ((\<forall>e. \<not> owns s e lk) \<longrightarrow> pcs s c = Acq_spin lk \<longrightarrow> lk \<in> inside (next_step c (next_step c s)) c)"
proof (intro conjI impI)
  have i: "smp_inv s" using assms by (rule reach_inv)
  show "inside s c \<inter> inside s d = {}" if "c \<noteq> d" using i that by (rule inside_disjoint)
  show "\<not> flag_IF (cpus s c)" if "inside s c \<noteq> {}" using i that by (rule inside_interrupts)
  show "holding c (locks s lk) \<longleftrightarrow> lk \<in> inside s c" if "pcs s c \<in> {Running, Acq_locked lk, Acq_cpu lk, Rel_locked lk, Rel_cpu lk}"
    using that by (intro holding_exact [OF i]) auto
  show "\<exists>u. popcli (cpus s c) = Inr u" if "pcs s c = Rel_pop"
  proof -
    have "cpu_inv s c" using i by (simp add: smp_inv_def)
    then show ?thesis using that by (intro popcli_ok) (simp_all add: cpu_inv_def)
  qed
  show "lk \<in> inside (next_step c (next_step c s)) c" if "\<forall>e. \<not> owns s e lk" "pcs s c = Acq_spin lk"
    using i that by (rule free_lock_taken)
qed

text \<open>CPU 0 has acquired lock 7, and CPU 1 spins on it.\<close>

definition acquired :: smp where
  "acquired = next_step 0 (next_step 0 (next_step 0 (enter 0 7 smp_boot)))"

definition contended :: smp where
  "contended = next_step 1 (next_step 1 (enter 1 7 acquired))"

lemma acquired:
  "lock_reach acquired" "pcs acquired = (\<lambda>_. Running)" "locks acquired 7 = \<lparr>locked = 1, lk_cpu = Some 0\<rparr>"
  "inside acquired = (\<lambda>_. {})(0 := {7})"
proof -
  define a where "a = enter 0 7 smp_boot"
  define b where "b = next_step 0 a"
  define d where "d = next_step 0 b"
  have acq: "acquired = next_step 0 d" by (simp add: acquired_def a_def b_def d_def)
  have a: "lock_reach a" "pcs a = (\<lambda>_. Running)(0 := Acq_locked 7)" "locks a 7 = initlock" "inside a = (\<lambda>_. {})"
    unfolding a_def by (intro lock_reach.more [OF lock_reach.start] lock_step.acquire) (simp_all add: smp_boot_def enter_def)
  have b: "lock_reach b" "pcs b = (\<lambda>_. Running)(0 := Acq_spin 7)" "locks b 7 = initlock" "inside b = (\<lambda>_. {})"
    using lock_reach.more [OF a(1) lock_step.inner, of 0] by (simp_all add: b_def next_step_def a initlock_def)
  have d: "lock_reach d" "pcs d = (\<lambda>_. Running)(0 := Acq_set 7)" "locks d 7 = \<lparr>locked = 1, lk_cpu = None\<rparr>" "inside d = (\<lambda>_. {})"
    using lock_reach.more [OF b(1) lock_step.inner, of 0] by (simp_all add: d_def next_step_def b initlock_def xchg_def)
  show "lock_reach acquired" "pcs acquired = (\<lambda>_. Running)" "locks acquired 7 = \<lparr>locked = 1, lk_cpu = Some 0\<rparr>"
    "inside acquired = (\<lambda>_. {})(0 := {7})"
    using lock_reach.more [OF d(1) lock_step.inner, of 0] by (auto simp: acq next_step_def d)
qed

lemma contended:
  "lock_reach contended" "pcs contended = (\<lambda>_. Running)(1 := Acq_spin 7)" "inside contended = (\<lambda>_. {})(0 := {7})"
proof -
  define a where "a = enter 1 7 acquired"
  define b where "b = next_step 1 a"
  have con: "contended = next_step 1 b" by (simp add: contended_def a_def b_def)
  have a: "lock_reach a" "pcs a = (\<lambda>_. Running)(1 := Acq_locked 7)" "locks a 7 = \<lparr>locked = 1, lk_cpu = Some 0\<rparr>" "inside a = (\<lambda>_. {})(0 := {7})"
    unfolding a_def by (intro lock_reach.more [OF acquired(1)] lock_step.acquire) (simp_all add: acquired enter_def)
  have b: "lock_reach b" "pcs b = (\<lambda>_. Running)(1 := Acq_cpu 7)" "locks b 7 = \<lparr>locked = 1, lk_cpu = Some 0\<rparr>" "inside b = (\<lambda>_. {})(0 := {7})"
    using lock_reach.more [OF a(1) lock_step.inner, of 1] by (simp_all add: b_def next_step_def a)
  show "lock_reach contended" "pcs contended = (\<lambda>_. Running)(1 := Acq_spin 7)" "inside contended = (\<lambda>_. {})(0 := {7})"
    using lock_reach.more [OF b(1) lock_step.inner, of 1] by (simp_all add: con next_step_def b)
qed

theorem spinlock_mutex_witness:
  "lock_reach contended \<and> inside contended 0 = {7} \<and> pcs contended 1 = Acq_spin 7 \<and>
   inside contended 0 \<inter> inside contended 1 = {} \<and> \<not> flag_IF (cpus contended 0) \<and> holding 0 (locks contended 7)"
  using contended spinlock_mutex [OF contended(1), of 0 1 7] by simp

end
