(* ===== verification/Sys_Args.thy ===== *)
theory Sys_Args
  imports Syscall Proc_Fork
begin

text \<open>
  The checks of \<^verbatim>\<open>syscall.c\<close> on the arguments of a system call: whatever a user program passes, the kernel reads
  its memory only where the process has some, and takes what is there.
\<close>

section \<open>Readable memory\<close>

text \<open>Every address below the size of the process is mapped.\<close>

definition readable :: "nat \<Rightarrow> 'a sched_scheme \<Rightarrow> bool" where
  "readable i s \<longleftrightarrow> curproc s = Some i \<and> unat (sz (getproc s i)) \<le> 2 ^ 31 \<and>
     (\<forall>va. unat va < unat (sz (getproc s i)) \<longrightarrow> vread (pgdir (getproc s i)) (pmem s) va \<noteq> None)"

lemma user_mem_readable:
  "user_mem s (pgdir (getproc s i)) (unat (sz (getproc s i))) X \<Longrightarrow> unat (sz (getproc s i)) \<le> 2 ^ 31 \<Longrightarrow> curproc s = Some i \<Longrightarrow> readable i s"
  by (simp add: readable_def user_mem_def vread_def vaddr_vpte)

text \<open>The \<open>n\<close> bytes of the process at \<open>va\<close>.\<close>

fun ubytes :: "uint \<Rightarrow> mem \<Rightarrow> uint \<Rightarrow> nat \<Rightarrow> byte list" where
  "ubytes pd m va 0 = []"
| "ubytes pd m va (Suc n) = the (vread pd m va) # ubytes pd m (va + 1) n"

lemma length_ubytes [simp]: "length (ubytes pd m va n) = n"
  by (induction n arbitrary: va) simp_all

lemma unat_next: "unat (va :: uint) + Suc n \<le> 2 ^ 31 \<Longrightarrow> unat (va + 1) = unat va + 1"
  by (subst unat_add_small) simp_all

lemma vread_bytes_eq:
  assumes "\<And>va. unat va < len \<Longrightarrow> vread pd m va \<noteq> None" and "len \<le> 2 ^ 31" and "unat va + n \<le> len"
  shows "vread_bytes pd m va n = Some (ubytes pd m va n)"
  using assms(3)
proof (induction n arbitrary: va)
  case (Suc n)
  obtain b where "vread pd m va = Some b" using assms(1) [of va] Suc.prems by fastforce
  moreover have "unat (va + 1) + n \<le> len" using unat_next [of va n] Suc.prems assms(2) by linarith
  ultimately show ?case using Suc.IH by simp
qed simp

lemma get_user_eq:
  assumes "readable i s" and "unat va + n \<le> unat (sz (getproc s i))"
  shows "get_user va n s = Ok (ubytes (pgdir (getproc s i)) (pmem s) va n) s"
  using assms vread_bytes_eq [of "unat (sz (getproc s i))" "pgdir (getproc s i)" "pmem s" va n]
  by (simp add: get_user_def with_proc_def readable_def)

section \<open>Words and strings\<close>

lemma fetchint_eq:
  assumes "readable i s"
  shows "fetchint addr s =
    Ok (if unat addr + 4 \<le> unat (sz (getproc s i)) then Some (get32 0 (ubytes (pgdir (getproc s i)) (pmem s) addr 4)) else None) s"
proof (cases "addr < sz (getproc s i)")
  case True
  then have l: "unat addr < unat (sz (getproc s i))" by (simp add: word_less_nat_alt)
  have "unat (addr + 4) = unat addr + 4" using l assms by (subst unat_add_small) (auto simp: readable_def)
  then show ?thesis using True assms get_user_eq [OF assms, of addr 4]
    by (auto simp: fetchint_def with_proc_def readable_def cur_sz_def word_less_nat_alt word_le_nat_alt)
next
  case False
  then have "\<not> unat addr + 4 \<le> unat (sz (getproc s i))" by (simp add: word_less_nat_alt)
  then show ?thesis using False assms by (simp add: fetchint_def with_proc_def readable_def cur_sz_def not_less)
qed

text \<open>The bytes up to the first zero, if there is one.\<close>

definition user_string :: "byte list \<Rightarrow> byte list option" where
  "user_string bs = (if 0 \<in> set bs then Some (takeWhile (\<lambda>b. b \<noteq> 0) bs) else None)"

lemma fetchstr_from_eq:
  assumes "readable i s" and "unat va + n \<le> unat (sz (getproc s i))"
  shows "fetchstr_from n va s = Ok (user_string (ubytes (pgdir (getproc s i)) (pmem s) va n)) s"
  using assms(2)
proof (induction n arbitrary: va)
  case (Suc n)
  have "unat (va + 1) + n \<le> unat (sz (getproc s i))" using unat_next [of va n] Suc.prems assms(1) by (simp add: readable_def)
  from Suc.IH [OF this] get_user_eq [OF assms(1), of va 1] Suc.prems show ?case
    by (auto simp: user_string_def)
qed (simp add: user_string_def)

lemma fetchstr_eq:
  assumes "readable i s"
  shows "fetchstr addr s = Ok (user_string (ubytes (pgdir (getproc s i)) (pmem s) addr (unat (sz (getproc s i)) - unat addr))) s"
proof -
  have "curproc s = Some i" using assms by (simp add: readable_def)
  moreover have "unat (sz (getproc s i)) \<le> unat addr" if "sz (getproc s i) \<le> addr" using that by (simp add: word_le_nat_alt)
  ultimately show ?thesis using fetchstr_from_eq [OF assms, of addr "unat (sz (getproc s i)) - unat addr"]
    by (auto simp: fetchstr_def with_proc_def cur_sz_def user_string_def word_le_nat_alt)
qed

section \<open>Arguments\<close>

lemma argptr_eq:
  assumes "readable i s" and "0 \<le> len" and "len < 2 ^ 31"
  shows "\<exists>r. argptr n len s = Ok r s \<and> (\<forall>a. r = Some a \<longrightarrow> unat a + nat len \<le> unat (sz (getproc s i)))"
proof -
  obtain r where r: "argint n s = Ok r s" using assms(1) fetchint_eq [OF assms(1)] by (auto simp: argint_def with_proc_def readable_def)
  have c: "curproc s = Some i" using assms(1) by (simp add: readable_def)
  show ?thesis
  proof (cases r)
    case None
    then show ?thesis using r c by (simp add: argptr_def with_proc_def)
  next
    case (Some a)
    have "unat (of_int len :: uint) = nat len" using assms(2,3) by (simp add: unat_of_nat_uint flip: of_nat_nat)
    moreover have "unat a + unat (of_int len :: uint) < 2 ^ 32" if "a < sz (getproc s i)"
    proof -
      have "unat a < 2 ^ 31" using that assms(1) by (simp add: readable_def word_less_nat_alt)
      moreover have "nat len < 2 ^ 31" using assms(2,3) by (simp add: nat_less_iff)
      ultimately show ?thesis using \<open>unat (of_int len :: uint) = nat len\<close> by simp
    qed
    ultimately have "unat (a + of_int len) = unat a + nat len" if "a < sz (getproc s i)" using that unat_add_small by metis
    then show ?thesis using r c Some by (auto simp: argptr_def with_proc_def cur_sz_def word_less_nat_alt word_le_nat_alt)
  qed
qed



text \<open>The size of a buffer is not checked for its sign: with a negative one, \<^verbatim>\<open>argptr\<close> accepts every address inside the process.\<close>

lemma argptr_negative:
  assumes "readable i s" and "argint n s = Ok (Some a) s" and "a < sz (getproc s i)" and "- int (unat a) \<le> len" and "len < 0"
  shows "argptr n len s = Ok (Some a) s"
proof -
  have "a + of_int len = of_nat (nat (int (unat a) + len))" using assms(4) by (simp add: of_nat_nat)
  moreover have "nat (int (unat a) + len) < unat a" using assms(4,5) by linarith
  ultimately have "unat (a + of_int len) < unat a" using unat_uint_less [of a] by (simp add: unat_of_nat_uint)
  then have "a + of_int len < sz (getproc s i)" using assms(3) by (simp add: word_less_nat_alt)
  then show ?thesis using assms by (auto simp: argptr_def with_proc_def readable_def cur_sz_def)
qed

end
