(* ===== verification/Ulib.thy ===== *)
theory Ulib
  imports StringC
begin

text \<open>
  The user library: \<^verbatim>\<open>strcpy\<close>, \<^verbatim>\<open>strchr\<close> and \<^verbatim>\<open>gets\<close> of \<^verbatim>\<open>ulib.c\<close> and \<^verbatim>\<open>printf\<close> of \<^verbatim>\<open>printf.c\<close>. A fixed array
  is a list of bytes; an access outside it is the value \<open>None\<close>. The operations \<^verbatim>\<open>read\<close> and \<^verbatim>\<open>write\<close> on a
  descriptor are system calls: a source is the list of what the successive transfers of a file, a pipe
  or the console deliver, and output is the list of bytes written.
\<close>

section \<open>Strings\<close>

fun strcpy_from :: "byte list \<Rightarrow> cptr \<Rightarrow> nat \<Rightarrow> nat \<Rightarrow> byte list option" where
  "strcpy_from s t i 0 = None"
| "strcpy_from s t i (Suc room) =
     (if t i \<noteq> 0 then strcpy_from (s[i := t i]) t (Suc i) room else Some (s[i := t i]))"

definition strcpy :: "byte list \<Rightarrow> cptr \<Rightarrow> byte list option" where
  "strcpy s t = strcpy_from s t 0 (length s)"

text \<open>\<^verbatim>\<open>strchr\<close> on the bytes from the pointer to the end of their array: the outer \<open>None\<close> is running off the
  array, \<open>Some None\<close> the null pointer.\<close>

fun strchr :: "byte list \<Rightarrow> byte \<Rightarrow> nat option option" where
  "strchr [] c = None"
| "strchr (x # xs) c =
     (if x = 0 then Some None
      else if x = c then Some (Some 0)
      else map_option (map_option Suc) (strchr xs c))"

text \<open>\<^verbatim>\<open>strchr(set, c)\<close> for a string constant.\<close>

definition in_set :: "byte list \<Rightarrow> byte \<Rightarrow> bool" where
  "in_set cs c = (case strchr (cs @ [0]) c of Some (Some i) \<Rightarrow> True | _ \<Rightarrow> False)"

section \<open>Reading\<close>

text \<open>\<^verbatim>\<open>read(fd, p, n)\<close> delivers at most \<open>n\<close> bytes of the first pending transfer; an empty transfer or the end of
  the list is the end of the file.\<close>

fun uread :: "nat \<Rightarrow> byte list list \<Rightarrow> byte list \<times> byte list list" where
  "uread n [] = ([], [])"
| "uread n (c # cs) =
     (take n c, if length c \<le> n then cs else drop n c # cs)"

text \<open>The loop of \<^verbatim>\<open>gets\<close>, one character per call of \<^verbatim>\<open>read\<close>; \<open>room\<close> is \<^verbatim>\<open>max - 1 - i\<close>.\<close>

fun gets_from :: "nat \<Rightarrow> byte list list \<Rightarrow> byte list \<times> byte list list" where
  "gets_from 0 src = ([], src)"
| "gets_from (Suc room) src =
     (case uread 1 src of
        ([], src') \<Rightarrow> ([], src')
      | (c # _, src') \<Rightarrow>
          if c = 10 \<or> c = 13 then ([c], src')
          else (let (cs, src'') = gets_from room src' in (c # cs, src'')))"

definition gets :: "byte list \<Rightarrow> nat \<Rightarrow> byte list list \<Rightarrow> byte list \<times> byte list list" where
  "gets buf n src =
     (let (cs, src') = gets_from (n - 1) src in (cs @ [0] @ drop (length cs + 1) buf, src'))"

section \<open>Formatted output\<close>

definition udigit :: "nat \<Rightarrow> byte" where
  "udigit d = (if d < 10 then of_nat (48 + d) else of_nat (55 + d))"

function udigits_rev :: "nat \<Rightarrow> nat \<Rightarrow> byte list" where
  "udigits_rev base x =
     udigit (x mod base) # (if base < 2 \<or> x div base = 0 then [] else udigits_rev base (x div base))"
  by pat_completeness auto
termination
  by (relation "measure snd") (auto intro!: div_less_dividend simp: not_less intro: gr0I)

declare udigits_rev.simps [simp del]

definition uprintint :: "uint \<Rightarrow> nat \<Rightarrow> bool \<Rightarrow> byte list" where
  "uprintint xx base sgn' =
     (let neg = sgn' \<and> sint xx < 0;
          x = (if neg then - xx else xx);
          buf = udigits_rev base (unat x) @ (if neg then [45] else [])
      in rev buf)"

datatype parg = PInt uint | PStr "byte list option"

fun printf_from :: "bool \<Rightarrow> byte list \<Rightarrow> parg list \<Rightarrow> byte list option" where
  "printf_from pct [] ap = Some []"
| "printf_from False (c # fmt) ap =
     (if c = 37 then printf_from True fmt ap else map_option ((#) c) (printf_from False fmt ap))"
| "printf_from True (c # fmt) ap =
     (if c = 100 then
        (case ap of PInt x # ap \<Rightarrow> map_option ((@) (uprintint x 10 True)) (printf_from False fmt ap) | _ \<Rightarrow> None)
      else if c = 120 \<or> c = 112 then
        (case ap of PInt x # ap \<Rightarrow> map_option ((@) (uprintint x 16 False)) (printf_from False fmt ap) | _ \<Rightarrow> None)
      else if c = 115 then
        (case ap of
           PStr (Some t) # ap \<Rightarrow> map_option ((@) t) (printf_from False fmt ap)
         | PStr None # ap \<Rightarrow> map_option ((@) [40, 110, 117, 108, 108, 41]) (printf_from False fmt ap)
         | _ \<Rightarrow> None)
      else if c = 99 then
        (case ap of PInt x # ap \<Rightarrow> map_option ((#) (ucast x)) (printf_from False fmt ap) | _ \<Rightarrow> None)
      else if c = 37 then map_option ((#) c) (printf_from False fmt ap)
      else map_option ((@) [37, c]) (printf_from False fmt ap))"

definition printf :: "byte list \<Rightarrow> parg list \<Rightarrow> byte list option" where
  "printf fmt ap = printf_from False fmt ap"

section \<open>Lemmas\<close>

lemma strcpy_from_ok:
  assumes "cstr (\<lambda>k. t (i + k)) xs" and "length xs < room" and "length s = i + room"
  shows "strcpy_from s t i room = Some (take i s @ xs @ [0] @ drop (i + length xs + 1) s)"
  using assms
proof (induction xs arbitrary: s i room)
  case Nil
  then obtain r where "room = Suc r" by (cases room) auto
  with Nil show ?case by (simp add: cstr_def upd_conv_take_nth_drop)
next
  case (Cons x xs)
  then obtain r where r: "room = Suc r" by (cases room) auto
  have x: "t i = x" "x \<noteq> 0" and rest: "cstr (\<lambda>k. t (Suc i + k)) xs"
    using Cons.prems(1) by (auto simp: cstr_def dest: spec [of _ "Suc _"])
  have "strcpy_from (s[i := x]) t (Suc i) r
      = Some (take (Suc i) (s[i := x]) @ xs @ [0] @ drop (Suc i + length xs + 1) (s[i := x]))"
    using Cons.prems r by (intro Cons.IH rest) auto
  then show ?case
    using Cons.prems r x by (simp add: take_Suc_conv_app_nth)
qed

lemma strcpy_ok:
  "cstr t xs \<Longrightarrow> length xs < length s \<Longrightarrow> strcpy s t = Some (xs @ [0] @ drop (length xs + 1) s)"
  using strcpy_from_ok [of t 0 xs "length s" s] by (simp add: strcpy_def)

lemma strchr_None:
  "c \<notin> set xs \<Longrightarrow> 0 \<notin> set xs \<Longrightarrow> strchr (xs @ 0 # ys) c = Some None"
  by (induction xs) auto

lemma strchr_Some:
  "c \<notin> set xs \<Longrightarrow> 0 \<notin> set xs \<Longrightarrow> c \<noteq> 0 \<Longrightarrow> strchr (xs @ c # ys) c = Some (Some (length xs))"
  by (induction xs) auto

lemma in_set_iff: "0 \<notin> set cs \<Longrightarrow> in_set cs c \<longleftrightarrow> c \<in> set cs"
proof (induction cs)
  case (Cons x cs)
  then show ?case
    by (auto simp: in_set_def split: option.splits)
qed (simp add: in_set_def)

end
