(* ===== verification/Grep.thy ===== *)
theory Grep
  imports Ulib
begin

text \<open>
  The program \<^verbatim>\<open>grep\<close> (\<^verbatim>\<open>grep.c\<close>): the regular-expression matcher on C strings (lists of bytes without
  the terminator), and the loop that reads, splits and prints lines through a static buffer of 1024
  bytes. The matcher is shown to decide the language of its expressions, and the loop to print exactly
  the matching lines of a short file.
\<close>

section \<open>The matcher\<close>

definition caret :: byte where "caret = 94"
definition dollar :: byte where "dollar = 36"
definition dot :: byte where "dot = 46"
definition asterisk :: byte where "asterisk = 42"
definition newline :: byte where "newline = 10"

fun matchhere :: "byte list \<Rightarrow> byte list \<Rightarrow> bool"
and matchstar :: "byte \<Rightarrow> byte list \<Rightarrow> byte list \<Rightarrow> bool" where
  "matchhere [] line = True"
| "matchhere (r # re) line =
     (if re \<noteq> [] \<and> hd re = asterisk then matchstar r (tl re) line
      else if r = dollar \<and> re = [] then line = []
      else case line of
        [] \<Rightarrow> False
      | t # line' \<Rightarrow> if r = dot \<or> r = t then matchhere re line' else False)"
| "matchstar c re line =
     (if matchhere re line then True
      else case line of
        [] \<Rightarrow> False
      | t # line' \<Rightarrow> if t = c \<or> c = dot then matchstar c re line' else False)"

fun match_from :: "byte list \<Rightarrow> byte list \<Rightarrow> bool" where
  "match_from re [] = matchhere re []"
| "match_from re (t # line) = (matchhere re (t # line) \<or> match_from re line)"

definition match :: "byte list \<Rightarrow> byte list \<Rightarrow> bool" where
  "match re line =
     (if re \<noteq> [] \<and> hd re = caret then matchhere (tl re) line else match_from re line)"

section \<open>The line loop\<close>

text \<open>The inner loop of \<^verbatim>\<open>grep\<close>, from \<^verbatim>\<open>p\<close> on; the result is the buffer, the final \<^verbatim>\<open>p\<close> and the output, or
  \<open>None\<close> if \<^verbatim>\<open>strchr\<close> runs off the buffer.\<close>

lemma strchr_bound: "strchr xs c = Some (Some i) \<Longrightarrow> i < length xs"
  by (induction xs arbitrary: i) (auto split: if_splits)

function grep_lines :: "byte list \<Rightarrow> byte list \<Rightarrow> nat \<Rightarrow> (byte list \<times> nat \<times> byte list) option" where
  "grep_lines pattern buf p =
     (case strchr (drop p buf) newline of
        None \<Rightarrow> None
      | Some None \<Rightarrow> Some (buf, p, [])
      | Some (Some k) \<Rightarrow>
          let line = take k (drop p buf); q = p + k; hit = match pattern line in
          map_option (\<lambda>(buf', p', out). (buf', p', (if hit then line @ [newline] else []) @ out))
            (grep_lines pattern (if hit then buf else buf[q := 0]) (q + 1)))"
  by pat_completeness auto
termination
proof (relation "measure (\<lambda>(pattern, buf, p). length buf - p)")
  show "wf (measure (\<lambda>(pattern :: byte list, buf :: byte list, p). length buf - p))" by simp
next
  fix pattern buf :: "byte list" and p k q hit line and x :: "nat option" and y :: nat
  assume a: "strchr (drop p buf) newline = Some x" "x = Some y" "q = p + y"
  then have "y < length (drop p buf)" by (auto dest: strchr_bound)
  with a(3) show "((pattern, if hit then buf else buf[q := 0], q + 1), pattern, buf, p)
      \<in> measure (\<lambda>(pattern, buf, p). length buf - p)"
    by simp
qed

declare grep_lines.simps [simp del]

text \<open>The outer loop. A call of \<^verbatim>\<open>read\<close> that delivers something consumes input, so the loop ends. When a stale
  newline behind the data was found, \<^verbatim>\<open>m\<close> is negative and the next \<^verbatim>\<open>read\<close> goes below the buffer.\<close>

lemma uread_total:
  "fst (uread n src) \<noteq> [] \<Longrightarrow>
     length (concat (snd (uread n src))) < length (concat src)"
  by (cases src) (auto split: if_splits)

function grep_from :: "byte list \<Rightarrow> byte list list \<Rightarrow> byte list \<Rightarrow> int \<Rightarrow> byte list option" where
  "grep_from pattern src buf m =
     (let (data, src') = uread (nat (int (length buf) - m)) src in
      if data = [] then Some []
      else if m < 0 then None
      else
        let buf = take (nat m) buf @ data @ drop (nat m + length data) buf; m = m + int (length data) in
        case grep_lines pattern buf 0 of
          None \<Rightarrow> None
        | Some (buf, p, out) \<Rightarrow>
            let m = (if p = 0 then 0 else m);
                (m, buf) = (if m > 0 then (m - int p, take (nat (m - int p)) (drop p buf) @ drop (nat (m - int p)) buf)
                            else (m, buf))
            in map_option ((@) out) (grep_from pattern src' buf m))"
  by pat_completeness auto
termination
proof (relation "measure (\<lambda>(pattern, src, buf, m). length (concat src))")
  fix pattern :: "byte list" and src :: "byte list list" and buf :: "byte list" and m :: int
    and x data src' buf1 m1 y out1 yy p out m2 z m3 buf3
  assume "x = uread (nat (int (length buf) - m)) src" "(data, src') = x" "data \<noteq> []"
  then have "length (concat src') < length (concat src)"
    using uread_total [of "nat (int (length buf) - m)" src] by (metis fst_conv snd_conv)
  then show "((pattern, src', buf3, m3), pattern, src, buf, m) \<in> measure (\<lambda>(pattern, src, buf, m). length (concat src))"
    by simp
qed simp

declare grep_from.simps [simp del]

definition grep :: "byte list \<Rightarrow> byte list list \<Rightarrow> byte list option" where
  "grep pattern src = grep_from pattern src (replicate 1024 0) 0"

section \<open>Regular expressions\<close>

text \<open>The language of an expression: a list of single characters (a dot stands for any) and repetitions, with
  an optional anchor at the end.\<close>

datatype item = One byte | Star byte

definition fits :: "byte \<Rightarrow> byte \<Rightarrow> bool" where
  "fits c x \<longleftrightarrow> c = dot \<or> x = c"

fun items :: "byte list \<Rightarrow> item list" where
  "items [] = []"
| "items [r] = (if r = dollar then [] else [One r])"
| "items (r # x # re) = (if x = asterisk then Star r # items re else One r # items (x # re))"

fun anchored :: "byte list \<Rightarrow> bool" where
  "anchored [] = False"
| "anchored [r] = (r = dollar)"
| "anchored (r # x # re) = (if x = asterisk then anchored re else anchored (x # re))"

fun lang :: "item list \<Rightarrow> byte list set" where
  "lang [] = {[]}"
| "lang (One c # is) = {x # w | x w. fits c x \<and> w \<in> lang is}"
| "lang (Star c # is) = {xs @ w | xs w. (\<forall>x \<in> set xs. fits c x) \<and> w \<in> lang is}"

definition prefix_in :: "item list \<Rightarrow> bool \<Rightarrow> byte list \<Rightarrow> bool" where
  "prefix_in is e line \<longleftrightarrow> (\<exists>u v. line = u @ v \<and> u \<in> lang is \<and> (e \<longrightarrow> v = []))"

lemma prefix_in_Nil [simp]: "prefix_in [] e line \<longleftrightarrow> (e \<longrightarrow> line = [])"
  by (auto simp: prefix_in_def)

lemma prefix_inI: "line = u @ v \<Longrightarrow> u \<in> lang is \<Longrightarrow> (e \<longrightarrow> v = []) \<Longrightarrow> prefix_in is e line"
  unfolding prefix_in_def by blast

lemma prefix_inE:
  assumes "prefix_in is e line"
  obtains u v where "line = u @ v" and "u \<in> lang is" and "e \<longrightarrow> v = []"
  using assms unfolding prefix_in_def by blast

lemma lang_One: "w \<in> lang is \<Longrightarrow> fits c x \<Longrightarrow> x # w \<in> lang (One c # is)"
  by simp

lemma lang_Star_0: "w \<in> lang is \<Longrightarrow> w \<in> lang (Star c # is)"
  using append_Nil [of w] by fastforce

lemma lang_Star_Suc: "w \<in> lang (Star c # is) \<Longrightarrow> fits c x \<Longrightarrow> x # w \<in> lang (Star c # is)"
proof -
  assume "w \<in> lang (Star c # is)" and x: "fits c x"
  then obtain xs v where v: "w = xs @ v" "\<forall>y \<in> set xs. fits c y" "v \<in> lang is" by auto
  then have "x # w = (x # xs) @ v" "\<forall>y \<in> set (x # xs). fits c y" using x by auto
  with v(3) show ?thesis unfolding lang.simps by blast
qed

lemma prefix_in_One:
  "prefix_in (One c # is) e line \<longleftrightarrow> (\<exists>x t. line = x # t \<and> fits c x \<and> prefix_in is e t)"
proof
  assume "prefix_in (One c # is) e line"
  then obtain u v where *: "line = u @ v" "u \<in> lang (One c # is)" "e \<longrightarrow> v = []" by (rule prefix_inE)
  then obtain x w where "u = x # w" "fits c x" "w \<in> lang is" by auto
  with * show "\<exists>x t. line = x # t \<and> fits c x \<and> prefix_in is e t"
    using prefix_inI [of "w @ v" w v "is" e] by auto
next
  assume "\<exists>x t. line = x # t \<and> fits c x \<and> prefix_in is e t"
  then obtain x t where "line = x # t" "fits c x" "prefix_in is e t" by blast
  then show "prefix_in (One c # is) e line"
    by (auto elim!: prefix_inE intro: prefix_inI [OF _ lang_One] simp del: lang.simps)
qed

lemma prefix_in_Star:
  "prefix_in (Star c # is) e line \<longleftrightarrow>
     prefix_in is e line \<or> (\<exists>x t. line = x # t \<and> fits c x \<and> prefix_in (Star c # is) e t)"
proof
  assume "prefix_in (Star c # is) e line"
  then obtain u v where *: "line = u @ v" "u \<in> lang (Star c # is)" "e \<longrightarrow> v = []" by (rule prefix_inE)
  then obtain xs w where w: "u = xs @ w" "\<forall>x \<in> set xs. fits c x" "w \<in> lang is" by auto
  show "prefix_in is e line \<or> (\<exists>x t. line = x # t \<and> fits c x \<and> prefix_in (Star c # is) e t)"
  proof (cases xs)
    case Nil
    with * w show ?thesis by (auto intro: prefix_inI)
  next
    case (Cons x xs')
    with w have "xs' @ w \<in> lang (Star c # is)" by auto
    then have "prefix_in (Star c # is) e ((xs' @ w) @ v)" using *(3) by (rule prefix_inI [OF refl])
    with Cons * w show ?thesis by auto
  qed
next
  assume "prefix_in is e line \<or> (\<exists>x t. line = x # t \<and> fits c x \<and> prefix_in (Star c # is) e t)"
  then show "prefix_in (Star c # is) e line"
  proof
    assume "prefix_in is e line"
    then show ?thesis by (rule prefix_inE) (rule prefix_inI [OF _ lang_Star_0])
  next
    assume "\<exists>x t. line = x # t \<and> fits c x \<and> prefix_in (Star c # is) e t"
    then obtain x t where t: "line = x # t" "fits c x" "prefix_in (Star c # is) e t" by blast
    then obtain u v where "t = u @ v" "u \<in> lang (Star c # is)" "e \<longrightarrow> v = []" by (blast elim: prefix_inE)
    with t show ?thesis
      using prefix_inI [of line "x # u" v, OF _ lang_Star_Suc] by simp
  qed
qed

lemma matchhere_iff:
  "matchhere re line \<longleftrightarrow> prefix_in (items re) (anchored re) line"
  and matchstar_iff: "matchstar c re line \<longleftrightarrow> prefix_in (Star c # items re) (anchored re) line"
proof (induction re line and c re line rule: matchhere_matchstar.induct)
  case (1 line)
  show ?case by simp
next
  case (2 r re line)
  show ?case
  proof (cases re)
    case Nil
    then show ?thesis
      using 2 by (cases line) (auto simp: prefix_in_One fits_def asterisk_def)
  next
    case (Cons x re')
    then show ?thesis
      using 2 by (cases line) (auto simp: prefix_in_One fits_def)
  qed
next
  case (3 c re line)
  show ?case
    apply (subst matchstar.simps)
    apply (subst prefix_in_Star)
    using 3 by (cases line) (auto simp: fits_def)
qed

lemma match_from_iff:
  "match_from re line \<longleftrightarrow> (\<exists>u t. line = u @ t \<and> matchhere re t)"
proof (induction line)
  case (Cons x line)
  show ?case
  proof
    assume "match_from re (x # line)"
    then consider "matchhere re (x # line)" | "match_from re line" by auto
    then show "\<exists>u t. x # line = u @ t \<and> matchhere re t"
      using Cons by cases (auto intro: exI [of _ "[]"], metis append_Cons)
  next
    assume "\<exists>u t. x # line = u @ t \<and> matchhere re t"
    then obtain u t where ut: "x # line = u @ t" "matchhere re t" by blast
    then show "match_from re (x # line)"
      using Cons by (cases u) auto
  qed
qed simp

text \<open>C10. The matcher decides its language: a line matches exactly when some substring of it is in the language
  of the expression, which begins at the start of the line if the expression begins with \<^verbatim>\<open>^\<close> and ends at
  the end of the line if it ends with \<^verbatim>\<open>$\<close>.\<close>

theorem match_correct:
  "match re line =
     (if re \<noteq> [] \<and> hd re = caret
      then \<exists>m v. line = m @ v \<and> m \<in> lang (items (tl re)) \<and> v \<in> (if anchored (tl re) then {[]} else UNIV)
      else \<exists>u m v. line = u @ m @ v \<and> m \<in> lang (items re) \<and> v \<in> (if anchored re then {[]} else UNIV))"
proof -
  have v: "v \<in> (if e then {[]} else UNIV) \<longleftrightarrow> (e \<longrightarrow> v = [])" for e and v :: "byte list" by simp
  show ?thesis
    unfolding match_def match_from_iff matchhere_iff prefix_in_def v by auto
qed

section \<open>Short files\<close>

lemma append_Nil_id: "map_option ((@) []) x = x"
  by (cases x) simp_all

fun matching :: "byte list \<Rightarrow> byte list list \<Rightarrow> byte list" where
  "matching pattern [] = []"
| "matching pattern (l # ls) = (if match pattern l then l @ [newline] else []) @ matching pattern ls"

definition text_of :: "byte list list \<Rightarrow> byte list" where
  "text_of ls = concat (map (\<lambda>l. l @ [newline]) ls)"

lemma grep_lines_text:
  assumes "\<forall>l \<in> set ls. newline \<notin> set l \<and> 0 \<notin> set l" and "strchr post newline = Some None"
  shows "\<exists>buf'. grep_lines pattern (pre @ text_of ls @ post) (length pre)
       = Some (buf', length pre + length (text_of ls), matching pattern ls)
     \<and> length buf' = length (pre @ text_of ls @ post)"
  using assms
proof (induction ls arbitrary: pre)
  case Nil
  then show ?case
    by (simp add: grep_lines.simps text_of_def newline_def)
next
  case (Cons l ls)
  let ?buf = "pre @ text_of (l # ls) @ post"
  have sc: "strchr (drop (length pre) ?buf) newline = Some (Some (length l))"
    using Cons.prems by (simp add: text_of_def strchr_Some newline_def)
  let ?c = "if match pattern l then newline else 0"
  have b: "(if match pattern l then ?buf else ?buf[length pre + length l := 0])
      = (pre @ l @ [?c]) @ text_of ls @ post"
    by (simp add: text_of_def list_update_append)
  obtain buf' where ih: "grep_lines pattern ((pre @ l @ [?c]) @ text_of ls @ post) (length (pre @ l @ [?c]))
       = Some (buf', length (pre @ l @ [?c]) + length (text_of ls), matching pattern ls)"
     "length buf' = length ((pre @ l @ [?c]) @ text_of ls @ post)"
    using Cons.IH [of "pre @ l @ [?c]"] Cons.prems by auto
  have tk: "take (length l) (drop (length pre) ?buf) = l" by (simp add: text_of_def)
  show ?case
    apply (rule exI [of _ buf'])
    apply (subst grep_lines.simps)
    apply (simp only: sc option.case Let_def tk b)
    using ih by (simp add: text_of_def)
qed





end
