(* ===== verification/Sh.thy ===== *)
theory Sh
  imports Ulib
begin

text \<open>
  The shell (\<^verbatim>\<open>sh.c\<close>): the tokenizer, the recursive-descent parser, \<^verbatim>\<open>nulterminate\<close>, the execution of a
  parsed command as a tree of system calls, and the command loop with its history. A pointer into the
  command line is an index; the command line is the list of its bytes and index \<open>length inp\<close> is its
  terminator. The parser's recursion is bounded by an argument that counts the calls that may still be
  nested; it is shown never to run out.
\<close>

section \<open>Tokens\<close>

definition whitespace :: "byte list" where "whitespace = [32, 9, 13, 10, 11]"
definition symbols :: "byte list" where "symbols = [60, 124, 62, 38, 59, 40, 41]"

definition is_ws :: "byte \<Rightarrow> bool" where "is_ws c = in_set whitespace c"
definition is_sym :: "byte \<Rightarrow> bool" where "is_sym c = in_set symbols c"
definition is_word :: "byte \<Rightarrow> bool" where "is_word c \<longleftrightarrow> \<not> is_ws c \<and> \<not> is_sym c"

definition skip_ws :: "byte list \<Rightarrow> nat \<Rightarrow> nat" where
  "skip_ws inp s = s + length (takeWhile is_ws (drop s inp))"

text \<open>\<^verbatim>\<open>gettoken\<close>: the token, its start and end, and the new position. A word is the token 97 (\<^verbatim>\<open>'a'\<close>), \<^verbatim>\<open>>>\<close> is
  43 (\<^verbatim>\<open>'+'\<close>).\<close>

definition gettoken :: "byte list \<Rightarrow> nat \<Rightarrow> byte \<times> nat \<times> nat \<times> nat" where
  "gettoken inp s =
     (let q = skip_ws inp s; c = lptr inp q;
          (ret, e) =
            (if c = 0 then (0, q)
             else if c = 124 \<or> c = 40 \<or> c = 41 \<or> c = 59 \<or> c = 38 \<or> c = 60 then (c, q + 1)
             else if c = 62 then (if lptr inp (q + 1) = 62 then (43, q + 2) else (c, q + 1))
             else (97, q + length (takeWhile is_word (drop q inp))))
      in (ret, q, e, skip_ws inp e))"

definition peek :: "byte list \<Rightarrow> nat \<Rightarrow> byte list \<Rightarrow> bool \<times> nat" where
  "peek inp s toks =
     (let s = skip_ws inp s in (lptr inp s \<noteq> 0 \<and> in_set toks (lptr inp s), s))"

definition tok_kind :: "byte list \<Rightarrow> nat \<Rightarrow> byte" where
  "tok_kind inp s = fst (gettoken inp s)"

definition tok_start :: "byte list \<Rightarrow> nat \<Rightarrow> nat" where
  "tok_start inp s = fst (snd (gettoken inp s))"

definition tok_stop :: "byte list \<Rightarrow> nat \<Rightarrow> nat" where
  "tok_stop inp s = fst (snd (snd (gettoken inp s)))"

definition tok_end :: "byte list \<Rightarrow> nat \<Rightarrow> nat" where
  "tok_end inp s = snd (snd (snd (gettoken inp s)))"

section \<open>Commands\<close>

definition MAXARGS :: nat where "MAXARGS = 10"

text \<open>A word of the line is its start and its end.\<close>

datatype cmd =
    EXEC "(nat \<times> nat) list"
  | REDIR cmd nat nat uint nat
  | PIPE cmd cmd
  | LIST cmd cmd
  | BACK cmd

text \<open>A parse ends with a result, in \<^verbatim>\<open>panic\<close> (which exits the shell's child), or out of nested calls.\<close>

datatype 'a presult = PDone 'a | PPanic string | PFuel

fun pbind :: "'a presult \<Rightarrow> ('a \<Rightarrow> 'b presult) \<Rightarrow> 'b presult" where
  "pbind (PDone x) f = f x"
| "pbind (PPanic m) f = PPanic m"
| "pbind PFuel f = PFuel"

lemma pbind_cong [fundef_cong]:
  "m = m' \<Longrightarrow> (\<And>x. m' = PDone x \<Longrightarrow> f x = g x) \<Longrightarrow> pbind m f = pbind m' g"
  by (cases m') auto

subsection \<open>Progress of the tokenizer\<close>

lemma skip_ws_ge: "s \<le> skip_ws inp s"
  by (simp add: skip_ws_def)

lemma skip_ws_le: "s \<le> length inp \<Longrightarrow> skip_ws inp s \<le> length inp"
  using length_takeWhile_le [of is_ws "drop s inp"] by (simp add: skip_ws_def)

lemma lptr_nonzero: "lptr inp s \<noteq> 0 \<Longrightarrow> s < length inp"
  by (simp add: lptr_def split: if_splits)

lemma skip_ws_not_ws: "skip_ws inp s < length inp \<Longrightarrow> \<not> is_ws (inp ! skip_ws inp s)"
proof -
  let ?t = "takeWhile is_ws (drop s inp)"
  assume a: "skip_ws inp s < length inp"
  then have "length ?t < length (drop s inp)" by (simp add: skip_ws_def)
  then have "\<not> is_ws (drop s inp ! length ?t)" by (rule nth_length_takeWhile)
  with a show ?thesis by (simp add: skip_ws_def)
qed

lemma gettoken_end:
  "gettoken inp s = (t, q, e, s') \<Longrightarrow>
     q = skip_ws inp s \<and> s' = skip_ws inp e \<and> q \<le> e \<and>
     (t \<noteq> 0 \<longrightarrow> q < length inp \<and> q < e) \<and> (s \<le> length inp \<longrightarrow> e \<le> length inp)"
proof -
  let ?q = "skip_ws inp s"
  assume g: "gettoken inp s = (t, q, e, s')"
  have w: "lptr inp ?q \<noteq> 0 \<Longrightarrow> \<not> is_sym (lptr inp ?q) \<Longrightarrow> 0 < length (takeWhile is_word (drop ?q inp))"
  proof -
    assume nz: "lptr inp ?q \<noteq> 0" and ns: "\<not> is_sym (lptr inp ?q)"
    then have lt: "?q < length inp" by (auto dest: lptr_nonzero)
    then have "is_word (inp ! ?q)" using skip_ws_not_ws [OF lt] ns by (simp add: is_word_def lptr_def)
    then have "takeWhile is_word (drop ?q inp) \<noteq> []"
      using lt by (metis Cons_nth_drop_Suc list.distinct(1) takeWhile.simps(2))
    then show ?thesis by simp
  qed
  have sym: "lptr inp ?q \<notin> {124, 40, 41, 59, 38, 60, 62} \<Longrightarrow> \<not> is_sym (lptr inp ?q)"
    by (auto simp: is_sym_def symbols_def in_set_iff)
  have le: "?q \<le> length inp \<Longrightarrow> ?q + length (takeWhile is_word (drop ?q inp)) \<le> length inp"
    using length_takeWhile_le [of is_word "drop ?q inp"] by simp
  show ?thesis
    using g w sym le lptr_nonzero [of inp ?q] lptr_nonzero [of inp "?q + 1"] skip_ws_le [of s inp]
    by (auto simp: gettoken_def Let_def split: if_splits)
qed

lemma gettoken_mono:
  assumes "gettoken inp s = (t, q, e, s')"
  shows "s \<le> s'"
proof -
  from gettoken_end [OF assms] have "q = skip_ws inp s" "s' = skip_ws inp e" "q \<le> e" by blast+
  with skip_ws_ge [of s inp] skip_ws_ge [of e inp] show ?thesis by (metis order_trans)
qed

lemma gettoken_progress:
  assumes "gettoken inp s = (t, q, e, s')" and "t \<noteq> 0"
  shows "s < s' \<and> s < length inp"
proof -
  from gettoken_end [OF assms(1)] assms(2)
  have "skip_ws inp s < length inp" "skip_ws inp s < e" "s' = skip_ws inp e" by blast+
  with skip_ws_ge [of s inp] skip_ws_ge [of e inp] show ?thesis by linarith
qed

lemma peek_at:
  assumes "peek inp s toks = (b, s')"
  shows "s' = skip_ws inp s" and "s \<le> s'" and "b \<Longrightarrow> s' < length inp \<and> inp ! s' \<noteq> 0 \<and> in_set toks (inp ! s')"
proof -
  from assms have b: "b = (lptr inp (skip_ws inp s) \<noteq> 0 \<and> in_set toks (lptr inp (skip_ws inp s)))" and s': "s' = skip_ws inp s"
    unfolding peek_def Let_def prod.inject by blast+
  show "s' = skip_ws inp s" by (rule s')
  show "s \<le> s'" unfolding s' by (rule skip_ws_ge)
  show "s' < length inp \<and> inp ! s' \<noteq> 0 \<and> in_set toks (inp ! s')" if "b"
  proof -
    from b that have nz: "lptr inp s' \<noteq> 0" "in_set toks (lptr inp s')" by (simp_all add: s')
    then have "s' < length inp" by (simp add: lptr_nonzero)
    with nz show ?thesis by (simp add: lptr_def)
  qed
qed

lemma skip_ws_idem: "skip_ws inp (skip_ws inp s) = skip_ws inp s"
proof (cases "skip_ws inp s < length inp")
  case True
  then have "takeWhile is_ws (drop (skip_ws inp s) inp) = []"
    using skip_ws_not_ws [OF True] by (metis Cons_nth_drop_Suc takeWhile.simps(2))
  then show ?thesis by (simp add: skip_ws_def [of inp "skip_ws inp s"])
qed (simp add: skip_ws_def [of inp "skip_ws inp s"])

lemma peek_gettoken:
  assumes "peek inp s toks = (True, s1)" and "gettoken inp s1 = (t, q, e, s2)"
  shows "s < s2" and "s < length inp" and "t \<noteq> 0"
proof -
  note a = peek_at(2) [OF assms(1)] conjunct1 [OF peek_at(3) [OF assms(1) TrueI]]
    conjunct1 [OF conjunct2 [OF peek_at(3) [OF assms(1) TrueI]]] peek_at(1) [OF assms(1)]
  have q: "skip_ws inp s1 = s1" unfolding a(4) by (rule skip_ws_idem)
  with a(2,3) have "lptr inp (skip_ws inp s1) \<noteq> 0" by (simp add: lptr_def)
  then show t: "t \<noteq> 0" using assms(2) by (auto simp: gettoken_def Let_def split: if_splits)
  from gettoken_progress [OF assms(2) t] a(1) show "s < s2" "s < length inp" by linarith+
qed

lemma gettoken_parts: "gettoken inp s = (tok_kind inp s, tok_start inp s, tok_stop inp s, tok_end inp s)"
  by (simp add: tok_kind_def tok_start_def tok_stop_def tok_end_def)

lemma peek_gettoken_pos: "fst (peek inp s toks) \<Longrightarrow> s < tok_end inp (snd (peek inp s toks)) \<and> s < length inp"
proof -
  assume "fst (peek inp s toks)"
  then have p: "peek inp s toks = (True, snd (peek inp s toks))" by (cases "peek inp s toks") simp
  from peek_gettoken [OF p gettoken_parts] show ?thesis by simp
qed

lemma tok_end_ge: "s \<le> tok_end inp s"
  by (rule gettoken_mono [OF gettoken_parts])

section \<open>The parser\<close>

lemma tok_end_progress: "tok_kind inp s \<noteq> 0 \<Longrightarrow> s < tok_end inp s \<and> s < length inp"
  by (rule gettoken_progress [OF gettoken_parts])

text \<open>The \<^verbatim>\<open>switch\<close> of \<^verbatim>\<open>parseredirs\<close>.\<close>

definition redir_of :: "byte \<Rightarrow> cmd \<Rightarrow> nat \<Rightarrow> nat \<Rightarrow> cmd" where
  "redir_of tok c q e =
     (if tok = 60 then REDIR c q e O_RDONLY 0
      else if tok = 62 then REDIR c q e (O_WRONLY OR O_CREATE) 1
      else if tok = 43 then REDIR c q e (O_WRONLY OR O_CREATE) 1
      else c)"

function parseredirs :: "byte list \<Rightarrow> cmd \<Rightarrow> nat \<Rightarrow> (cmd \<times> nat) presult" where
  "parseredirs inp c s =
     (let s1 = snd (peek inp s [60, 62]); s2 = tok_end inp s1 in
      if fst (peek inp s [60, 62]) then
        if tok_kind inp s2 \<noteq> 97 then PPanic ''missing file for redirection''
        else
          parseredirs inp (redir_of (tok_kind inp s1) c (tok_start inp s2) (tok_stop inp s2)) (tok_end inp s2)
      else PDone (c, s1))"
  by pat_completeness auto
termination
proof (relation "measure (\<lambda>(inp, c, s). length inp - s)", simp)
  show "((inp, c', tok_end inp s2), inp, c, s) \<in> measure (\<lambda>(inp, c, s). length inp - s)"
    if "s1 = snd (peek inp s [60, 62])" "s2 = tok_end inp s1" "fst (peek inp s [60, 62])" for inp s s1 s2 and c c' :: cmd
    using that peek_gettoken_pos [OF that(3)] tok_end_ge [of s2 inp] by (auto intro: diff_less_mono2)
qed

declare parseredirs.simps [simp del]

text \<open>The leaf that \<^verbatim>\<open>parseexec\<close> fills through its pointer \<^verbatim>\<open>cmd\<close> while redirections are wrapped around it.\<close>

fun put_argv :: "(nat \<times> nat) list \<Rightarrow> cmd \<Rightarrow> cmd" where
  "put_argv args (REDIR c q e mode fd) = REDIR (put_argv args c) q e mode fd"
| "put_argv args c = EXEC args"

lemma parseredirs_end:
  "\<not> fst (peek inp s [60, 62]) \<Longrightarrow> parseredirs inp c s = PDone (c, snd (peek inp s [60, 62]))"
  by (subst parseredirs.simps) (simp add: Let_def)

lemma parseredirs_step:
  assumes "fst (peek inp s [60, 62])" and "s1 = snd (peek inp s [60, 62])" and "s2 = tok_end inp s1"
  shows "parseredirs inp c s =
    (if tok_kind inp s2 \<noteq> 97 then PPanic ''missing file for redirection''
     else parseredirs inp (redir_of (tok_kind inp s1) c (tok_start inp s2) (tok_stop inp s2)) (tok_end inp s2))"
  using assms by (subst parseredirs.simps) (simp add: Let_def)

lemma peek_pos_ge: "s \<le> snd (peek inp s toks)"
  using skip_ws_ge [of s inp] by (simp add: peek_def Let_def)

lemma parseredirs_mono: "parseredirs inp c s = PDone (c', s') \<Longrightarrow> s \<le> s'"
proof (induction inp c s rule: parseredirs.induct)
  case (1 inp c s)
  define s1 where "s1 = snd (peek inp s [60, 62])"
  define s2 where "s2 = tok_end inp s1"
  show ?case
  proof (cases "fst (peek inp s [60, 62])")
    case True
    note step = parseredirs_step [OF True s1_def s2_def]
    from 1(2) have k: "\<not> tok_kind inp s2 \<noteq> 97" unfolding step by (cases "tok_kind inp s2 = 97") simp_all
    from 1(2) have r: "parseredirs inp (redir_of (tok_kind inp s1) c (tok_start inp s2) (tok_stop inp s2)) (tok_end inp s2) = PDone (c', s')"
      unfolding step using k by simp
    have "tok_end inp s2 \<le> s'" by (rule 1(1) [OF s1_def s2_def True k r])
    moreover have "s < s2" using peek_gettoken_pos [OF True] by (simp add: s1_def s2_def)
    ultimately show ?thesis using tok_end_ge [of s2 inp] by linarith
  next
    case False
    with 1(2) have "s' = snd (peek inp s [60, 62])" by (simp add: parseredirs_end)
    then show ?thesis using peek_pos_ge by simp
  qed
qed

text \<open>The loop of \<^verbatim>\<open>parseexec\<close> over the arguments.\<close>

function parseargs :: "byte list \<Rightarrow> (nat \<times> nat) list \<Rightarrow> cmd \<Rightarrow> nat \<Rightarrow> (cmd \<times> nat) presult" where
  "parseargs inp args ret s =
     (let s1 = snd (peek inp s [124, 41, 38, 59]) in
      if fst (peek inp s [124, 41, 38, 59]) then PDone (put_argv args ret, s1)
      else if tok_kind inp s1 = 0 then PDone (put_argv args ret, tok_end inp s1)
      else if tok_kind inp s1 \<noteq> 97 then PPanic ''syntax''
      else if length args + 1 \<ge> MAXARGS then PPanic ''too many args''
      else
        pbind (parseredirs inp ret (tok_end inp s1)) (\<lambda>r.
        parseargs inp (args @ [(tok_start inp s1, tok_stop inp s1)]) (fst r) (snd r)))"
  by pat_completeness auto
termination
proof (relation "measure (\<lambda>(inp, args, ret, s). length inp - s)", simp)
  show "((inp, as', fst r, snd r), inp, args, ret, s) \<in> measure (\<lambda>(inp, args, ret, s). length inp - s)"
    if "s1 = snd (peek inp s [124, 41, 38, 59])" "tok_kind inp s1 \<noteq> 0" "parseredirs inp ret (tok_end inp s1) = PDone r"
    for inp s s1 r and args as' :: "(nat \<times> nat) list" and ret
  proof -
    have "tok_end inp s1 \<le> snd r" using parseredirs_mono [of inp ret "tok_end inp s1" "fst r" "snd r"] that(3) by simp
    moreover have "s \<le> s1" using that(1) peek_pos_ge by simp
    ultimately have "s < snd r" "s < length inp" using tok_end_progress [OF that(2)] by linarith+
    then show ?thesis by (simp add: split_beta diff_less_mono2)
  qed
qed

declare parseargs.simps [simp del]

text \<open>The loop of \<^verbatim>\<open>parseline\<close> over \<^verbatim>\<open>&\<close>.\<close>

function parseback :: "byte list \<Rightarrow> cmd \<Rightarrow> nat \<Rightarrow> cmd \<times> nat" where
  "parseback inp c s =
     (let s1 = snd (peek inp s [38]) in
      if fst (peek inp s [38]) then parseback inp (BACK c) (tok_end inp s1) else (c, s1))"
  by pat_completeness auto
termination
  by (relation "measure (\<lambda>(inp, c, s). length inp - s)") (auto dest: peek_gettoken_pos)

declare parseback.simps [simp del]

fun parseline :: "nat \<Rightarrow> byte list \<Rightarrow> nat \<Rightarrow> (cmd \<times> nat) presult"
and parsepipe :: "nat \<Rightarrow> byte list \<Rightarrow> nat \<Rightarrow> (cmd \<times> nat) presult"
and parseexec :: "nat \<Rightarrow> byte list \<Rightarrow> nat \<Rightarrow> (cmd \<times> nat) presult"
and parseblock :: "nat \<Rightarrow> byte list \<Rightarrow> nat \<Rightarrow> (cmd \<times> nat) presult" where
  "parseline 0 inp s = PFuel"
| "parseline (Suc d) inp s =
     pbind (parsepipe d inp s) (\<lambda>(c, s).
     let (c, s) = parseback inp c s; (b, s) = peek inp s [59] in
     if b then pbind (parseline d inp (tok_end inp s)) (\<lambda>(c', s). PDone (LIST c c', s))
     else PDone (c, s))"
| "parsepipe 0 inp s = PFuel"
| "parsepipe (Suc d) inp s =
     pbind (parseexec d inp s) (\<lambda>(c, s).
     let (b, s) = peek inp s [124] in
     if b then pbind (parsepipe d inp (tok_end inp s)) (\<lambda>(c', s). PDone (PIPE c c', s))
     else PDone (c, s))"
| "parseexec 0 inp s = PFuel"
| "parseexec (Suc d) inp s =
     (let (b, s) = peek inp s [40] in
      if b then parseblock d inp s
      else pbind (parseredirs inp (EXEC []) s) (\<lambda>(ret, s). parseargs inp [] ret s))"
| "parseblock 0 inp s = PFuel"
| "parseblock (Suc d) inp s =
     (let (b, s) = peek inp s [40] in
      if \<not> b then PPanic ''parseblock''
      else
        pbind (parseline d inp (tok_end inp s)) (\<lambda>(c, s).
        let (b, s) = peek inp s [41] in
        if \<not> b then PPanic ''syntax - missing )''
        else parseredirs inp c (tok_end inp s)))"

text \<open>Every stretch of four nested calls consumes a parenthesis or a semicolon.\<close>

definition parse_depth :: "byte list \<Rightarrow> nat" where
  "parse_depth inp = 4 * length inp + 4"

text \<open>\<^verbatim>\<open>nulterminate\<close> stores a NUL at the end of every word.\<close>

fun nulterminate :: "cmd \<Rightarrow> byte list \<Rightarrow> byte list" where
  "nulterminate (EXEC args) b = foldl (\<lambda>b (q, e). b[e := 0]) b args"
| "nulterminate (REDIR c q e mode fd) b = (nulterminate c b)[e := 0]"
| "nulterminate (PIPE l r) b = nulterminate r (nulterminate l b)"
| "nulterminate (LIST l r) b = nulterminate r (nulterminate l b)"
| "nulterminate (BACK c) b = nulterminate c b"

definition parsecmd :: "byte list \<Rightarrow> (cmd \<times> byte list) presult" where
  "parsecmd inp =
     pbind (parseline (parse_depth inp) inp 0) (\<lambda>(c, s).
     if snd (peek inp s []) \<noteq> length inp then PPanic ''syntax''
     else PDone (c, nulterminate c (inp @ [0])))"

section \<open>Running a command\<close>

definition cstring :: "byte list \<Rightarrow> byte list" where
  "cstring xs = takeWhile (\<lambda>c. c \<noteq> 0) xs"

text \<open>A command whose words are the strings its pointers stand for, in the line that \<^verbatim>\<open>nulterminate\<close> left.\<close>

datatype scmd =
    SEXEC "byte list list"
  | SREDIR scmd "byte list" uint nat
  | SPIPE scmd scmd
  | SLIST scmd scmd
  | SBACK scmd

fun resolve :: "byte list \<Rightarrow> cmd \<Rightarrow> scmd" where
  "resolve b (EXEC args) = SEXEC (map (\<lambda>(q, e). cstring (drop q b)) args)"
| "resolve b (REDIR c q e mode fd) = SREDIR (resolve b c) (cstring (drop q b)) mode fd"
| "resolve b (PIPE l r) = SPIPE (resolve b l) (resolve b r)"
| "resolve b (LIST l r) = SLIST (resolve b l) (resolve b r)"
| "resolve b (BACK c) = SBACK (resolve b c)"

text \<open>
  The system calls of a shell process. A call that can fail has a branch for failure and one for
  success; \<open>PFork\<close> has the branches of a failed call, of the child and of the parent. \<open>PipeR\<close> and \<open>PipeW\<close>
  are \<^verbatim>\<open>p[0]\<close> and \<^verbatim>\<open>p[1]\<close> of the last \<^verbatim>\<open>pipe\<close>.
\<close>

datatype fdref = Fd nat | PipeR | PipeW

datatype prog =
    PExit
  | PExec "byte list list" prog
  | PPrintf nat "byte list" prog
  | PClose fdref prog
  | PDup fdref prog
  | POpen "byte list" uint prog prog
  | PPipe prog prog
  | PFork prog prog prog
  | PWait prog

definition ascii :: "string \<Rightarrow> byte list" where
  "ascii cs = map (\<lambda>c. of_nat (of_char c)) cs"

definition sh_panic :: "string \<Rightarrow> prog" where
  "sh_panic m = PPrintf 2 (ascii m @ [10]) PExit"

definition fork1 :: "prog \<Rightarrow> prog \<Rightarrow> prog" where
  "fork1 child par = PFork (sh_panic ''fork'') child par"

fun runcmd :: "scmd \<Rightarrow> prog" where
  "runcmd (SEXEC []) = PExit"
| "runcmd (SEXEC (a # as)) =
     PExec (a # as) (PPrintf 2 (ascii ''exec '' @ a @ ascii '' failed'' @ [10]) PExit)"
| "runcmd (SREDIR c f mode fd) =
     PClose (Fd fd)
       (POpen f mode (PPrintf 2 (ascii ''open '' @ f @ ascii '' failed'' @ [10]) PExit) (runcmd c))"
| "runcmd (SLIST l r) = fork1 (runcmd l) (PWait (runcmd r))"
| "runcmd (SPIPE l r) =
     PPipe (sh_panic ''pipe'')
       (fork1 (PClose (Fd 1) (PDup PipeW (PClose PipeR (PClose PipeW (runcmd l)))))
         (fork1 (PClose (Fd 0) (PDup PipeR (PClose PipeR (PClose PipeW (runcmd r)))))
           (PClose PipeR (PClose PipeW (PWait (PWait PExit))))))"
| "runcmd (SBACK c) = fork1 (runcmd c) PExit"

section \<open>History\<close>

text \<open>The array \<^verbatim>\<open>history\<close> of 100 strings of 100 bytes, of which \<^verbatim>\<open>historyUpdate\<close> uses ten; \<open>None\<close> is an access
  outside an array.\<close>

type_synonym hist = "byte list list"

definition MAX_HISTORY :: int where "MAX_HISTORY = 10"

text \<open>C's remainder, which has the sign of the dividend.\<close>

definition crem :: "int \<Rightarrow> int \<Rightarrow> int" where
  "crem a b = (if a \<ge> 0 then a mod b else - ((- a) mod b))"

definition hist_at :: "hist \<Rightarrow> int \<Rightarrow> byte list option" where
  "hist_at h i = (if 0 \<le> i \<and> nat i < length h then Some (h ! nat i) else None)"

definition historyUpdate :: "hist \<Rightarrow> byte list \<Rightarrow> int \<Rightarrow> (hist \<times> int) option" where
  "historyUpdate h args histNum =
     (let index = crem histNum MAX_HISTORY in
      case hist_at h index of
        None \<Rightarrow> None
      | Some slot \<Rightarrow>
          (case strcpy slot (lptr args) of
             None \<Rightarrow> None
           | Some slot' \<Rightarrow> Some (h[nat index := slot'], histNum + 1)))"

definition lastHistory :: "hist \<Rightarrow> byte list \<Rightarrow> int \<Rightarrow> byte list option" where
  "lastHistory h buffer histNum =
     (case hist_at h (crem (histNum - 1) 10) of
        None \<Rightarrow> None
      | Some slot \<Rightarrow> strcpy buffer (lptr slot))"

text \<open>\<^verbatim>\<open>historyIndex-1 % 10\<close> is \<^verbatim>\<open>historyIndex - (1 % 10)\<close>.\<close>

definition chooseFromHistory :: "hist \<Rightarrow> int \<Rightarrow> int \<Rightarrow> byte list option" where
  "chooseFromHistory h histNum historyIndex = hist_at h (historyIndex - crem 1 10)"

text \<open>A loop of \<^verbatim>\<open>historyOut\<close>: \<open>k\<close> entries downwards from \<open>loc\<close>, numbered from \<open>line\<close>.\<close>

fun hist_down :: "nat \<Rightarrow> hist \<Rightarrow> int \<Rightarrow> int \<Rightarrow> (int \<times> byte list) list option" where
  "hist_down 0 h loc line = Some []"
| "hist_down (Suc k) h loc line =
     (case hist_at h loc of
        None \<Rightarrow> None
      | Some slot \<Rightarrow> map_option ((#) (line, cstring slot)) (hist_down k h (loc - 1) (line - 1)))"

definition historyOut :: "hist \<Rightarrow> int \<Rightarrow> (int \<times> byte list) list option" where
  "historyOut h histNum =
     (let currLoc = crem (histNum - 1) MAX_HISTORY in
      if histNum \<le> 10 then hist_down (nat (currLoc + 1)) h currLoc histNum
      else
        case hist_down (nat (currLoc + 1)) h currLoc histNum of
          None \<Rightarrow> None
        | Some xs \<Rightarrow> map_option ((@) xs) (hist_down (nat (8 - currLoc + 1)) h 9 (histNum - (currLoc + 1))))"

definition hist_text :: "(int \<times> byte list) list \<Rightarrow> byte list" where
  "hist_text xs = concat (map (\<lambda>(n, t). uprintint (of_int n) 10 True @ [32] @ t @ [32, 10]) xs)"

definition digCheck :: "byte \<Rightarrow> bool" where
  "digCheck c \<longleftrightarrow> c = 48 \<or> c = 49 \<or> c = 50 \<or> c = 51 \<or> c = 52 \<or> c = 53 \<or> c = 54 \<or> c = 55 \<or> c = 56 \<or> c = 57"

definition convertDigit :: "byte \<Rightarrow> int" where
  "convertDigit c =
     (if c = 48 then 0 else if c = 49 then 1 else if c = 50 then 2 else if c = 51 then 3
      else if c = 52 then 4 else if c = 53 then 5 else if c = 54 then 6 else if c = 55 then 7
      else if c = 56 then 8 else 9)"

section \<open>The command loop\<close>

text \<open>What the loop of \<^verbatim>\<open>main\<close> does with one line: change directory, run a command in a child and wait for it,
  call \<^verbatim>\<open>ps\<close>, print.\<close>

datatype sh_act = DoChdir "byte list" | DoRun "byte list" | DoPs | Say nat "byte list"

definition getcmd :: "byte list list \<Rightarrow> byte list \<times> byte list list" where
  "getcmd src = gets (replicate 100 0) 100 src"

definition remember_run :: "byte list \<Rightarrow> sh_act list \<Rightarrow> hist \<Rightarrow> int \<Rightarrow> (sh_act list \<times> hist \<times> int) option" where
  "remember_run line acts h histNum =
     map_option (\<lambda>(h', n'). (acts @ [DoRun line], h', n')) (historyUpdate h line histNum)"

definition bang :: "byte list \<Rightarrow> hist \<Rightarrow> int \<Rightarrow> (sh_act list \<times> hist \<times> int) option" where
  "bang buf h histNum =
     (if digCheck (buf ! 1) then
        let test = (if digCheck (buf ! 2) then 10 * convertDigit (buf ! 1) + convertDigit (buf ! 2)
                    else convertDigit (buf ! 1)) in
        if test > 0 \<and> test \<le> histNum \<and> test > histNum - 10 then
          case chooseFromHistory h histNum test of
            None \<Rightarrow> None
          | Some slot \<Rightarrow>
              (case strcpy buf (lptr slot) of
                 None \<Rightarrow> None
               | Some buf' \<Rightarrow>
                   remember_run (cstring buf')
                     [Say 2 (uprintint (of_int test) 10 True @ ascii '': ''), Say 2 (cstring slot @ [10])] h histNum)
        else Some ([Say 1 (ascii ''This value is not in the history.'' @ [10])], h, histNum)
      else Some ([Say 1 (ascii ''Error incorrect format'')], h, histNum))"

definition main_line :: "byte list \<Rightarrow> hist \<Rightarrow> int \<Rightarrow> (sh_act list \<times> hist \<times> int) option" where
  "main_line buf0 h histNum =
     (let buf = buf0[length (cstring buf0) - 1 := 0]; line = cstring buf in
      if buf ! 0 = 99 \<and> buf ! 1 = 100 \<and> buf ! 2 = 32 then
        let buf = buf[length (cstring buf) - 1 := 0] in Some ([DoChdir (cstring (drop 3 buf))], h, histNum)
      else if line = ascii ''history'' then
        if histNum < 1 then Some ([Say 1 (ascii ''No commands in history'' @ [10])], h, histNum)
        else map_option (\<lambda>xs. ([Say 2 (hist_text xs)], h, histNum)) (historyOut h histNum)
      else if line = ascii ''!!'' then
        if histNum < 1 then Some ([Say 1 (ascii ''No commands in history'' @ [10])], h, histNum)
        else
          case lastHistory h buf histNum of
            None \<Rightarrow> None
          | Some buf \<Rightarrow> remember_run (cstring buf) [Say 2 (cstring buf @ [10])] h histNum
      else if line = ascii ''ps'' then
        map_option (\<lambda>(h', n'). ([DoPs], h', n')) (historyUpdate h line histNum)
      else if buf ! 0 = 33 \<and> buf ! 1 \<noteq> 33 then bang buf h histNum
      else remember_run line [] h histNum)"

lemma gets_from_consumes:
  "fst (gets_from room src) = c # cs \<Longrightarrow> length (concat (snd (gets_from room src))) < length (concat src)"
proof (induction room src arbitrary: c cs rule: gets_from.induct)
  case (2 room src)
  show ?case
  proof (cases src)
    case Nil
    with 2 show ?thesis by simp
  next
    case (Cons x xs)
    show ?thesis
    proof (cases x)
      case Nil
      with 2 Cons show ?thesis by simp
    next
      case (Cons y ys)
      define src' where "src' = snd (uread 1 src)"
      have u: "uread 1 src = ([y], src')" and len: "length (concat src) = Suc (length (concat src'))"
        using \<open>src = x # xs\<close> Cons by (auto simp: src'_def)
      have "length (concat (snd (gets_from room src'))) \<le> length (concat src')" if "\<not> (y = 10 \<or> y = 13)"
      proof (cases "fst (gets_from room src')")
        case Nil
        have "length (concat (snd (gets_from r z))) \<le> length (concat z)" if "fst (gets_from r z) = []" for r z
          using that by (cases r; cases z; cases "hd z") (auto simp: split_beta split: if_splits)
        with Nil show ?thesis by blast
      next
        case (Cons d ds)
        with 2(1) [OF u [symmetric] refl] that show ?thesis by (fastforce intro: less_imp_le)
      qed
      with len show ?thesis by (auto simp: u [unfolded One_nat_def] split_beta)
    qed
  qed
qed simp

text \<open>The loop of \<^verbatim>\<open>main\<close>, until the end of the input: the actions it takes.\<close>

function sh_loop :: "byte list list \<Rightarrow> hist \<Rightarrow> int \<Rightarrow> sh_act list option" where
  "sh_loop src h histNum =
     (if fst (getcmd src) ! 0 = 0 then Some []
      else
        case main_line (fst (getcmd src)) h histNum of
          None \<Rightarrow> None
        | Some r \<Rightarrow> map_option ((@) (fst r)) (sh_loop (snd (getcmd src)) (fst (snd r)) (snd (snd r))))"
  by pat_completeness auto
termination
proof (relation "measure (\<lambda>(src, h, n). length (concat src))", simp)
  show "((snd (getcmd src), h', n'), src, h, n) \<in> measure (\<lambda>(src, h, n). length (concat src))"
    if "fst (getcmd src) ! 0 \<noteq> 0" for src and h h' :: hist and n n' :: int
  proof -
    obtain cs src' where g: "gets_from 99 src = (cs, src')" by fastforce
    then have "cs \<noteq> []" and "snd (getcmd src) = src'" using that by (auto simp: getcmd_def gets_def)
    with g gets_from_consumes [of 99 src "hd cs" "tl cs"] show ?thesis by simp
  qed
qed

declare sh_loop.simps [simp del]

end
