(* ===== verification/Sh_Parser.thy ===== *)
theory Sh_Parser
  imports Sh
begin

text \<open>
  Properties of the shell's parser: it always terminates, the words it marks are maximal runs of ordinary
  characters which \<^verbatim>\<open>nulterminate\<close> turns into the right C strings, and it inverts a printer of commands.
\<close>

section \<open>Termination\<close>

lemma parseargs_hit:
  "fst (peek inp s [124, 41, 38, 59]) \<Longrightarrow>
     parseargs inp args ret s = PDone (put_argv args ret, snd (peek inp s [124, 41, 38, 59]))"
  by (subst parseargs.simps) (simp add: Let_def)

lemma parseargs_end:
  "\<not> fst (peek inp s [124, 41, 38, 59]) \<Longrightarrow> s1 = snd (peek inp s [124, 41, 38, 59]) \<Longrightarrow> tok_kind inp s1 = 0 \<Longrightarrow>
     parseargs inp args ret s = PDone (put_argv args ret, tok_end inp s1)"
  by (subst parseargs.simps) (simp add: Let_def)

lemma parseargs_step:
  "\<not> fst (peek inp s [124, 41, 38, 59]) \<Longrightarrow> s1 = snd (peek inp s [124, 41, 38, 59]) \<Longrightarrow> tok_kind inp s1 \<noteq> 0 \<Longrightarrow>
     parseargs inp args ret s =
       (if tok_kind inp s1 \<noteq> 97 then PPanic ''syntax''
        else if length args + 1 \<ge> MAXARGS then PPanic ''too many args''
        else
          pbind (parseredirs inp ret (tok_end inp s1)) (\<lambda>r.
          parseargs inp (args @ [(tok_start inp s1, tok_stop inp s1)]) (fst r) (snd r)))"
  by (subst parseargs.simps) (simp add: Let_def)

lemma pbind_Done: "pbind m f = PDone y \<longleftrightarrow> (\<exists>x. m = PDone x \<and> f x = PDone y)"
  by (cases m) auto

lemma pbind_Fuel: "pbind m f = PFuel \<longleftrightarrow> m = PFuel \<or> (\<exists>x. m = PDone x \<and> f x = PFuel)"
  by (cases m) auto

lemma parseredirs_no_fuel: "parseredirs inp c s \<noteq> PFuel"
proof (induction inp c s rule: parseredirs.induct)
  case (1 inp c s)
  define s1 where "s1 = snd (peek inp s [60, 62])"
  define s2 where "s2 = tok_end inp s1"
  show ?case
  proof (cases "fst (peek inp s [60, 62])")
    case True
    note step = parseredirs_step [OF True s1_def s2_def]
    show ?thesis
    proof (cases "tok_kind inp s2 = 97")
      case k: True
      then show ?thesis using 1 [OF s1_def s2_def True] step by simp
    qed (simp add: step)
  qed (simp add: parseredirs_end)
qed

lemma parseargs_mono: "parseargs inp args ret s = PDone (c, s') \<Longrightarrow> s \<le> s'"
  and parseargs_no_fuel: "parseargs inp args ret s \<noteq> PFuel"
proof (induction inp args ret s rule: parseargs.induct)
  case (1 inp args ret s)
  define s1 where "s1 = snd (peek inp s [124, 41, 38, 59])"
  have ge: "s \<le> s1" unfolding s1_def by (rule peek_pos_ge)
  consider (hit) "fst (peek inp s [124, 41, 38, 59])"
    | (stop) "\<not> fst (peek inp s [124, 41, 38, 59])" "tok_kind inp s1 = 0"
    | (panic) "\<not> fst (peek inp s [124, 41, 38, 59])" "tok_kind inp s1 \<noteq> 0" "tok_kind inp s1 \<noteq> 97 \<or> length args + 1 \<ge> MAXARGS"
    | (word) "\<not> fst (peek inp s [124, 41, 38, 59])" "tok_kind inp s1 \<noteq> 0" "\<not> tok_kind inp s1 \<noteq> 97" "\<not> length args + 1 \<ge> MAXARGS"
    by blast
  note cs = this
  { case 1
    from cs show ?case
    proof cases
      case hit
      with 1 ge show ?thesis by (simp add: parseargs_hit s1_def)
    next
      case stop
      with 1 have "s' = tok_end inp s1" by (simp add: parseargs_end [OF _ s1_def])
      with ge tok_end_ge [of s1 inp] show ?thesis by simp
    next
      case panic
      with 1 show ?thesis by (auto simp: parseargs_step [OF _ s1_def] split: if_splits)
    next
      case word
      with 1 obtain r where r: "parseredirs inp ret (tok_end inp s1) = PDone r"
        and p: "parseargs inp (args @ [(tok_start inp s1, tok_stop inp s1)]) (fst r) (snd r) = PDone (c, s')"
        by (auto simp: parseargs_step [OF _ s1_def] pbind_Done)
      have "snd r \<le> s'" using "1.IH"(1) [OF s1_def word r p] .
      moreover have "tok_end inp s1 \<le> snd r" using parseredirs_mono [of inp ret "tok_end inp s1" "fst r" "snd r"] r by simp
      ultimately show ?thesis using ge tok_end_ge [of s1 inp] by linarith
    qed
  next
    case 2
    from cs show ?case
    proof cases
      case hit
      then show ?thesis by (simp add: parseargs_hit)
    next
      case stop
      then show ?thesis by (simp add: parseargs_end [OF _ s1_def])
    next
      case panic
      then show ?thesis by (auto simp: parseargs_step [OF _ s1_def])
    next
      case word
      have "parseargs inp (args @ [(tok_start inp s1, tok_stop inp s1)]) a b \<noteq> PFuel"
        if "parseredirs inp ret (tok_end inp s1) = PDone (a, b)" for a b
        using "1.IH"(2) [OF s1_def word that] by simp
      with word show ?thesis
        by (simp add: parseargs_step [OF _ s1_def] pbind_Fuel parseredirs_no_fuel)
    qed
  }
qed

lemma parseback_end: "\<not> fst (peek inp s [38]) \<Longrightarrow> parseback inp c s = (c, snd (peek inp s [38]))"
  by (subst parseback.simps) (simp add: Let_def)

lemma parseback_step: "fst (peek inp s [38]) \<Longrightarrow> parseback inp c s = parseback inp (BACK c) (tok_end inp (snd (peek inp s [38])))"
  by (subst parseback.simps) (simp add: Let_def)

lemma parseback_mono: "s \<le> snd (parseback inp c s)"
proof (induction inp c s rule: parseback.induct)
  case (1 inp c s)
  show ?case
  proof (cases "fst (peek inp s [38])")
    case True
    with 1 [OF refl True] peek_gettoken_pos [OF True] show ?thesis by (simp add: parseback_step)
  next
    case False
    then show ?thesis by (simp add: parseback_end peek_pos_ge)
  qed
qed

lemma parse_mono_all:
  "(\<forall>s c s'. parseline d inp s = PDone (c, s') \<longrightarrow> s \<le> s') \<and>
   (\<forall>s c s'. parsepipe d inp s = PDone (c, s') \<longrightarrow> s \<le> s') \<and>
   (\<forall>s c s'. parseexec d inp s = PDone (c, s') \<longrightarrow> s \<le> s') \<and>
   (\<forall>s c s'. parseblock d inp s = PDone (c, s') \<longrightarrow> s \<le> s')"
proof (induction d)
  case (Suc d)
  then have IH: "parseline d inp s = PDone (c, s') \<Longrightarrow> s \<le> s'" "parsepipe d inp s = PDone (c, s') \<Longrightarrow> s \<le> s'"
    "parseexec d inp s = PDone (c, s') \<Longrightarrow> s \<le> s'" "parseblock d inp s = PDone (c, s') \<Longrightarrow> s \<le> s'" for s c s'
    by blast+
  note pe = peek_gettoken_pos [THEN conjunct1, THEN less_imp_le]
  have line: "s \<le> s'" if p: "parseline (Suc d) inp s = PDone (c, s')" for s c s'
  proof -
    from p obtain c1 s1 where a: "parsepipe d inp s = PDone (c1, s1)" by (auto simp: pbind_Done)
    define s2 where "s2 = snd (parseback inp c1 s1)"
    have m: "s \<le> s2" using IH(2) [OF a] parseback_mono [of s1 inp c1] by (simp add: s2_def)
    show ?thesis
    proof (cases "fst (peek inp s2 [59])")
      case True
      with p a obtain c2 where "parseline d inp (tok_end inp (snd (peek inp s2 [59]))) = PDone (c2, s')"
        by (auto simp: pbind_Done split_beta Let_def s2_def)
      from IH(1) [OF this] pe [OF True] m show ?thesis by linarith
    next
      case False
      with p a have "s' = snd (peek inp s2 [59])" by (simp add: split_beta Let_def s2_def)
      with m peek_pos_ge [of s2 inp] show ?thesis using order_trans by blast
    qed
  qed
  have pipe: "s \<le> s'" if p: "parsepipe (Suc d) inp s = PDone (c, s')" for s c s'
  proof -
    from p obtain c1 s1 where a: "parseexec d inp s = PDone (c1, s1)" by (auto simp: pbind_Done)
    show ?thesis
    proof (cases "fst (peek inp s1 [124])")
      case True
      with p a obtain c2 where "parsepipe d inp (tok_end inp (snd (peek inp s1 [124]))) = PDone (c2, s')"
        by (auto simp: pbind_Done split_beta Let_def)
      from IH(2) [OF this] pe [OF True] IH(3) [OF a] show ?thesis by linarith
    next
      case False
      with p a have "s' = snd (peek inp s1 [124])" by (simp add: split_beta Let_def)
      with IH(3) [OF a] peek_pos_ge [of s1 inp] show ?thesis using order_trans by blast
    qed
  qed
  have exec: "s \<le> s'" if p: "parseexec (Suc d) inp s = PDone (c, s')" for s c s'
  proof -
    define s1 where "s1 = snd (peek inp s [40])"
    have m: "s \<le> s1" unfolding s1_def by (rule peek_pos_ge)
    show ?thesis
    proof (cases "fst (peek inp s [40])")
      case True
      with p have "parseblock d inp s1 = PDone (c, s')" by (simp add: split_beta Let_def s1_def)
      from IH(4) [OF this] m show ?thesis by linarith
    next
      case False
      with p obtain r s2 where "parseredirs inp (EXEC []) s1 = PDone (r, s2)" "parseargs inp [] r s2 = PDone (c, s')"
        by (auto simp: pbind_Done split_beta Let_def s1_def)
      from parseredirs_mono [OF this(1)] parseargs_mono [OF this(2)] m show ?thesis by linarith
    qed
  qed
  have block: "s \<le> s'" if p: "parseblock (Suc d) inp s = PDone (c, s')" for s c s'
  proof -
    define s1 where "s1 = snd (peek inp s [40])"
    from p have b: "fst (peek inp s [40])" by (auto simp: split_beta Let_def split: if_splits)
    with p obtain c1 s2 where l: "parseline d inp (tok_end inp s1) = PDone (c1, s2)"
      by (auto simp: pbind_Done split_beta Let_def s1_def)
    with p b have b2: "fst (peek inp s2 [41])" and r: "parseredirs inp c1 (tok_end inp (snd (peek inp s2 [41]))) = PDone (c, s')"
      by (auto simp: split_beta Let_def s1_def split: if_splits)
    from pe [OF b] IH(1) [OF l] pe [OF b2] parseredirs_mono [OF r] show ?thesis unfolding s1_def by linarith
  qed
  from line pipe exec block show ?case by blast
qed simp

lemmas parse_mono = parse_mono_all [THEN conjunct1, rule_format] parse_mono_all [THEN conjunct2, THEN conjunct1, rule_format]
  parse_mono_all [THEN conjunct2, THEN conjunct2, THEN conjunct1, rule_format]
  parse_mono_all [THEN conjunct2, THEN conjunct2, THEN conjunct2, rule_format]

text \<open>The nesting of calls that the rest of the line from \<open>s\<close> can cause.\<close>

definition need :: "byte list \<Rightarrow> nat \<Rightarrow> nat" where
  "need inp s = 4 * (length inp - s)"

lemma need_less: "s < s' \<Longrightarrow> s < length inp \<Longrightarrow> need inp s' + 4 \<le> need inp s"
  by (simp add: need_def)

lemma need_mono: "s \<le> s' \<Longrightarrow> need inp s' \<le> need inp s"
  by (simp add: need_def)

lemma need_peek: "fst (peek inp s toks) \<Longrightarrow> need inp (tok_end inp (snd (peek inp s toks))) + 4 \<le> need inp s"
  using peek_gettoken_pos need_less by blast

lemma parse_enough:
  "(\<forall>s. need inp s + 4 \<le> d \<longrightarrow> parseline d inp s \<noteq> PFuel) \<and>
   (\<forall>s. need inp s + 3 \<le> d \<longrightarrow> parsepipe d inp s \<noteq> PFuel) \<and>
   (\<forall>s. need inp s + 2 \<le> d \<longrightarrow> parseexec d inp s \<noteq> PFuel) \<and>
   (\<forall>s. fst (peek inp s [40]) \<and> need inp s + 1 \<le> d \<longrightarrow> parseblock d inp s \<noteq> PFuel)"
proof (induction d)
  case (Suc d)
  then have IH: "need inp s + 4 \<le> d \<Longrightarrow> parseline d inp s \<noteq> PFuel" "need inp s + 3 \<le> d \<Longrightarrow> parsepipe d inp s \<noteq> PFuel"
    "need inp s + 2 \<le> d \<Longrightarrow> parseexec d inp s \<noteq> PFuel"
    "fst (peek inp s [40]) \<Longrightarrow> need inp s + 1 \<le> d \<Longrightarrow> parseblock d inp s \<noteq> PFuel" for s
    by blast+
  have line: "parseline (Suc d) inp s \<noteq> PFuel" if n: "need inp s + 4 \<le> Suc d" for s
  proof
    assume p: "parseline (Suc d) inp s = PFuel"
    have "parsepipe d inp s \<noteq> PFuel" using n by (intro IH) simp
    with p obtain c1 s1 where a: "parsepipe d inp s = PDone (c1, s1)" by (cases "parsepipe d inp s") auto
    define s2 where "s2 = snd (parseback inp c1 s1)"
    have "s \<le> s2" using parse_mono(2) [OF a] parseback_mono [of s1 inp c1] by (simp add: s2_def)
    then have m: "need inp s2 \<le> need inp s" by (rule need_mono)
    from p a have t: "fst (peek inp s2 [59])" and "parseline d inp (tok_end inp (snd (peek inp s2 [59]))) = PFuel"
      by (auto simp: pbind_Fuel split_beta Let_def s2_def split: if_splits)
    with IH(1) [of "tok_end inp (snd (peek inp s2 [59]))"] need_peek [OF t] m n show False by linarith
  qed
  have pipe: "parsepipe (Suc d) inp s \<noteq> PFuel" if n: "need inp s + 3 \<le> Suc d" for s
  proof
    assume p: "parsepipe (Suc d) inp s = PFuel"
    have "parseexec d inp s \<noteq> PFuel" using n by (intro IH) simp
    with p obtain c1 s1 where a: "parseexec d inp s = PDone (c1, s1)" by (cases "parseexec d inp s") auto
    have m: "need inp s1 \<le> need inp s" using parse_mono(3) [OF a] by (rule need_mono)
    from p a have t: "fst (peek inp s1 [124])" and "parsepipe d inp (tok_end inp (snd (peek inp s1 [124]))) = PFuel"
      by (auto simp: pbind_Fuel split_beta Let_def split: if_splits)
    with IH(2) [of "tok_end inp (snd (peek inp s1 [124]))"] need_peek [OF t] m n show False by linarith
  qed
  have exec: "parseexec (Suc d) inp s \<noteq> PFuel" if n: "need inp s + 2 \<le> Suc d" for s
  proof
    assume p: "parseexec (Suc d) inp s = PFuel"
    define s1 where "s1 = snd (peek inp s [40])"
    have m: "need inp s1 \<le> need inp s" unfolding s1_def by (rule need_mono [OF peek_pos_ge])
    show False
    proof (cases "fst (peek inp s [40])")
      case True
      then have "fst (peek inp s1 [40])" by (simp add: s1_def peek_def Let_def skip_ws_idem)
      then have "parseblock d inp s1 \<noteq> PFuel" using m n by (intro IH) simp_all
      with p True show False by (simp add: split_beta Let_def s1_def)
    next
      case False
      with p show False by (auto simp: pbind_Fuel parseredirs_no_fuel parseargs_no_fuel split_beta Let_def)
    qed
  qed
  have block: "parseblock (Suc d) inp s \<noteq> PFuel" if b: "fst (peek inp s [40])" and n: "need inp s + 1 \<le> Suc d" for s
  proof
    assume p: "parseblock (Suc d) inp s = PFuel"
    have "parseline d inp (tok_end inp (snd (peek inp s [40]))) \<noteq> PFuel"
      using need_peek [OF b] n by (intro IH) linarith
    with p b show False by (auto simp: pbind_Fuel parseredirs_no_fuel split_beta Let_def split: if_splits)
  qed
  from line pipe exec block show ?case by blast
qed simp

text \<open>C24. The parser always returns: on every line \<^verbatim>\<open>parsecmd\<close> ends with a command or with one of its error messages,
  after nesting its calls at most four deep for every character of the line.\<close>

theorem parsecmd_terminates: "parsecmd inp \<noteq> PFuel"
proof -
  have "parseline (parse_depth inp) inp 0 \<noteq> PFuel"
    using parse_enough [of inp "parse_depth inp"] by (simp add: need_def parse_depth_def)
  then show ?thesis by (auto simp: parsecmd_def pbind_Fuel split: if_splits)
qed

section \<open>Words\<close>

text \<open>The words of a command. A word is a maximal run of ordinary characters.\<close>

fun words :: "cmd \<Rightarrow> (nat \<times> nat) set" where
  "words (EXEC args) = set args"
| "words (REDIR c q e mode fd) = insert (q, e) (words c)"
| "words (PIPE l r) = words l \<union> words r"
| "words (LIST l r) = words l \<union> words r"
| "words (BACK c) = words c"

definition word_ok :: "byte list \<Rightarrow> nat \<times> nat \<Rightarrow> bool" where
  "word_ok inp w \<longleftrightarrow>
     (case w of (q, e) \<Rightarrow>
        q < e \<and> e \<le> length inp \<and> (\<forall>i. q \<le> i \<and> i < e \<longrightarrow> is_word (inp ! i)) \<and> (e < length inp \<longrightarrow> \<not> is_word (inp ! e)))"

definition all_ok :: "byte list \<Rightarrow> cmd \<Rightarrow> bool" where
  "all_ok inp c \<longleftrightarrow> (\<forall>w \<in> words c. word_ok inp w)"

lemma token_word:
  assumes "tok_kind inp s = 97"
  shows "word_ok inp (tok_start inp s, tok_stop inp s)"
proof -
  let ?q = "skip_ws inp s"
  let ?w = "takeWhile is_word (drop ?q inp)"
  have sym: "97 \<noteq> (124 :: byte)" "97 \<noteq> (40 :: byte)" "97 \<noteq> (41 :: byte)" "97 \<noteq> (59 :: byte)" "97 \<noteq> (38 :: byte)"
    "97 \<noteq> (60 :: byte)" "97 \<noteq> (62 :: byte)" "97 \<noteq> (43 :: byte)" "97 \<noteq> (0 :: byte)" by simp_all
  have g: "tok_start inp s = ?q" "tok_stop inp s = ?q + length ?w"
    using assms sym unfolding tok_kind_def tok_start_def tok_stop_def gettoken_def Let_def
    by (auto split: if_splits)
  have lt: "tok_start inp s < tok_stop inp s" "tok_start inp s < length inp"
    using gettoken_end [OF gettoken_parts, of inp s] assms by auto
  have le: "?q + length ?w \<le> length inp"
    using lt(2) g(1) length_takeWhile_le [of is_word "drop ?q inp"] by simp
  have "is_word (inp ! i)" if "?q \<le> i" "i < ?q + length ?w" for i
  proof -
    have "?w ! (i - ?q) \<in> set ?w" using that by (intro nth_mem) simp
    then have "is_word (?w ! (i - ?q))" by (rule set_takeWhileD [THEN conjunct2])
    moreover have "?w ! (i - ?q) = inp ! i"
      using that le by (simp add: takeWhile_nth)
    ultimately show ?thesis by simp
  qed
  moreover have "\<not> is_word (inp ! (?q + length ?w))" if "?q + length ?w < length inp"
  proof -
    have "length ?w < length (drop ?q inp)" using that by simp
    then have "\<not> is_word (drop ?q inp ! length ?w)" by (rule nth_length_takeWhile)
    with that show ?thesis by simp
  qed
  ultimately show ?thesis using lt le g by (simp add: word_ok_def)
qed

lemma redir_of_ok: "all_ok inp c \<Longrightarrow> word_ok inp (q, e) \<Longrightarrow> all_ok inp (redir_of tok c q e)"
  by (auto simp: all_ok_def redir_of_def)

lemma parseredirs_ok: "parseredirs inp c s = PDone (c', s') \<Longrightarrow> all_ok inp c \<Longrightarrow> all_ok inp c'"
proof (induction inp c s rule: parseredirs.induct)
  case (1 inp c s)
  define s1 where "s1 = snd (peek inp s [60, 62])"
  define s2 where "s2 = tok_end inp s1"
  show ?case
  proof (cases "fst (peek inp s [60, 62])")
    case True
    note step = parseredirs_step [OF True s1_def s2_def]
    from 1(2) have k: "\<not> tok_kind inp s2 \<noteq> 97" unfolding step by (cases "tok_kind inp s2 = 97") simp_all
    from 1(2) have r: "parseredirs inp (redir_of (tok_kind inp s1) c (tok_start inp s2) (tok_stop inp s2)) (tok_end inp s2) = PDone (c', s')"
      unfolding step using k by simp
    show ?thesis
      by (rule 1(1) [OF s1_def s2_def True k r redir_of_ok [OF 1(3) token_word]]) (use k in simp)
  next
    case False
    with 1 show ?thesis by (simp add: parseredirs_end)
  qed
qed

lemma put_argv_ok: "all_ok inp c \<Longrightarrow> \<forall>w \<in> set args. word_ok inp w \<Longrightarrow> all_ok inp (put_argv args c)"
  by (induction args c rule: put_argv.induct) (auto simp: all_ok_def)

lemma parseargs_ok:
  "parseargs inp args ret s = PDone (c, s') \<Longrightarrow> all_ok inp ret \<Longrightarrow> \<forall>w \<in> set args. word_ok inp w \<Longrightarrow> all_ok inp c"
proof (induction inp args ret s rule: parseargs.induct)
  case (1 inp args ret s)
  define s1 where "s1 = snd (peek inp s [124, 41, 38, 59])"
  consider (hit) "fst (peek inp s [124, 41, 38, 59])"
    | (stop) "\<not> fst (peek inp s [124, 41, 38, 59])" "tok_kind inp s1 = 0"
    | (panic) "\<not> fst (peek inp s [124, 41, 38, 59])" "tok_kind inp s1 \<noteq> 0" "tok_kind inp s1 \<noteq> 97 \<or> length args + 1 \<ge> MAXARGS"
    | (word) "\<not> fst (peek inp s [124, 41, 38, 59])" "tok_kind inp s1 \<noteq> 0" "\<not> tok_kind inp s1 \<noteq> 97" "\<not> length args + 1 \<ge> MAXARGS"
    by blast
  then show ?case
  proof cases
    case hit
    with 1 show ?thesis by (auto simp: parseargs_hit intro: put_argv_ok)
  next
    case stop
    with 1 show ?thesis by (auto simp: parseargs_end [OF _ s1_def] intro: put_argv_ok)
  next
    case panic
    with 1 show ?thesis by (auto simp: parseargs_step [OF _ s1_def] split: if_splits)
  next
    case word
    with 1 obtain r where r: "parseredirs inp ret (tok_end inp s1) = PDone r"
      and p: "parseargs inp (args @ [(tok_start inp s1, tok_stop inp s1)]) (fst r) (snd r) = PDone (c, s')"
      by (auto simp: parseargs_step [OF _ s1_def] pbind_Done)
    have "all_ok inp (fst r)" using parseredirs_ok [of inp ret "tok_end inp s1" "fst r" "snd r"] r 1(3) by simp
    moreover have "\<forall>w \<in> set (args @ [(tok_start inp s1, tok_stop inp s1)]). word_ok inp w"
      using 1(4) token_word word(3) by auto
    ultimately show ?thesis using 1(1) [OF s1_def word r p] by blast
  qed
qed

lemma parseback_ok: "all_ok inp c \<Longrightarrow> all_ok inp (fst (parseback inp c s))"
proof (induction inp c s rule: parseback.induct)
  case (1 inp c s)
  show ?case
  proof (cases "fst (peek inp s [38])")
    case True
    moreover have "all_ok inp (BACK c)" using 1(2) by (simp add: all_ok_def)
    ultimately show ?thesis using 1(1) [OF refl True] by (simp add: parseback_step)
  next
    case False
    with 1 show ?thesis by (simp add: parseback_end)
  qed
qed

lemma parse_ok:
  "(\<forall>s c s'. parseline d inp s = PDone (c, s') \<longrightarrow> all_ok inp c) \<and>
   (\<forall>s c s'. parsepipe d inp s = PDone (c, s') \<longrightarrow> all_ok inp c) \<and>
   (\<forall>s c s'. parseexec d inp s = PDone (c, s') \<longrightarrow> all_ok inp c) \<and>
   (\<forall>s c s'. parseblock d inp s = PDone (c, s') \<longrightarrow> all_ok inp c)"
proof (induction d)
  case (Suc d)
  then have IH: "parseline d inp s = PDone (c, s') \<Longrightarrow> all_ok inp c" "parsepipe d inp s = PDone (c, s') \<Longrightarrow> all_ok inp c"
    "parseexec d inp s = PDone (c, s') \<Longrightarrow> all_ok inp c" "parseblock d inp s = PDone (c, s') \<Longrightarrow> all_ok inp c" for s c s'
    by blast+
  have line: "all_ok inp c" if p: "parseline (Suc d) inp s = PDone (c, s')" for s c s'
  proof -
    from p obtain c1 s1 where a: "parsepipe d inp s = PDone (c1, s1)" by (auto simp: pbind_Done)
    have b: "all_ok inp (fst (parseback inp c1 s1))" by (rule parseback_ok [OF IH(2) [OF a]])
    show ?thesis
    proof (cases "fst (peek inp (snd (parseback inp c1 s1)) [59])")
      case True
      with p a obtain c2 s2 where "parseline d inp s2 = PDone (c2, s')" "c = LIST (fst (parseback inp c1 s1)) c2"
        by (auto simp: pbind_Done split_beta Let_def)
      with IH(1) b show ?thesis by (auto simp: all_ok_def)
    next
      case False
      with p a b show ?thesis by (auto simp: split_beta Let_def)
    qed
  qed
  have pipe: "all_ok inp c" if p: "parsepipe (Suc d) inp s = PDone (c, s')" for s c s'
  proof -
    from p obtain c1 s1 where a: "parseexec d inp s = PDone (c1, s1)" by (auto simp: pbind_Done)
    show ?thesis
    proof (cases "fst (peek inp s1 [124])")
      case True
      with p a obtain c2 s2 where "parsepipe d inp s2 = PDone (c2, s')" "c = PIPE c1 c2"
        by (auto simp: pbind_Done split_beta Let_def)
      with IH(2) IH(3) [OF a] show ?thesis by (auto simp: all_ok_def)
    next
      case False
      with p a IH(3) [OF a] show ?thesis by (auto simp: split_beta Let_def)
    qed
  qed
  have exec: "all_ok inp c" if p: "parseexec (Suc d) inp s = PDone (c, s')" for s c s'
  proof (cases "fst (peek inp s [40])")
    case True
    with p IH(4) show ?thesis by (simp add: split_beta Let_def)
  next
    case False
    with p obtain r s1 s2 where "parseredirs inp (EXEC []) s1 = PDone (r, s2)" "parseargs inp [] r s2 = PDone (c, s')"
      by (auto simp: pbind_Done split_beta Let_def)
    then show ?thesis using parseredirs_ok parseargs_ok by (fastforce simp: all_ok_def)
  qed
  have block: "all_ok inp c" if p: "parseblock (Suc d) inp s = PDone (c, s')" for s c s'
  proof -
    from p obtain c1 s1 s2 where "parseline d inp s1 = PDone (c1, s2)"
      and "parseredirs inp c1 (tok_end inp (snd (peek inp s2 [41]))) = PDone (c, s')"
      by (auto simp: pbind_Done split_beta Let_def split: if_splits)
    then show ?thesis using IH(1) parseredirs_ok by blast
  qed
  from line pipe exec block show ?case by blast
qed simp

lemma nulterminate_length [simp]: "length (nulterminate c b) = length b"
proof (induction c arbitrary: b)
  case (EXEC args)
  show ?case by (simp, induction args arbitrary: b) auto
qed auto

lemma terminate_args_nth:
  "i < length b \<Longrightarrow> foldl (\<lambda>b (q, e). b[e := 0]) b args ! i = (if i \<in> snd ` set args then 0 else b ! i)"
proof (induction args arbitrary: b)
  case (Cons w args)
  obtain q e where w: "w = (q, e)" by fastforce
  have "foldl (\<lambda>b (q, e). b[e := 0]) (b[e := 0]) args ! i = (if i \<in> snd ` set args then 0 else b[e := 0] ! i)"
    using Cons.prems by (intro Cons.IH) simp
  with Cons.prems show ?case by (cases "e = i") (simp_all add: w)
qed simp

lemma nulterminate_nth:
  "i < length b \<Longrightarrow> nulterminate c b ! i = (if i \<in> snd ` words c then 0 else b ! i)"
proof (induction c arbitrary: b)
  case (EXEC args)
  then show ?case by (simp only: nulterminate.simps words.simps terminate_args_nth)
next
  case (REDIR c q e mode fd)
  have "nulterminate c b ! i = (if i \<in> snd ` words c then 0 else b ! i)" by (rule REDIR.IH [OF REDIR.prems])
  with REDIR.prems show ?case by (cases "e = i") simp_all
qed auto

lemma word_string:
  assumes "0 \<notin> set inp" and "all_ok inp c" and "(q, e) \<in> words c"
  shows "cstring (drop q (nulterminate c (inp @ [0]))) = take (e - q) (drop q inp)"
proof -
  let ?b = "nulterminate c (inp @ [0])"
  have w: "q < e" "e \<le> length inp" "\<And>i. q \<le> i \<Longrightarrow> i < e \<Longrightarrow> is_word (inp ! i)"
    using assms(2,3) by (auto simp: all_ok_def word_ok_def)
  have keep: "?b ! i = inp ! i" if "q \<le> i" "i < e" for i
  proof -
    have "i \<notin> snd ` words c"
    proof
      assume "i \<in> snd ` words c"
      then obtain q' where "(q', i) \<in> words c" by auto
      then have "word_ok inp (q', i)" using assms(2) by (auto simp: all_ok_def)
      with w that show False by (auto simp: word_ok_def)
    qed
    with w that show ?thesis by (simp add: nulterminate_nth nth_append)
  qed
  have stop: "?b ! e = 0" using w assms(3) by (force simp: nulterminate_nth)
  have "cstring (drop q ?b) = take (e - q) (drop q ?b)"
    unfolding cstring_def
  proof (rule takeWhile_eq_take_P_nth)
    fix i assume "i < e - q" "i < length (drop q ?b)"
    then have "drop q ?b ! i = inp ! (q + i)" using keep [of "q + i"] w by simp
    with w \<open>i < e - q\<close> assms(1) show "drop q ?b ! i \<noteq> 0" by (metis add.commute less_diff_conv nth_mem order_less_le_trans)
  next
    show "\<not> drop q ?b ! (e - q) \<noteq> 0" using stop w by simp
  qed
  also have "\<dots> = take (e - q) (drop q inp)"
    using keep w by (intro nth_equalityI) auto
  finally show ?thesis .
qed

text \<open>C32. After a successful parse every word of the command (argument or file of a redirection) is a maximal
  non-empty run of ordinary characters of the line, and in the line as \<^verbatim>\<open>nulterminate\<close> leaves it the C string
  at the word's start is exactly that run: no NUL lands inside another word.\<close>

theorem nulterminate_words:
  assumes "parsecmd inp = PDone (c, b)" and "0 \<notin> set inp" and "(q, e) \<in> words c"
  shows "cstring (drop q b) = take (e - q) (drop q inp) \<and> word_ok inp (q, e)"
proof -
  from assms(1) obtain s where p: "parseline (parse_depth inp) inp 0 = PDone (c, s)" and b: "b = nulterminate c (inp @ [0])"
    by (auto simp: parsecmd_def pbind_Done split: if_splits)
  then have ok: "all_ok inp c" using parse_ok by blast
  with word_string [OF assms(2) ok assms(3)] assms(3) show ?thesis by (auto simp: b all_ok_def)
qed

theorem nulterminate_words_witness:
  "\<exists>c b. parsecmd [108, 115, 62, 102] = PDone (c, b) \<and> (0, 2) \<in> words c \<and> (3, 4) \<in> words c
     \<and> cstring (drop 0 b) = [108, 115] \<and> cstring (drop 3 b) = [102]"
proof -
  let ?inp = "[108, 115, 62, 102] :: byte list"
  have p: "parsecmd ?inp = PDone (REDIR (EXEC [(0, 2)]) 3 4 0x201 1, [108, 115, 0, 102, 0])" by code_simp
  show ?thesis
    using nulterminate_words [OF p, of 0 2] nulterminate_words [OF p, of 3 4] p by auto
qed

section \<open>Printing and parsing\<close>

text \<open>A command as text: the words of a simple command separated by blanks, the parts of every other command in
  parentheses.\<close>

fun unwords :: "byte list list \<Rightarrow> byte list" where
  "unwords [] = []"
| "unwords [w] = w"
| "unwords (w # v # ws) = w @ 32 # unwords (v # ws)"

fun unparse :: "scmd \<Rightarrow> byte list" where
  "unparse (SEXEC args) = unwords args"
| "unparse (SREDIR c f mode fd) = 40 # unparse c @ 41 # (if fd = 0 then 60 else 62) # f"
| "unparse (SPIPE l r) = 40 # unparse l @ 41 # 124 # 40 # unparse r @ [41]"
| "unparse (SLIST l r) = 40 # unparse l @ 41 # 59 # 40 # unparse r @ [41]"
| "unparse (SBACK c) = 40 # unparse c @ [41, 38]"

definition wf_word :: "byte list \<Rightarrow> bool" where
  "wf_word w \<longleftrightarrow> w \<noteq> [] \<and> (\<forall>c \<in> set w. is_word c \<and> c \<noteq> 0)"

fun wf_scmd :: "scmd \<Rightarrow> bool" where
  "wf_scmd (SEXEC args) = (length args < MAXARGS \<and> (\<forall>w \<in> set args. wf_word w))"
| "wf_scmd (SREDIR c f mode fd) =
     (wf_scmd c \<and> wf_word f \<and> (fd = 0 \<and> mode = O_RDONLY \<or> fd = 1 \<and> mode = O_WRONLY OR O_CREATE))"
| "wf_scmd (SPIPE l r) = (wf_scmd l \<and> wf_scmd r)"
| "wf_scmd (SLIST l r) = (wf_scmd l \<and> wf_scmd r)"
| "wf_scmd (SBACK c) = wf_scmd c"

fun slices :: "byte list \<Rightarrow> cmd \<Rightarrow> scmd" where
  "slices inp (EXEC args) = SEXEC (map (\<lambda>(q, e). take (e - q) (drop q inp)) args)"
| "slices inp (REDIR c q e mode fd) = SREDIR (slices inp c) (take (e - q) (drop q inp)) mode fd"
| "slices inp (PIPE l r) = SPIPE (slices inp l) (slices inp r)"
| "slices inp (LIST l r) = SLIST (slices inp l) (slices inp r)"
| "slices inp (BACK c) = SBACK (slices inp c)"

subsection \<open>Tokens at a position\<close>

definition no_ws :: "byte list \<Rightarrow> bool" where
  "no_ws r \<longleftrightarrow> r = [] \<or> \<not> is_ws (hd r)"

lemma char_classes [simp]:
  "\<not> is_ws 40" "\<not> is_ws 41" "\<not> is_ws 60" "\<not> is_ws 62" "\<not> is_ws 124" "\<not> is_ws 59" "\<not> is_ws 38" "is_ws 32"
  "\<not> is_word 40" "\<not> is_word 41" "\<not> is_word 60" "\<not> is_word 62" "\<not> is_word 124" "\<not> is_word 59" "\<not> is_word 38" "\<not> is_word 32"
  by (simp_all add: is_ws_def is_word_def is_sym_def in_set_iff whitespace_def symbols_def)

lemma word_not_sym: "is_word c \<Longrightarrow> c \<notin> {124, 40, 41, 59, 38, 60, 62} \<and> \<not> is_ws c"
  by (auto simp: is_word_def is_sym_def in_set_iff symbols_def)

lemma at_Cons:
  assumes "drop s inp = x # r"
  shows "s < length inp" and "lptr inp s = x" and "drop (Suc s) inp = r"
proof -
  show "s < length inp" using assms by (metis drop_all list.distinct(1) not_le)
  with assms show "lptr inp s = x" by (simp add: lptr_def) (metis Cons_nth_drop_Suc list.inject)
  from assms show "drop (Suc s) inp = r" by (metis drop_Suc tl_drop list.sel(3))
qed

lemma at_append: "drop s inp = w @ r \<Longrightarrow> drop (s + length w) inp = r"
  by (metis add.commute append_eq_conv_conj drop_drop)

lemma at_Nil: "drop s inp = [] \<Longrightarrow> lptr inp s = 0"
  by (simp add: lptr_def)

lemma skip_ws_here: "drop s inp = r \<Longrightarrow> no_ws r \<Longrightarrow> skip_ws inp s = s"
  by (cases r) (auto simp: skip_ws_def no_ws_def)

lemma lptr_here: "drop s inp = r \<Longrightarrow> lptr inp s = (if r = [] then 0 else hd r)"
  by (cases r) (auto simp: at_Nil at_Cons)

lemma peek_here:
  "drop s inp = r \<Longrightarrow> no_ws r \<Longrightarrow> peek inp s toks = (r \<noteq> [] \<and> hd r \<noteq> 0 \<and> in_set toks (hd r), s)"
  by (auto simp: peek_def Let_def skip_ws_here lptr_here)

lemma sym_token:
  assumes "drop s inp = x # r" and "x \<in> {124, 40, 41, 59, 38, 60}" and "no_ws r"
  shows "tok_kind inp s = x" and "tok_end inp s = Suc s"
proof -
  have "no_ws (x # r)" using assms(2) by (auto simp: no_ws_def)
  then have q: "skip_ws inp s = s" by (rule skip_ws_here [OF assms(1)])
  have n: "skip_ws inp (Suc s) = Suc s" by (rule skip_ws_here [OF at_Cons(3) [OF assms(1)] assms(3)])
  have "gettoken inp s = (x, s, Suc s, Suc s)"
    using assms(2) by (auto simp: gettoken_def Let_def q n at_Cons(2) [OF assms(1)])
  then show "tok_kind inp s = x" and "tok_end inp s = Suc s" by (simp_all add: tok_kind_def tok_end_def)
qed

lemma gt_token:
  assumes "drop s inp = 62 # r" and "r = [] \<or> hd r \<noteq> 62" and "no_ws r"
  shows "tok_kind inp s = 62" and "tok_end inp s = Suc s"
proof -
  have "no_ws (62 # r)" by (simp add: no_ws_def)
  then have q: "skip_ws inp s = s" by (rule skip_ws_here [OF assms(1)])
  have n: "skip_ws inp (Suc s) = Suc s" by (rule skip_ws_here [OF at_Cons(3) [OF assms(1)] assms(3)])
  have l: "lptr inp (Suc s) \<noteq> 62" using lptr_here [OF at_Cons(3) [OF assms(1)]] assms(2) by auto
  have "gettoken inp s = (62, s, Suc s, Suc s)"
    using l by (simp add: gettoken_def Let_def q n at_Cons(2) [OF assms(1)])
  then show "tok_kind inp s = 62" and "tok_end inp s = Suc s" by (simp_all add: tok_kind_def tok_end_def)
qed

lemma word_token:
  assumes "drop s inp = w @ r" and "wf_word w" and "r = [] \<or> \<not> is_word (hd r)"
  shows "tok_kind inp s = 97" and "tok_start inp s = s" and "tok_stop inp s = s + length w"
    and "tok_end inp s = skip_ws inp (s + length w)"
proof -
  obtain x w' where w: "w = x # w'" "is_word x" "x \<noteq> 0" using assms(2) by (cases w) (auto simp: wf_word_def)
  then have d: "drop s inp = x # w' @ r" using assms(1) by simp
  have "no_ws (x # w' @ r)" using word_not_sym [OF w(2)] by (simp add: no_ws_def)
  then have q: "skip_ws inp s = s" by (rule skip_ws_here [OF d])
  have tw: "takeWhile is_word (w @ r) = w"
  proof -
    have "takeWhile is_word (w @ r) = w @ takeWhile is_word r"
      using assms(2) by (intro takeWhile_append2) (auto simp: wf_word_def)
    also have "takeWhile is_word r = []" using assms(3) by (cases r) auto
    finally show ?thesis by simp
  qed
  have "gettoken inp s = (97, s, s + length w, skip_ws inp (s + length w))"
    using word_not_sym [OF w(2)] w(3) by (simp add: gettoken_def Let_def q at_Cons(2) [OF d] assms(1) tw)
  then show "tok_kind inp s = 97" and "tok_start inp s = s" and "tok_stop inp s = s + length w"
    and "tok_end inp s = skip_ws inp (s + length w)"
    by (simp_all add: tok_kind_def tok_start_def tok_stop_def tok_end_def)
qed

lemma end_token: "drop s inp = [] \<Longrightarrow> tok_kind inp s = 0 \<and> tok_end inp s = s"
  by (simp add: tok_kind_def tok_end_def gettoken_def Let_def skip_ws_here [of s inp "[]"] no_ws_def at_Nil)

subsection \<open>Simple commands\<close>

text \<open>What follows a line: its end or a closing parenthesis.\<close>

definition closes :: "byte list \<Rightarrow> bool" where
  "closes r \<longleftrightarrow> r = [] \<or> hd r = 41"

lemma closes_no_ws: "closes r \<Longrightarrow> no_ws r"
  by (auto simp: closes_def no_ws_def)

lemma parseredirs_here:
  "drop s inp = r \<Longrightarrow> no_ws r \<Longrightarrow> r = [] \<or> hd r \<notin> {60, 62} \<Longrightarrow> parseredirs inp c s = PDone (c, s)"
  by (subst parseredirs_end) (auto simp: peek_here in_set_iff)

lemma parseargs_words:
  assumes "drop s inp = unwords ws @ r" and "closes r" and "\<forall>w \<in> set ws. wf_word w" and "length args + length ws < MAXARGS"
  shows "\<exists>ps. parseargs inp args (EXEC []) s = PDone (EXEC (args @ ps), s + length (unwords ws))
     \<and> map (\<lambda>(q, e). take (e - q) (drop q inp)) ps = ws"
  using assms
proof (induction ws arbitrary: s args rule: unwords.induct)
  case 1
  then have d: "drop s inp = r" by simp
  note pk = peek_here [OF d closes_no_ws [OF 1(2)]]
  show ?case
  proof (cases r)
    case Nil
    with d have "parseargs inp args (EXEC []) s = PDone (put_argv args (EXEC []), tok_end inp s)"
      using end_token [of s inp] by (intro parseargs_end) (simp_all add: pk)
    with d Nil end_token [of s inp] show ?thesis by simp
  next
    case (Cons x r')
    then have "x = 41" using 1(2) by (simp add: closes_def)
    with Cons have "fst (peek inp s [124, 41, 38, 59])" by (simp add: pk in_set_iff)
    then have "parseargs inp args (EXEC []) s = PDone (put_argv args (EXEC []), snd (peek inp s [124, 41, 38, 59]))"
      by (rule parseargs_hit)
    then show ?thesis by (simp add: pk)
  qed
next
  case (2 w)
  then have d: "drop s inp = w @ r" and w: "wf_word w" by simp_all
  obtain x w' where x: "w = x # w'" "is_word x" "x \<noteq> 0" using w by (cases w) (auto simp: wf_word_def)
  have nw: "no_ws (w @ r)" using x word_not_sym by (auto simp: no_ws_def)
  have pk: "peek inp s [124, 41, 38, 59] = (False, s)"
    using x word_not_sym [OF x(2)] by (simp add: peek_here [OF d nw] in_set_iff)
  have rr: "r = [] \<or> \<not> is_word (hd r)" using 2(2) by (auto simp: closes_def)
  note tk = word_token [OF d w rr]
  have dr: "drop (s + length w) inp = r" by (rule at_append [OF d])
  have te: "tok_end inp s = s + length w"
    using tk(4) skip_ws_here [OF dr closes_no_ws [OF 2(2)]] by simp
  have red: "parseredirs inp (EXEC []) (s + length w) = PDone (EXEC [], s + length w)"
    using 2(2) by (intro parseredirs_here [OF dr closes_no_ws]) (auto simp: closes_def)
  have "\<exists>ps. parseargs inp (args @ [(s, s + length w)]) (EXEC []) (s + length w) = PDone (EXEC ((args @ [(s, s + length w)]) @ ps), s + length w)
      \<and> ps = []"
  proof (cases r)
    case Nil
    with dr have "parseargs inp (args @ [(s, s + length w)]) (EXEC []) (s + length w)
        = PDone (put_argv (args @ [(s, s + length w)]) (EXEC []), tok_end inp (s + length w))"
      using end_token [of "s + length w" inp] by (intro parseargs_end) (simp_all add: peek_here [OF dr closes_no_ws [OF 2(2)]])
    with dr Nil end_token [of "s + length w" inp] show ?thesis by simp
  next
    case (Cons y r')
    then have "y = 41" using 2(2) by (simp add: closes_def)
    with Cons have "fst (peek inp (s + length w) [124, 41, 38, 59])" by (simp add: peek_here [OF dr closes_no_ws [OF 2(2)]] in_set_iff)
    from parseargs_hit [OF this] show ?thesis by (simp add: peek_here [OF dr closes_no_ws [OF 2(2)]])
  qed
  moreover have "parseargs inp args (EXEC []) s = parseargs inp (args @ [(s, s + length w)]) (EXEC []) (s + length w)"
    using parseargs_step [of inp s s args "EXEC []"] pk tk te red 2(4) by simp
  ultimately show ?case using d by simp
next
  case (3 w v ws)
  then have d: "drop s inp = w @ 32 # unwords (v # ws) @ r" and w: "wf_word w" by simp_all
  obtain x w' where x: "w = x # w'" "is_word x" "x \<noteq> 0" using w by (cases w) (auto simp: wf_word_def)
  have nw: "no_ws (w @ 32 # unwords (v # ws) @ r)" using x word_not_sym by (auto simp: no_ws_def)
  have pk: "peek inp s [124, 41, 38, 59] = (False, s)"
    using x word_not_sym [OF x(2)] by (simp add: peek_here [OF d nw] in_set_iff)
  note tk = word_token [OF d w]
  have v: "wf_word v" using 3(4) by simp
  obtain y v' where y: "unwords (v # ws) @ r = y # v'" "is_word y" "y \<noteq> 0"
    using v by (cases v; cases ws) (auto simp: wf_word_def)
  have d1: "drop (s + length w) inp = 32 # y # v'" using at_append [OF d] y by simp
  have d2: "drop (Suc (s + length w)) inp = unwords (v # ws) @ r" using at_Cons(3) [OF d1] y by simp
  have nw2: "no_ws (y # v')" using word_not_sym [OF y(2)] by (simp add: no_ws_def)
  have te: "tok_end inp s = Suc (s + length w)"
  proof -
    have "skip_ws inp (s + length w) = Suc (s + length w)"
      using d1 word_not_sym [OF y(2)] by (simp add: skip_ws_def)
    then show ?thesis using tk(4) by simp
  qed
  have red: "parseredirs inp (EXEC []) (Suc (s + length w)) = PDone (EXEC [], Suc (s + length w))"
    using word_not_sym [OF y(2)] by (intro parseredirs_here [OF d2]) (auto simp: y nw2)
  have "\<exists>ps. parseargs inp (args @ [(s, s + length w)]) (EXEC []) (Suc (s + length w))
        = PDone (EXEC ((args @ [(s, s + length w)]) @ ps), Suc (s + length w) + length (unwords (v # ws)))
      \<and> map (\<lambda>(q, e). take (e - q) (drop q inp)) ps = v # ws"
    using 3(3,4,5) by (intro "3.IH" [OF d2]) auto
  then obtain ps where ps: "parseargs inp (args @ [(s, s + length w)]) (EXEC []) (Suc (s + length w))
        = PDone (EXEC ((args @ [(s, s + length w)]) @ ps), Suc (s + length w) + length (unwords (v # ws)))"
      "map (\<lambda>(q, e). take (e - q) (drop q inp)) ps = v # ws" by (elim exE conjE)
  moreover have "parseargs inp args (EXEC []) s = parseargs inp (args @ [(s, s + length w)]) (EXEC []) (Suc (s + length w))"
    using parseargs_step [of inp s s args "EXEC []"] pk tk te red 3(5) by simp
  ultimately show ?case
    using d by (intro exI [of _ "(s, s + length w) # ps"]) simp
qed

subsection \<open>Composite commands\<close>

lemma unwords_start:
  assumes "\<forall>w \<in> set ws. wf_word w" and "ws \<noteq> []"
  obtains y t where "unwords ws = y # t" and "is_word y" and "y \<noteq> 0"
proof -
  obtain w vs where ws: "ws = w # vs" using assms(2) by (cases ws) auto
  then obtain y w' where y: "w = y # w'" "is_word y" "y \<noteq> 0" using assms(1) by (cases w) (auto simp: wf_word_def)
  with ws that show ?thesis by (cases vs) auto
qed

lemma unparse_no_ws: "wf_scmd c \<Longrightarrow> no_ws r \<Longrightarrow> no_ws (unparse c @ r)"
proof (cases c)
  case (SEXEC args)
  assume wf: "wf_scmd c" and "no_ws r"
  show ?thesis
  proof (cases "args = []")
    case True
    with SEXEC \<open>no_ws r\<close> show ?thesis by simp
  next
    case False
    have "\<forall>w \<in> set args. wf_word w" using wf SEXEC by simp
    from unwords_start [OF this False] obtain y t where y: "unwords args = y # t" "is_word y" by blast
    with word_not_sym [OF y(2)] SEXEC show ?thesis by (simp add: no_ws_def)
  qed
qed (auto simp: no_ws_def)

lemma pipe_tail:
  "parseexec d inp s = PDone (c, s') \<Longrightarrow> drop s' inp = r \<Longrightarrow> no_ws r \<Longrightarrow> r = [] \<or> hd r \<noteq> 124 \<Longrightarrow>
     parsepipe (Suc d) inp s = PDone (c, s')"
  by (auto simp: peek_here in_set_iff)

lemma line_tail:
  "parsepipe d inp s = PDone (c, s') \<Longrightarrow> drop s' inp = r \<Longrightarrow> closes r \<Longrightarrow> parseline (Suc d) inp s = PDone (c, s')"
  by (auto simp: peek_here closes_no_ws in_set_iff parseback_end closes_def)

text \<open>The statement of the induction, for one command.\<close>

definition parses_back :: "scmd \<Rightarrow> bool" where
  "parses_back c \<longleftrightarrow>
     (\<forall>inp s r d. drop s inp = unparse c @ r \<longrightarrow> closes r \<longrightarrow> need inp s + 4 \<le> d \<longrightarrow>
        (\<exists>c'. parseline d inp s = PDone (c', s + length (unparse c)) \<and> slices inp c' = c))"

lemma block_back:
  assumes "parses_back c" and "wf_scmd c" and "drop s inp = 40 # unparse c @ 41 # r" and "no_ws r" and "need inp s \<le> d"
  obtains c' where "parseexec (Suc (Suc d)) inp s = parseredirs inp c' (s + length (unparse c) + 2)"
    and "slices inp c' = c" and "drop (s + length (unparse c) + 2) inp = r"
proof -
  have nw: "no_ws (40 # unparse c @ 41 # r)" by (simp add: no_ws_def)
  have pk: "peek inp s [40] = (True, s)" by (simp add: peek_here [OF assms(3) nw] in_set_iff)
  have d1: "drop (Suc s) inp = unparse c @ 41 # r" by (rule at_Cons(3) [OF assms(3)])
  have "no_ws (unparse c @ 41 # r)" using assms(2) by (intro unparse_no_ws) (auto simp: no_ws_def)
  then have te: "tok_end inp s = Suc s" using sym_token(2) [OF assms(3)] by simp
  have "need inp (Suc s) + 4 \<le> d"
    using need_less [of s "Suc s" inp] at_Cons(1) [OF assms(3)] assms(5) by simp
  then obtain c' where l: "parseline d inp (Suc s) = PDone (c', Suc s + length (unparse c))" "slices inp c' = c"
    using assms(1) d1 unfolding parses_back_def closes_def by fastforce
  have d2: "drop (Suc s + length (unparse c)) inp = 41 # r" by (rule at_append [OF d1])
  have "no_ws (41 # r)" by (simp add: no_ws_def)
  then have pk2: "peek inp (Suc s + length (unparse c)) [41] = (True, Suc s + length (unparse c))"
    by (simp add: peek_here [OF d2] in_set_iff del: add_Suc)
  have te2: "tok_end inp (Suc s + length (unparse c)) = s + length (unparse c) + 2"
    using sym_token(2) [OF d2 _ assms(4)] by simp
  have "parseexec (Suc (Suc d)) inp s = parseredirs inp c' (s + length (unparse c) + 2)"
    by (simp add: pk te l pk2 te2 del: add_Suc add_2_eq_Suc')
  moreover have "drop (s + length (unparse c) + 2) inp = r" using at_Cons(3) [OF d2] by simp
  ultimately show ?thesis using that l(2) by blast
qed

lemma fuel5:
  assumes "need inp s + 4 \<le> d" and "s < length inp"
  obtains d0 where "d = Suc (Suc (Suc (Suc (Suc d0))))" and "need inp s \<le> Suc d0"
proof -
  have "5 \<le> d" using assms by (simp add: need_def)
  then have "d = Suc (Suc (Suc (Suc (Suc (d - 5)))))" by simp
  with assms that show ?thesis by (simp add: need_def)
qed

lemma back_SEXEC: "wf_scmd (SEXEC args) \<Longrightarrow> parses_back (SEXEC args)"
  unfolding parses_back_def
proof (intro allI impI)
  fix inp s r d
  assume wf: "wf_scmd (SEXEC args)" and d: "drop s inp = unparse (SEXEC args) @ r" and cl: "closes r" and "need inp s + 4 \<le> d"
  then have "d = Suc (Suc (Suc (d - 3)))" by simp
  then obtain d0 where f: "d = Suc (Suc (Suc d0))" by blast
  let ?t = "unwords args @ r"
  have d': "drop s inp = ?t" using d by simp
  have nw: "no_ws ?t" using unparse_no_ws [OF wf closes_no_ws [OF cl]] by simp
  have hd: "?t = [] \<or> hd ?t \<notin> {40, 60, 62}"
  proof (cases "args = []")
    case True
    with cl show ?thesis by (auto simp: closes_def)
  next
    case False
    have "\<forall>w \<in> set args. wf_word w" using wf by simp
    from unwords_start [OF this False] obtain y t where y: "unwords args = y # t" "is_word y" by blast
    with word_not_sym [OF y(2)] show ?thesis by simp
  qed
  have pk: "peek inp s [40] = (False, s)" using hd by (auto simp: peek_here [OF d' nw] in_set_iff)
  have red: "parseredirs inp (EXEC []) s = PDone (EXEC [], s)" using hd by (intro parseredirs_here [OF d' nw]) auto
  from parseargs_words [OF d' cl, of "[]"] wf obtain ps
    where ps: "parseargs inp [] (EXEC []) s = PDone (EXEC ps, s + length (unwords args))"
      "map (\<lambda>(q, e). take (e - q) (drop q inp)) ps = args" by auto
  have "parseexec (Suc d0) inp s = PDone (EXEC ps, s + length (unwords args))" by (simp add: pk red ps)
  from line_tail [OF pipe_tail [OF this at_append [OF d'] closes_no_ws [OF cl]] at_append [OF d'] cl] cl ps(2)
  show "\<exists>c'. parseline d inp s = PDone (c', s + length (unparse (SEXEC args))) \<and> slices inp c' = SEXEC args"
    unfolding f by (auto simp: closes_def)
qed

lemma back_SREDIR:
  assumes "parses_back c" and wf: "wf_scmd (SREDIR c f mode fd)"
  shows "parses_back (SREDIR c f mode fd)"
  unfolding parses_back_def
proof (intro allI impI)
  fix inp s r d
  define x where "x = (if fd = 0 then 60 else 62 :: byte)"
  assume d0: "drop s inp = unparse (SREDIR c f mode fd) @ r" and cl: "closes r" and fuel: "need inp s + 4 \<le> d"
  then have d1: "drop s inp = 40 # unparse c @ 41 # x # f @ r" by (simp add: x_def)
  from fuel5 [OF fuel at_Cons(1) [OF d1]] obtain d0 where f: "d = Suc (Suc (Suc (Suc (Suc d0))))" "need inp s \<le> Suc d0" by blast
  have wfc: "wf_scmd c" "wf_word f" using wf by simp_all
  have nx: "no_ws (x # f @ r)" by (simp add: no_ws_def x_def)
  from block_back [OF assms(1) wfc(1) d1 nx f(2)] obtain c'
    where e: "parseexec (Suc (Suc (Suc d0))) inp s = parseredirs inp c' (s + length (unparse c) + 2)"
      and sl: "slices inp c' = c" and d2: "drop (s + length (unparse c) + 2) inp = x # f @ r" by blast
  define p where "p = s + length (unparse c) + 2"
  obtain y f' where y: "f = y # f'" "is_word y" using wfc(2) by (cases f) (auto simp: wf_word_def)
  have nf: "no_ws (f @ r)" "f @ r = [] \<or> hd (f @ r) \<noteq> 62" using y word_not_sym [OF y(2)] by (auto simp: no_ws_def)
  have pk: "peek inp p [60, 62] = (True, p)" using d2 nx by (simp add: peek_here p_def in_set_iff x_def)
  have tx: "tok_kind inp p = x" "tok_end inp p = Suc p"
  proof -
    have "tok_kind inp p = x \<and> tok_end inp p = Suc p"
    proof (cases "fd = 0")
      case True
      then have "drop p inp = 60 # f @ r" "x = 60" using d2 by (simp_all add: p_def x_def)
      with sym_token [of p inp 60 "f @ r"] nf show ?thesis by simp
    next
      case False
      then have "drop p inp = 62 # f @ r" "x = 62" using d2 by (simp_all add: p_def x_def)
      with gt_token [of p inp "f @ r"] nf show ?thesis by simp
    qed
    then show "tok_kind inp p = x" "tok_end inp p = Suc p" by simp_all
  qed
  have d3: "drop (Suc p) inp = f @ r" using at_Cons(3) [OF d2] by (simp add: p_def)
  have rr: "r = [] \<or> \<not> is_word (hd r)" using cl by (auto simp: closes_def)
  note tk = word_token [OF d3 wfc(2) rr]
  have d4: "drop (Suc p + length f) inp = r" by (rule at_append [OF d3])
  have te: "tok_end inp (Suc p) = Suc p + length f" using tk(4) skip_ws_here [OF d4 closes_no_ws [OF cl]] by simp
  have red: "redir_of x c' (Suc p) (Suc p + length f) = REDIR c' (Suc p) (Suc p + length f) mode fd"
    using wf by (auto simp: redir_of_def x_def)
  have "parseredirs inp c' p = parseredirs inp (REDIR c' (Suc p) (Suc p + length f) mode fd) (Suc p + length f)"
    using parseredirs_step [of inp p p "Suc p" c'] pk tx tk te red by simp
  also have "\<dots> = PDone (REDIR c' (Suc p) (Suc p + length f) mode fd, Suc p + length f)"
    using cl by (intro parseredirs_here [OF d4 closes_no_ws]) (auto simp: closes_def)
  finally have "parseexec (Suc (Suc (Suc d0))) inp s = PDone (REDIR c' (Suc p) (Suc p + length f) mode fd, Suc p + length f)"
    using e by (simp add: p_def)
  from line_tail [OF pipe_tail [OF this d4 closes_no_ws [OF cl]] d4 cl] cl
  have "parseline d inp s = PDone (REDIR c' (Suc p) (Suc p + length f) mode fd, Suc p + length f)"
    unfolding f by (auto simp: closes_def)
  then show "\<exists>c'. parseline d inp s = PDone (c', s + length (unparse (SREDIR c f mode fd))) \<and> slices inp c' = SREDIR c f mode fd"
    using d3 sl by (simp add: p_def)
qed

lemma back_SPIPE:
  assumes "parses_back l" and "parses_back r" and wf: "wf_scmd (SPIPE l r)"
  shows "parses_back (SPIPE l r)"
  unfolding parses_back_def
proof (intro allI impI)
  fix inp s rest d
  assume d0: "drop s inp = unparse (SPIPE l r) @ rest" and cl: "closes rest" and fuel: "need inp s + 4 \<le> d"
  then have d1: "drop s inp = 40 # unparse l @ 41 # 124 # 40 # unparse r @ 41 # rest" by simp
  from fuel5 [OF fuel at_Cons(1) [OF d1]] obtain d0 where f: "d = Suc (Suc (Suc (Suc (Suc d0))))" "need inp s \<le> Suc d0" by blast
  have n1: "no_ws (124 # 40 # unparse r @ 41 # rest)" by (simp add: no_ws_def)
  from block_back [OF assms(1) _ d1 n1 f(2)] wf obtain l'
    where e: "parseexec (Suc (Suc (Suc d0))) inp s = parseredirs inp l' (s + length (unparse l) + 2)"
      and sl: "slices inp l' = l" and d2: "drop (s + length (unparse l) + 2) inp = 124 # 40 # unparse r @ 41 # rest" by auto
  define p where "p = s + length (unparse l) + 2"
  have e1: "parseexec (Suc (Suc (Suc d0))) inp s = PDone (l', p)"
    using e d2 n1 parseredirs_here [OF d2 n1, of l'] by (simp add: p_def)
  have d3: "drop (Suc p) inp = 40 # unparse r @ 41 # rest" using at_Cons(3) [OF d2] by (simp add: p_def)
  have n3: "no_ws (40 # unparse r @ 41 # rest)" by (simp add: no_ws_def)
  have pk: "peek inp p [124] = (True, p)" using peek_here [OF d2 n1] by (simp add: p_def in_set_iff)
  have te: "tok_end inp p = Suc p" using sym_token(2) [OF d2 _ n3] by (simp add: p_def)
  have "need inp (Suc p) \<le> d0"
    using need_less [of s "Suc p" inp] at_Cons(1) [OF d1] f(2) by (simp add: p_def)
  from block_back [OF assms(2) _ d3 closes_no_ws [OF cl] this] wf obtain r'
    where e2: "parseexec (Suc (Suc d0)) inp (Suc p) = parseredirs inp r' (Suc p + length (unparse r) + 2)"
      and sr: "slices inp r' = r" and d4: "drop (Suc p + length (unparse r) + 2) inp = rest" by auto
  define q where "q = Suc p + length (unparse r) + 2"
  have d5: "drop q inp = rest" using d4 by (simp add: q_def)
  have "parseredirs inp r' q = PDone (r', q)" using cl by (intro parseredirs_here [OF d5 closes_no_ws]) (auto simp: closes_def)
  then have "parseexec (Suc (Suc d0)) inp (Suc p) = PDone (r', q)" using e2 by (simp add: q_def)
  from pipe_tail [OF this d5 closes_no_ws [OF cl]] cl have p2: "parsepipe (Suc (Suc (Suc d0))) inp (Suc p) = PDone (r', q)"
    by (auto simp: closes_def)
  have "parsepipe (Suc (Suc (Suc (Suc d0)))) inp s = PDone (PIPE l' r', q)"
    by (subst parsepipe.simps) (simp add: e1 pk te p2 del: parsepipe.simps parseexec.simps)
  from line_tail [OF this d5 cl] sl sr
  show "\<exists>c'. parseline d inp s = PDone (c', s + length (unparse (SPIPE l r))) \<and> slices inp c' = SPIPE l r"
    unfolding f by (intro exI [of _ "PIPE l' r'"]) (simp add: q_def p_def del: parseline.simps)
qed

lemma back_SLIST:
  assumes "parses_back l" and "parses_back r" and wf: "wf_scmd (SLIST l r)"
  shows "parses_back (SLIST l r)"
  unfolding parses_back_def
proof (intro allI impI)
  fix inp s rest d
  assume d0: "drop s inp = unparse (SLIST l r) @ rest" and cl: "closes rest" and fuel: "need inp s + 4 \<le> d"
  then have d1: "drop s inp = 40 # unparse l @ 41 # 59 # 40 # unparse r @ 41 # rest" by simp
  from fuel5 [OF fuel at_Cons(1) [OF d1]] obtain d0 where f: "d = Suc (Suc (Suc (Suc (Suc d0))))" "need inp s \<le> Suc d0" by blast
  have n1: "no_ws (59 # 40 # unparse r @ 41 # rest)" by (simp add: no_ws_def)
  from block_back [OF assms(1) _ d1 n1 f(2)] wf obtain l'
    where e: "parseexec (Suc (Suc (Suc d0))) inp s = parseredirs inp l' (s + length (unparse l) + 2)"
      and sl: "slices inp l' = l" and d2: "drop (s + length (unparse l) + 2) inp = 59 # 40 # unparse r @ 41 # rest" by auto
  define p where "p = s + length (unparse l) + 2"
  have d2': "drop p inp = 59 # 40 # unparse r @ 41 # rest" using d2 by (simp add: p_def)
  have "parseexec (Suc (Suc (Suc d0))) inp s = PDone (l', p)"
    using e parseredirs_here [OF d2 n1, of l'] by (simp add: p_def)
  from pipe_tail [OF this d2' n1] have p1: "parsepipe (Suc (Suc (Suc (Suc d0)))) inp s = PDone (l', p)" by simp
  have d3: "drop (Suc p) inp = 40 # unparse r @ 41 # rest" by (rule at_Cons(3) [OF d2'])
  have n3: "no_ws (40 # unparse r @ 41 # rest)" by (simp add: no_ws_def)
  have pk: "peek inp p [38] = (False, p)" "peek inp p [59] = (True, p)" by (simp_all add: peek_here [OF d2' n1] in_set_iff)
  have pb: "parseback inp l' p = (l', p)" using parseback_end [of inp p l'] pk by simp
  have te: "tok_end inp p = Suc p" using sym_token(2) [OF d2' _ n3] by simp
  have "need inp (Suc p) \<le> d0"
    using need_less [of s "Suc p" inp] at_Cons(1) [OF d1] f(2) by (simp add: p_def)
  from block_back [OF assms(2) _ d3 closes_no_ws [OF cl] this] wf obtain r'
    where e2: "parseexec (Suc (Suc d0)) inp (Suc p) = parseredirs inp r' (Suc p + length (unparse r) + 2)"
      and sr: "slices inp r' = r" and d4: "drop (Suc p + length (unparse r) + 2) inp = rest" by auto
  define q where "q = Suc p + length (unparse r) + 2"
  have d5: "drop q inp = rest" using d4 by (simp add: q_def)
  have "parseredirs inp r' q = PDone (r', q)" using cl by (intro parseredirs_here [OF d5 closes_no_ws]) (auto simp: closes_def)
  then have "parseexec (Suc (Suc d0)) inp (Suc p) = PDone (r', q)" using e2 by (simp add: q_def)
  from line_tail [OF pipe_tail [OF this d5 closes_no_ws [OF cl]] d5 cl] cl
  have p2: "parseline (Suc (Suc (Suc (Suc d0)))) inp (Suc p) = PDone (r', q)" by (auto simp: closes_def)
  have "parseline (Suc (Suc (Suc (Suc (Suc d0))))) inp s = PDone (LIST l' r', q)"
    by (subst parseline.simps) (simp add: p1 pb pk te p2 del: parseline.simps parsepipe.simps)
  with sl sr show "\<exists>c'. parseline d inp s = PDone (c', s + length (unparse (SLIST l r))) \<and> slices inp c' = SLIST l r"
    unfolding f by (intro exI [of _ "LIST l' r'"]) (simp add: q_def p_def del: parseline.simps)
qed

lemma back_SBACK:
  assumes "parses_back c" and wf: "wf_scmd (SBACK c)"
  shows "parses_back (SBACK c)"
  unfolding parses_back_def
proof (intro allI impI)
  fix inp s rest d
  assume d0: "drop s inp = unparse (SBACK c) @ rest" and cl: "closes rest" and fuel: "need inp s + 4 \<le> d"
  then have d1: "drop s inp = 40 # unparse c @ 41 # 38 # rest" by simp
  from fuel5 [OF fuel at_Cons(1) [OF d1]] obtain d0 where f: "d = Suc (Suc (Suc (Suc (Suc d0))))" "need inp s \<le> Suc d0" by blast
  have n1: "no_ws (38 # rest)" by (simp add: no_ws_def)
  from block_back [OF assms(1) _ d1 n1 f(2)] wf obtain c'
    where e: "parseexec (Suc (Suc (Suc d0))) inp s = parseredirs inp c' (s + length (unparse c) + 2)"
      and sl: "slices inp c' = c" and d2: "drop (s + length (unparse c) + 2) inp = 38 # rest" by auto
  define p where "p = s + length (unparse c) + 2"
  have d2': "drop p inp = 38 # rest" using d2 by (simp add: p_def)
  have "parseexec (Suc (Suc (Suc d0))) inp s = PDone (c', p)"
    using e parseredirs_here [OF d2 n1, of c'] by (simp add: p_def)
  from pipe_tail [OF this d2' n1] have p1: "parsepipe (Suc (Suc (Suc (Suc d0)))) inp s = PDone (c', p)" by simp
  have d3: "drop (Suc p) inp = rest" by (rule at_Cons(3) [OF d2'])
  have pk: "peek inp p [38] = (True, p)" by (simp add: peek_here [OF d2' n1] in_set_iff)
  have te: "tok_end inp p = Suc p" using sym_token(2) [OF d2' _ closes_no_ws [OF cl]] by simp
  have pk2: "peek inp (Suc p) [38] = (False, Suc p)" "peek inp (Suc p) [59] = (False, Suc p)"
    using cl by (auto simp: peek_here [OF d3 closes_no_ws [OF cl]] in_set_iff closes_def)
  have pb: "parseback inp c' p = (BACK c', Suc p)"
    using parseback_step [of inp p c'] parseback_end [of inp "Suc p" "BACK c'"] pk pk2 te by simp
  have "parseline (Suc (Suc (Suc (Suc (Suc d0))))) inp s = PDone (BACK c', Suc p)"
    by (subst parseline.simps) (simp add: p1 pb pk2 del: parseline.simps parsepipe.simps)
  with sl show "\<exists>c'. parseline d inp s = PDone (c', s + length (unparse (SBACK c))) \<and> slices inp c' = SBACK c"
    unfolding f by (intro exI [of _ "BACK c'"]) (simp add: p_def del: parseline.simps)
qed

lemma wf_parses_back: "wf_scmd c \<Longrightarrow> parses_back c"
proof (induction c)
  case (SREDIR c f mode fd)
  then show ?case by (intro back_SREDIR) auto
qed (auto intro: back_SEXEC back_SPIPE back_SLIST back_SBACK)

lemma unparse_no_nul: "wf_scmd c \<Longrightarrow> 0 \<notin> set (unparse c)"
proof (induction c)
  case (SEXEC args)
  then show ?case by (induction args rule: unwords.induct) (auto simp: wf_word_def)
next
  case (SREDIR c f mode fd)
  then show ?case by (auto simp: wf_word_def)
qed auto

lemma resolve_slices:
  assumes "\<And>q e. (q, e) \<in> words c \<Longrightarrow> cstring (drop q b) = take (e - q) (drop q inp)"
  shows "resolve b c = slices inp c"
  using assms by (induction c) auto

text \<open>C9. The parser inverts the printer: for every command whose words contain no blank, symbol or NUL, that has
  fewer than \<^verbatim>\<open>MAXARGS\<close> arguments and only the redirections the shell knows, \<^verbatim>\<open>parsecmd\<close> of its text succeeds,
  and the strings its pointers stand for afterwards are those of the command.\<close>

theorem parse_unparse:
  assumes "wf_scmd c"
  shows "\<exists>c' b. parsecmd (unparse c) = PDone (c', b) \<and> resolve b c' = c"
proof -
  let ?inp = "unparse c"
  have "need ?inp 0 + 4 \<le> parse_depth ?inp" by (simp add: need_def parse_depth_def)
  moreover have "drop 0 ?inp = unparse c @ []" by simp
  ultimately obtain c' where p: "parseline (parse_depth ?inp) ?inp 0 = PDone (c', length ?inp)" and sl: "slices ?inp c' = c"
    using wf_parses_back [OF assms] unfolding parses_back_def closes_def by (metis add_0)
  have "snd (peek ?inp (length ?inp) []) = length ?inp" by (simp add: peek_def Let_def skip_ws_def)
  with p have "parsecmd ?inp = PDone (c', nulterminate c' (?inp @ [0]))" by (simp add: parsecmd_def)
  moreover have "all_ok ?inp c'" using p parse_ok by blast
  then have "resolve (nulterminate c' (?inp @ [0])) c' = slices ?inp c'"
    using word_string [OF unparse_no_nul [OF assms]] by (intro resolve_slices) auto
  ultimately show ?thesis using sl by auto
qed

theorem parse_unparse_witness:
  "\<exists>c b. parsecmd (unparse (SPIPE (SEXEC [[97], [98]]) (SREDIR (SEXEC [[99]]) [100] (O_WRONLY OR O_CREATE) 1))) = PDone (c, b)
     \<and> resolve b c = SPIPE (SEXEC [[97], [98]]) (SREDIR (SEXEC [[99]]) [100] (O_WRONLY OR O_CREATE) 1)"
  by (rule parse_unparse)
    (simp add: wf_word_def is_word_def is_ws_def is_sym_def in_set_iff whitespace_def symbols_def MAXARGS_def)

end
