(* ===== verification/Sh_Run.thy ===== *)
theory Sh_Run
  imports Sh
begin

text \<open>
  Properties of the shell's execution and history: the system calls of \<^verbatim>\<open>runcmd\<close> give every program the descriptors
  that the command describes, and the history keeps and lists the last ten commands.
\<close>

section \<open>Descriptors\<close>

text \<open>Descriptor tables and the effect of a program when every call succeeds: the programs executed, each with the
  table it gets. A new descriptor is the lowest free one, as \<^verbatim>\<open>fdalloc\<close> of the kernel chooses it. Pipes are named by the
  position of the \<^verbatim>\<open>pipe\<close> call in the tree of processes.\<close>

datatype fobj = FTerm nat | FFile "byte list" uint | FPipeR "nat list" | FPipeW "nat list"

type_synonym fdtab = "nat \<rightharpoonup> fobj"

definition lowest :: "fdtab \<Rightarrow> nat option" where
  "lowest tab = List.find (\<lambda>fd. tab fd = None) [0..<16]"

fun fdnum :: "nat \<times> nat \<Rightarrow> fdref \<Rightarrow> nat" where
  "fdnum p (Fd n) = n"
| "fdnum p PipeR = fst p"
| "fdnum p PipeW = snd p"

fun run :: "prog \<Rightarrow> nat list \<Rightarrow> nat \<times> nat \<Rightarrow> fdtab \<Rightarrow> (byte list list \<times> fdtab) list" where
  "run PExit pos p tab = []"
| "run (PExec argv q) pos p tab = [(argv, tab)]"
| "run (PPrintf fd t q) pos p tab = run q pos p tab"
| "run (PClose f q) pos p tab = run q pos p (tab(fdnum p f := None))"
| "run (PDup f q) pos p tab =
     run q pos p (case lowest tab of Some n \<Rightarrow> tab(n := tab (fdnum p f)) | None \<Rightarrow> tab)"
| "run (POpen f mode bad q) pos p tab =
     (case lowest tab of Some n \<Rightarrow> run q pos p (tab(n \<mapsto> FFile f mode)) | None \<Rightarrow> run bad pos p tab)"
| "run (PPipe bad q) pos p tab =
     (case lowest tab of
        None \<Rightarrow> run bad pos p tab
      | Some r \<Rightarrow>
          (case lowest (tab(r \<mapsto> FPipeR pos)) of
             None \<Rightarrow> run bad pos p tab
           | Some w \<Rightarrow> run q (2 # pos) (r, w) (tab(r \<mapsto> FPipeR pos, w \<mapsto> FPipeW pos))))"
| "run (PFork bad child par) pos p tab = run child (0 # pos) p tab @ run par (1 # pos) p tab"
| "run (PWait q) pos p tab = run q pos p tab"

text \<open>What the command means: a pipe connects descriptor 1 of the left side with descriptor 0 of the right side and
  appears nowhere else, a redirection replaces one descriptor.\<close>

fun denote :: "scmd \<Rightarrow> nat list \<Rightarrow> fdtab \<Rightarrow> (byte list list \<times> fdtab) list" where
  "denote (SEXEC argv) pos tab = (if argv = [] then [] else [(argv, tab)])"
| "denote (SREDIR c f mode fd) pos tab = denote c pos (tab(fd \<mapsto> FFile f mode))"
| "denote (SPIPE l r) pos tab =
     denote l (0 # 2 # pos) (tab(1 \<mapsto> FPipeW pos)) @ denote r (0 # 1 # 2 # pos) (tab(0 \<mapsto> FPipeR pos))"
| "denote (SLIST l r) pos tab = denote l (0 # pos) tab @ denote r (1 # pos) tab"
| "denote (SBACK c) pos tab = denote c (0 # pos) tab"

fun std_redirs :: "scmd \<Rightarrow> bool" where
  "std_redirs (SEXEC argv) = True"
| "std_redirs (SREDIR c f mode fd) = (fd < 2 \<and> std_redirs c)"
| "std_redirs (SPIPE l r) = (std_redirs l \<and> std_redirs r)"
| "std_redirs (SLIST l r) = (std_redirs l \<and> std_redirs r)"
| "std_redirs (SBACK c) = std_redirs c"

lemma upt16: "[0..<16] = [0, 1, 2, 3, 4, 5, 6, 7, 8, 9, 10, 11, 12, 13, 14, 15 :: nat]"
  by (simp add: upt_rec)

lemma std_open:
  assumes "dom (tab :: fdtab) = {0, 1, 2}"
  shows "tab 0 \<noteq> None" and "tab 1 \<noteq> None" and "tab 2 \<noteq> None" and "tab 3 = None" and "tab 4 = None"
proof -
  have d: "n \<in> dom tab \<longleftrightarrow> n = 0 \<or> n = 1 \<or> n = 2" for n using assms by auto
  from d [of 0] d [of 1] d [of 2] d [of 3] d [of 4] show "tab 0 \<noteq> None" and "tab 1 \<noteq> None" and "tab 2 \<noteq> None" and "tab 3 = None" and "tab 4 = None"
    by (simp_all add: domIff)
qed

text \<open>C11. \<^verbatim>\<open>runcmd\<close> implements the meaning of commands: started with exactly the descriptors 0, 1 and 2 open, the
  programs it executes are those of the command, in order, and each of them has exactly the descriptors the command
  gives it. In particular no process keeps an end of a pipe it does not use.\<close>

theorem runcmd_denotes:
  assumes "dom tab = {0, 1, 2}" and "std_redirs c"
  shows "run (runcmd c) pos p tab = denote c pos tab"
  using assms
proof (induction c arbitrary: pos p tab)
  case (SEXEC argv)
  then show ?case by (cases argv) simp_all
next
  case (SREDIR c f mode fd)
  note op = std_open [OF SREDIR.prems(1)]
  have fd: "fd = 0 \<or> fd = 1" using SREDIR.prems(2) by auto
  have low: "lowest (tab(fd := None)) = Some fd" using fd op by (elim disjE) (simp_all add: lowest_def upt16)
  have "dom (tab(fd \<mapsto> FFile f mode)) = {0, 1, 2}" using fd SREDIR.prems(1) by (elim disjE) (simp_all add: insert_commute)
  then have "run (runcmd c) pos p (tab(fd \<mapsto> FFile f mode)) = denote c pos (tab(fd \<mapsto> FFile f mode))"
    by (rule SREDIR.IH) (use SREDIR.prems(2) in simp)
  moreover have "run (runcmd (SREDIR c f mode fd)) pos p tab = run (runcmd c) pos p (tab(fd \<mapsto> FFile f mode))"
    by (simp only: runcmd.simps run.simps(4,6) fdnum.simps(1) low option.simps(5) fun_upd_upd)
  ultimately show ?case unfolding denote.simps by argo
next
  case (SPIPE l r)
  note op = std_open [OF SPIPE.prems(1)]
  let ?t = "tab(3 \<mapsto> FPipeR pos, 4 \<mapsto> FPipeW pos)"
  have low: "lowest tab = Some 3" "lowest (tab(3 \<mapsto> FPipeR pos)) = Some 4"
    "lowest (?t(1 := None)) = Some 1" "lowest (?t(0 := None)) = Some 0"
    using op by (simp_all add: lowest_def upt16)
  have l: "?t(1 := None, 1 \<mapsto> FPipeW pos, 3 := None, 4 := None) = tab(1 \<mapsto> FPipeW pos)"
    and r: "?t(0 := None, 0 \<mapsto> FPipeR pos, 3 := None, 4 := None) = tab(0 \<mapsto> FPipeR pos)"
    using op by (auto simp: fun_eq_iff)
  have d: "dom (tab(1 \<mapsto> FPipeW pos)) = {0, 1, 2}" "dom (tab(0 \<mapsto> FPipeR pos)) = {0, 1, 2}"
    using SPIPE.prems(1) by (simp_all add: insert_commute)
  have "run (runcmd (SPIPE l r)) pos p tab =
      run (runcmd l) (0 # 2 # pos) (3, 4) (?t(1 := None, 1 \<mapsto> FPipeW pos, 3 := None, 4 := None)) @
      run (runcmd r) (0 # 1 # 2 # pos) (3, 4) (?t(0 := None, 0 \<mapsto> FPipeR pos, 3 := None, 4 := None))"
    using low by (simp add: fork1_def)
  also have "\<dots> = denote (SPIPE l r) pos tab"
    unfolding l r denote.simps using SPIPE.prems(2) by (simp only: SPIPE.IH(1) [OF d(1)] SPIPE.IH(2) [OF d(2)] std_redirs.simps)
  finally show ?case .
qed (auto simp: fork1_def)

theorem runcmd_denotes_witness:
  "run (runcmd (SPIPE (SEXEC [[97]]) (SEXEC [[98]]))) [] (0, 0) [0 \<mapsto> FTerm 0, 1 \<mapsto> FTerm 1, 2 \<mapsto> FTerm 2] =
     [([[97]], [0 \<mapsto> FTerm 0, 1 \<mapsto> FTerm 1, 2 \<mapsto> FTerm 2](1 \<mapsto> FPipeW [])),
      ([[98]], [0 \<mapsto> FTerm 0, 1 \<mapsto> FTerm 1, 2 \<mapsto> FTerm 2](0 \<mapsto> FPipeR []))]"
  by (subst runcmd_denotes) (auto simp: dom_def)

section \<open>History\<close>

text \<open>The commands entered so far, oldest first, stored one after the other.\<close>

fun remember :: "byte list list \<Rightarrow> hist \<Rightarrow> int \<Rightarrow> (hist \<times> int) option" where
  "remember [] h n = Some (h, n)"
| "remember (l # ls) h n =
     (case historyUpdate h l n of None \<Rightarrow> None | Some (h', n') \<Rightarrow> remember ls h' n')"

text \<open>The array after its initialisation in \<^verbatim>\<open>main\<close>: 100 empty strings of room for 99 characters.\<close>

definition fresh_hist :: "hist \<Rightarrow> bool" where
  "fresh_hist h \<longleftrightarrow> length h = 100 \<and> (\<forall>slot \<in> set h. length slot = 100 \<and> slot ! 0 = 0)"

definition hist_holds :: "byte list list \<Rightarrow> hist \<Rightarrow> bool" where
  "hist_holds ls h \<longleftrightarrow>
     length h = 100 \<and> (\<forall>slot \<in> set h. length slot = 100) \<and>
     (\<forall>k < length ls. length ls \<le> k + 10 \<longrightarrow> cstring (h ! (k mod 10)) = ls ! k) \<and>
     (\<forall>j. 10 \<le> j \<and> j < 100 \<longrightarrow> cstring (h ! j) = [])"

definition storable :: "byte list \<Rightarrow> bool" where
  "storable l \<longleftrightarrow> 0 \<notin> set l \<and> length l < 100"

lemma cstring_append: "0 \<notin> set l \<Longrightarrow> cstring (l @ 0 # r) = l"
  by (induction l) (auto simp: cstring_def)

lemma fresh_holds: "fresh_hist h \<Longrightarrow> hist_holds [] h"
proof -
  assume f: "fresh_hist h"
  have "cstring (h ! j) = []" if "j < 100" for j
  proof -
    have "h ! j \<in> set h" using f that by (simp add: fresh_hist_def)
    then have "length (h ! j) = 100" "h ! j ! 0 = 0" using f by (auto simp: fresh_hist_def)
    then show ?thesis by (cases "h ! j") (auto simp: cstring_def)
  qed
  with f show ?thesis by (auto simp: hist_holds_def fresh_hist_def)
qed

lemma mod10_distinct: "k < n \<Longrightarrow> n < k + 10 \<Longrightarrow> k mod 10 \<noteq> n mod (10 :: nat)"
proof
  assume k: "k < n" "n < k + 10" and "k mod 10 = n mod 10"
  then have "10 dvd n - k" using mod_eq_dvd_iff_nat [of k n 10] by simp
  with k dvd_imp_le [of 10 "n - k"] show False by simp
qed

lemma update_holds:
  assumes "hist_holds ls h" and "storable l"
  shows "\<exists>h'. historyUpdate h l (int (length ls)) = Some (h', int (length (ls @ [l]))) \<and> hist_holds (ls @ [l]) h'"
proof -
  let ?i = "length ls mod 10"
  have len: "length h = 100" "?i < length h" using assms(1) by (auto simp: hist_holds_def)
  then have slot: "length (h ! ?i) = 100" using assms(1) by (auto simp: hist_holds_def)
  have c: "crem (int (length ls)) MAX_HISTORY = int ?i" by (simp add: crem_def MAX_HISTORY_def zmod_int)
  let ?s = "l @ [0] @ drop (length l + 1) (h ! ?i)"
  have cp: "strcpy (h ! ?i) (lptr l) = Some ?s"
    using assms(2) slot by (intro strcpy_ok lptr_cstr) (auto simp: storable_def)
  have u: "historyUpdate h l (int (length ls)) = Some (h[?i := ?s], int (length ls) + 1)"
    using len cp by (simp add: historyUpdate_def hist_at_def c Let_def)
  have "hist_holds (ls @ [l]) (h[?i := ?s])"
    unfolding hist_holds_def
  proof (intro conjI allI impI ballI)
    show "length (h[?i := ?s]) = 100" using len by simp
    show "length x = 100" if "x \<in> set (h[?i := ?s])" for x
    proof -
      have "x = ?s \<or> x \<in> set h" using that set_update_subset_insert by fastforce
      then show ?thesis using assms slot by (auto simp: hist_holds_def storable_def)
    qed
    show "cstring (h[?i := ?s] ! (k mod 10)) = (ls @ [l]) ! k" if "k < length (ls @ [l])" "length (ls @ [l]) \<le> k + 10" for k
    proof (cases "k = length ls")
      case True
      with len assms(2) cstring_append [of l] show ?thesis by (simp add: storable_def)
    next
      case False
      with that have k: "k < length ls" "length ls < k + 10" by simp_all
      then have "k mod 10 \<noteq> ?i" by (rule mod10_distinct)
      with k assms(1) show ?thesis by (auto simp: hist_holds_def nth_append)
    qed
    show "cstring (h[?i := ?s] ! j) = []" if "10 \<le> j \<and> j < 100" for j
    proof -
      have "?i < 10" by simp
      with that have "?i \<noteq> j" by linarith
      then show ?thesis using assms(1) that by (simp add: hist_holds_def)
    qed
  qed
  with u show ?thesis by simp
qed

lemma remember_holds:
  assumes "hist_holds ls h" and "\<forall>l \<in> set ms. storable l"
  shows "\<exists>h'. remember ms h (int (length ls)) = Some (h', int (length (ls @ ms))) \<and> hist_holds (ls @ ms) h'"
  using assms
proof (induction ms arbitrary: ls h)
  case (Cons m ms)
  then obtain h' where h': "historyUpdate h m (int (length ls)) = Some (h', int (length (ls @ [m])))" "hist_holds (ls @ [m]) h'"
    using update_holds by fastforce
  from Cons.IH [OF h'(2)] Cons.prems(2) h'(1) show ?case by simp
qed simp

lemma hist_down_eq:
  assumes "int k \<le> loc + 1" and "loc < int (length h)"
  shows "hist_down k h loc line = Some (map (\<lambda>i. (line - int i, cstring (h ! nat (loc - int i)))) [0..<k])"
  using assms
proof (induction k arbitrary: loc line)
  case (Suc k)
  have "hist_at h loc = Some (h ! nat loc)" using Suc.prems by (simp add: hist_at_def nat_less_iff)
  moreover have "hist_down k h (loc - 1) (line - 1) = Some (map (\<lambda>i. (line - 1 - int i, cstring (h ! nat (loc - 1 - int i)))) [0..<k])"
    using Suc.prems by (intro Suc.IH) auto
  moreover have "map (\<lambda>i. (line - int i, cstring (h ! nat (loc - int i)))) [0..<Suc k] =
      (line, cstring (h ! nat loc)) # map (\<lambda>i. (line - 1 - int i, cstring (h ! nat (loc - 1 - int i)))) [0..<k]"
    by (rule nth_equalityI) (auto simp: nth_append nth_Cons split: nat.splits simp del: upt_Suc, simp_all add: algebra_simps)
  ultimately show ?case by (simp del: upt_Suc)
qed simp

text \<open>The two runs of slots that a listing goes through: down from the newest command, and, once the array has wrapped, down
  from the last slot.\<close>

lemma recent_slots:
  assumes "\<And>i. i < min 10 n \<Longrightarrow> cstring (h ! ((n - 1 - i) mod 10)) = ls ! (n - 1 - i)" and "n \<ge> 1"
  defines "c \<equiv> (n - 1) mod 10"
  shows "map (\<lambda>i. (int n - int i, cstring (h ! nat (int c - int i)))) [0..<Suc c] = map (\<lambda>i. (int (n - i), ls ! (n - 1 - i))) [0..<Suc c]"
proof (rule map_cong [OF refl])
  fix i assume "i \<in> set [0..<Suc c]"
  then have i: "i \<le> c" by auto
  have cn: "c \<le> n - 1" and c10: "c < 10" by (simp_all add: c_def)
  have "n - 1 - i = (c - i) + 10 * ((n - 1) div 10)" using i cn mult_div_mod_eq [of 10 "n - 1"] unfolding c_def by linarith
  moreover have "c - i < 10" using c10 by simp
  ultimately have "(n - 1 - i) mod 10 = c - i" by simp
  moreover have "i < min 10 n" using i cn assms(2) c10 by simp
  ultimately have "cstring (h ! (c - i)) = ls ! (n - 1 - i)" using assms(1) [of i] by simp
  moreover have "nat (int c - int i) = c - i" using i by simp
  moreover have "int n - int i = int (n - i)" using i cn assms(2) by (simp add: of_nat_diff)
  ultimately show "(int n - int i, cstring (h ! nat (int c - int i))) = (int (n - i), ls ! (n - 1 - i))" by (simp only:)
qed

lemma wrapped_slots:
  assumes "\<And>i. i < min 10 n \<Longrightarrow> cstring (h ! ((n - 1 - i) mod 10)) = ls ! (n - 1 - i)" and "10 < n"
  defines "c \<equiv> (n - 1) mod 10"
  shows "map (\<lambda>i. (int n - (int c + 1) - int i, cstring (h ! nat (9 - int i)))) [0..<9 - c]
    = map (\<lambda>i. (int (n - i), ls ! (n - 1 - i))) [Suc c..<10]" (is "?l = ?r")
proof (rule nth_equalityI)
  fix i assume "i < length ?l"
  then have i: "i < 9 - c" by simp
  have c10: "c < 10" by (simp add: c_def)
  let ?j = "Suc c + i"
  obtain m where m: "(n - 1) div 10 = Suc m" using assms(2) by (cases "(n - 1) div 10") auto
  have q: "n - 1 = c + 10 * Suc m" unfolding m [symmetric] c_def by simp
  have "n - 1 - ?j = (9 - i) + 10 * m" unfolding q using i by simp
  then have "(n - 1 - ?j) mod 10 = (9 - i) mod 10" by (simp only: mod_mult_self2)
  then have "(n - 1 - ?j) mod 10 = 9 - i" by simp
  moreover have "?j < min 10 n" using i assms(2) by simp
  ultimately have "cstring (h ! (9 - i)) = ls ! (n - 1 - ?j)" using assms(1) [of ?j] by simp
  moreover have "nat (9 - int i) = 9 - i" using i by simp
  moreover have "int n - (int c + 1) - int i = int (n - ?j)" using i assms(2) c10 by (simp add: of_nat_diff)
  ultimately have e: "(int n - (int c + 1) - int i, cstring (h ! nat (9 - int i))) = (int (n - ?j), ls ! (n - 1 - ?j))"
    by (simp only:)
  have "[0..<9 - c] ! i = i" "[Suc c..<10] ! i = ?j" using i by simp_all
  with e i show "?l ! i = ?r ! i" by (simp only: nth_map length_upt) simp
qed simp





section \<open>Changing directory\<close>

text \<open>The command \<^verbatim>\<open>cd\<close> loses the last character of its argument: the line read for \<^verbatim>\<open>cd\<close> with the argument
  \<open>path @ [c]\<close> makes the shell change to \<open>path\<close>, because both the loop and the case of \<^verbatim>\<open>cd\<close> chop a character.\<close>

theorem cd_chops_twice:
  assumes "storable path" and "c \<noteq> 0" and "length path < 90"
  shows "main_line ([99, 100, 32] @ path @ [c, 10] @ replicate (95 - length path) 0) h n = Some ([DoChdir path], h, n)"
proof -
  let ?z = "replicate (95 - length path) (0 :: byte)"
  have z: "?z = 0 # replicate (94 - length path) 0"
  proof -
    have "95 - length path = Suc (94 - length path)" using assms(3) by simp
    then show ?thesis by (simp only: replicate_Suc)
  qed
  have p: "0 \<notin> set path" using assms(1) by (simp add: storable_def)
  have s1: "cstring ([99, 100, 32] @ path @ [c, 10] @ ?z) = [99, 100, 32] @ path @ [c, 10]"
    unfolding z using p assms(2) cstring_append [of "[99, 100, 32] @ path @ [c, 10]"] by simp
  have b1: "([99, 100, 32] @ path @ [c, 10] @ ?z)[length ([99, 100, 32] @ path @ [c, 10]) - 1 := 0] = [99, 100, 32] @ path @ [c] @ 0 # ?z"
    by (simp add: list_update_append)
  have s2: "cstring ([99, 100, 32] @ path @ [c] @ 0 # ?z) = [99, 100, 32] @ path @ [c]"
    using p assms(2) cstring_append [of "[99, 100, 32] @ path @ [c]"] by simp
  have b2: "([99, 100, 32] @ path @ [c] @ 0 # ?z)[length ([99, 100, 32] @ path @ [c]) - 1 := 0] = [99, 100, 32] @ path @ 0 # 0 # ?z"
    by (simp add: list_update_append)
  have s3: "cstring (drop 3 ([99, 100, 32] @ path @ 0 # 0 # ?z)) = path"
    using cstring_append [OF p] by simp
  show ?thesis
    unfolding main_line_def Let_def s1 b1 s2 b2 s3 by simp
qed

theorem cd_chops_twice_witness:
  "main_line ([99, 100, 32] @ [97, 98] @ [99, 10] @ replicate 93 0) [] 0 = Some ([DoChdir [97, 98]], [], 0)"
  using cd_chops_twice [of "[97, 98]" 99 "[]" 0] by (simp add: storable_def)

end
