(* ===== verification/Spec2Isabelle.thy ===== *)
theory Spec2Isabelle
  imports StringC Log Buf_List Pipe File Scheduling Page_Table Vm_Copy Proc_Life Proc_Fork Fs_File Fs_Alloc Kbd Trap Spinlock Sys_Args
    Syscall Sysproc Exec Sysfile Grep Sh_Parser Sh_Run
begin

text \<open>
  A verification of xv6: a Unix-like kernel for x86 multiprocessors with its shell and utilities, in a variant that
  has a doubly indirect range in its files, the system calls \<^verbatim>\<open>getcwd\<close>, \<^verbatim>\<open>wait2\<close>, \<^verbatim>\<open>ps\<close> and \<^verbatim>\<open>yield\<close>, process statistics,
  and command histories in the console and in the shell. The definitions translate the C sources under \<^verbatim>\<open>src/\<close>; the
  theories are named after the files they model.

  \<^bold>\<open>How C is modelled.\<close> A routine of the kernel is a function from its arguments and the state to an \<open>outcome\<close> (\<open>Prelude\<close>): \<open>Ok\<close> with
  a result and a new state, \<open>Panic\<close> with the message of \<^verbatim>\<open>panic\<close>, \<open>Sleep\<close> with the channel and the state in which the process
  goes to sleep, or \<open>Fault\<close> where C has no defined behaviour, such as an access outside an array. \<open>call\<close> is sequencing. A routine that
  sleeps is re-entered at the loop that contains the call of \<^verbatim>\<open>sleep\<close>, which is where the code tests its condition again.
  \<^verbatim>\<open>int\<close> and \<^verbatim>\<open>uint\<close> are 32-bit words wherever wrap-around matters; indices into kernel tables are natural numbers,
  and so are the pointers to table entries.

  \<^bold>\<open>The state\<close> is a tower of records, each component adding its globals to those of the components below: \<open>kmem\<close> (memory, free
  list) of \<open>Kalloc\<close>; \<open>sched\<close> (process table, ticks, current process) of \<open>Sched\<close>; \<open>bio\<close> (disk, buffers) of \<open>Bio\<close>; \<open>log_st\<close> of \<open>Log\<close>;
  \<open>inode_st\<close> of \<open>Inode\<close>; \<open>cons_st\<close> of \<open>Console\<close>; \<open>pipe_st\<close> of \<open>Pipe\<close>; \<open>file_st\<close> of \<open>File\<close>; \<open>proc_st\<close> of \<open>Proc\<close>; \<open>trap_st\<close> of \<open>Trap\<close>. A routine of
  one component runs unchanged on the state of any component above it, as the kernel's routines call each other.
  Routines run to their next sleep in one step; this is the granularity that the kernel's locks give, and the theory \<open>Spinlock\<close> is about
  the locks themselves.

  \<^bold>\<open>Memory and processes.\<close>
  \<open>StringC\<close>: \<^verbatim>\<open>string.c\<close>; \<^verbatim>\<open>memmove\<close> is right for every overlap and \<^verbatim>\<open>safestrcpy\<close> stays inside its buffer.
  \<open>Memory\<close>, \<open>Kalloc\<close>: \<^verbatim>\<open>kalloc.c\<close>; the locale \<open>page_allocator\<close> states what clients rely on and is interpreted on \<^verbatim>\<open>kalloc\<close> and \<^verbatim>\<open>kfree\<close>.
  \<open>Vm\<close>: \<^verbatim>\<open>vm.c\<close>. \<open>Page_Table\<close> gives page tables their meaning, the map \<open>vpte\<close> from addresses to entries, and shows what \<^verbatim>\<open>mappages\<close> and
  \<^verbatim>\<open>setupkvm\<close> do to it; \<open>Vm_Copy\<close> shows that \<^verbatim>\<open>copyuvm\<close> copies a process's memory.
  \<open>Sched\<close>, \<open>Proc\<close>: \<^verbatim>\<open>proc.c\<close>. \<open>Scheduling\<close> has the scheduler's steps as a relation, with the well-formedness of the table and the accounting of
  ticks in every reachable state. \<open>Proc_Frame\<close> shows of every routine below \<^verbatim>\<open>proc.c\<close> that it leaves the process table alone but for wakeups
  (collection \<open>frame\<close>); on it rest the properties of \<^verbatim>\<open>exec\<close>, \<^verbatim>\<open>exit\<close>, \<^verbatim>\<open>wait\<close> and \<^verbatim>\<open>kill\<close> in \<open>Proc_Life\<close> and of \<^verbatim>\<open>fork\<close> in \<open>Proc_Fork\<close>.
  \<open>Exec\<close>: \<^verbatim>\<open>exec.c\<close>. \<open>Spinlock\<close>: \<^verbatim>\<open>spinlock.c\<close> as steps of several CPUs, with mutual exclusion in every interleaving.

  \<^bold>\<open>The file system.\<close>
  \<open>Bio\<close>: \<^verbatim>\<open>bio.c\<close> over \<^verbatim>\<open>memide.c\<close>; \<open>Buf_List\<close> shows that the doubly linked list of \<^verbatim>\<open>bio.c\<close> implements the list of \<open>Bio\<close>.
  \<open>Log\<close>: \<^verbatim>\<open>log.c\<close>; a crash after any number of sector writes is recovered to the state before or after the transaction, recovery may
  itself be interrupted, and a commit always completes.
  \<open>Inode\<close>, \<open>Dir\<close>: \<^verbatim>\<open>fs.c\<close>. \<open>Fs_Blocks\<close> states the contract of the cache and the log, the locale \<open>block_layer\<close>, interpreted on
  \<^verbatim>\<open>bread\<close>, \<^verbatim>\<open>log_write\<close> and \<^verbatim>\<open>brelse\<close>; its clients are \<open>Fs_Inode\<close> (inodes survive the disk, the inode cache has no duplicates), \<open>Fs_File\<close>
  (\<^verbatim>\<open>readi\<close> returns what \<^verbatim>\<open>writei\<close> wrote) and \<open>Fs_Alloc\<close> (\<^verbatim>\<open>balloc\<close> and \<^verbatim>\<open>bfree\<close>).
  \<open>File\<close>: \<^verbatim>\<open>file.c\<close>. \<open>Pipe\<close>: \<^verbatim>\<open>pipe.c\<close>; the locale \<open>bounded_fifo\<close>, interpreted on the ring of bytes with its wrapping counters, gives the
  first-in first-out order of every interleaving of readers and writers.

  \<^bold>\<open>Devices and the system call interface.\<close>
  \<open>Console\<close>: \<^verbatim>\<open>console.c\<close> and \<^verbatim>\<open>uart.c\<close>. \<open>Kbd\<close>: \<^verbatim>\<open>kbd.c\<close>. \<open>Trap\<close>: \<^verbatim>\<open>trap.c\<close>; a fault in user mode ends the process that caused it.
  \<open>Syscall\<close>, \<open>Sysproc\<close>, \<open>Sysfile\<close>: \<^verbatim>\<open>syscall.c\<close>, \<^verbatim>\<open>sysproc.c\<close>, \<^verbatim>\<open>sysfile.c\<close>; \<open>Sys_Args\<close> shows that the argument checks keep the kernel inside the memory of
  the process.

  \<^bold>\<open>User programs\<close> work on byte lists; reading outside an array is \<open>None\<close>. \<open>Ulib\<close>: \<^verbatim>\<open>ulib.c\<close>, \<^verbatim>\<open>printf.c\<close>. \<open>Grep\<close>: \<^verbatim>\<open>grep.c\<close>, with the matcher
  equivalent to the language of its expressions. \<open>Sh\<close>: the data and routines of \<^verbatim>\<open>sh.c\<close>; \<open>Sh_Parser\<close>: the parser terminates and inverts
  printing; \<open>Sh_Run\<close>: the tree of system calls of a command gives each program the descriptors that the command denotes, and what the
  history shows.

  \<^bold>\<open>Bounds and fuel.\<close> The parser of the shell is recursive without a structural measure; its fuel \<open>parse_depth\<close> is linear in the length of
  the line, and \<open>parsecmd_terminates\<close> shows that it is never used up. The recursion of \<open>namediNode\<close> (\<^verbatim>\<open>getcwd\<close>) is bounded by the frames that fit
  the kernel stack. The loops of \<^verbatim>\<open>bget\<close> over pointers are partial functions that are shown to return on a ring. All other loops terminate by
  a measure. Numbers of processes, buffers, files and inodes are those of \<^verbatim>\<open>param.h\<close>.

  \<^bold>\<open>Assumptions.\<close> A sector write is atomic and writes reach the disk in order.
  The properties of files (\<open>Fs_File\<close>) are about the direct and the singly indirect range: the address of the
  doubly indirect block lies outside the in-memory inode.

  \<^bold>\<open>Not modelled.\<close> Assembly and boot code (\<^verbatim>\<open>*.S\<close>, \<^verbatim>\<open>bootmain.c\<close>, \<^verbatim>\<open>main.c\<close>), because it is a sequence of machine
  operations below the level of C; the IDE driver, interrupt controllers, timer and multiprocessor tables
  (\<^verbatim>\<open>ide.c\<close>, \<^verbatim>\<open>lapic.c\<close>, \<^verbatim>\<open>ioapic.c\<close>, \<^verbatim>\<open>picirq.c\<close>, \<^verbatim>\<open>timer.c\<close>, \<^verbatim>\<open>mp.c\<close>), which are input and output on device registers; segment and
  interrupt descriptor tables; \<^verbatim>\<open>mkfs.c\<close>, a program of the host; \<^verbatim>\<open>umalloc.c\<close>; the utilities that only pass their
  arguments to system calls; and the test programs.
\<close>

end
